(* ===== verification/WS_Prelude.thy ===== *)
theory WS_Prelude
  imports Main "HOL-Library.Word"
begin

text \<open>
  Shared vocabulary of the development: bytes and machine words, the result
  type in which every \<^verbatim>\<open>assert\<close> of the C++ sources is a value, and the generic
  lemmas on lists and words that the components use.

  A function of the program that may stop at an \<^verbatim>\<open>assert\<close> returns \<open>'a res\<close>:
  \<open>Inl (AssertFail f n)\<close> is the process stopped by the assertion on line \<open>n\<close>
  of the source file \<open>f\<close>, \<open>Inl (Undefined f n)\<close> an access on line \<open>n\<close> whose behaviour
  the language leaves undefined, \<open>Inl OutOfFuel\<close> a loop cut by its bound, and \<open>Inr x\<close>
  is a normal return.

  No build file defines \<^verbatim>\<open>NDEBUG\<close>, but \<^verbatim>\<open>EventLoop.h\<close> does, on its line 28, so the assertions of the files
  that include \<^verbatim>\<open>assert.h\<close> after it, directly or through \<^verbatim>\<open>LogStream.h\<close>, are compiled out: \<^verbatim>\<open>EPollPoller.cc\<close>, \<^verbatim>\<open>PollPoller.cc\<close>, \<^verbatim>\<open>EventLoop.cc\<close>,
  \<^verbatim>\<open>TcpConnection.cc\<close>, \<^verbatim>\<open>TcpServer.cc\<close>, \<^verbatim>\<open>TcpClient.cc\<close>, the websocket server of \<^verbatim>\<open>muduo-vip\<close> (\<^verbatim>\<open>libwebsocket/context.cc\<close>, \<^verbatim>\<open>server.cc\<close>) and
  \<^verbatim>\<open>demo/echo.cc\<close>.  The model leaves out the assertions of \<^verbatim>\<open>TcpConnection.cc\<close> and \<^verbatim>\<open>TcpServer.cc\<close> and keeps the others as they are written.  Where a theorem says
  that a function of a file of the list returns, it also says that the conditions its remaining assertions name hold, and no theorem says that one of them
  fails; in the other files, the websocket library, \<^verbatim>\<open>Channel.cc\<close>, \<^verbatim>\<open>TimerQueue.cc\<close> and \<^verbatim>\<open>Connector.cc\<close> among them, a failed assertion does stop the process.
\<close>

unbundle bit_operations_syntax

type_synonym byte = "8 word"
type_synonym bytes = "8 word list"
type_synonym timestamp = int

section \<open>Faults and results\<close>

datatype source_file =
    Websocket_cc | Buffer_h | HttpRequest_h | HttpContext_h | Context_cc | Server_cc
  | IBytesBuffer_cc | TcpConnection_cc | Channel_cc | EventLoop_cc | Poller_h | EPollPoller_cc
  | PollPoller_cc | TimerQueue_cc | TcpServer_cc | TcpClient_cc | Connector_cc | Acceptor_cc
  | EventLoopThreadPool_cc | TimeZone_cc | LogFile_cc | AsyncLogging_cc | BoundedBlockingQueue_h
  | BlockingQueue_h | ThreadPool_cc | FileUtil_cc | Ssl_cc | Endian_h | ProtobufCodecLite_cc | RpcChannel_cc

datatype fault =
    AssertFail source_file nat
  | Undefined source_file nat
  | OutOfFuel

type_synonym 'a res = "fault + 'a"

definition rbind :: "'a res \<Rightarrow> ('a \<Rightarrow> 'b res) \<Rightarrow> 'b res" where
  "rbind m f = (case m of Inl e \<Rightarrow> Inl e | Inr x \<Rightarrow> f x)"

definition require :: "source_file \<Rightarrow> nat \<Rightarrow> bool \<Rightarrow> 'a res \<Rightarrow> 'a res" where
  "require f n P k = (if P then k else Inl (AssertFail f n))"

definition rmap :: "('a \<Rightarrow> 'b) \<Rightarrow> 'a res \<Rightarrow> 'b res" where
  "rmap f m = (case m of Inl e \<Rightarrow> Inl e | Inr x \<Rightarrow> Inr (f x))"

definition str :: "string \<Rightarrow> bytes" where
  "str s = map of_char s"

text \<open>
  \<open>res_rules\<close> collects the equations that push \<open>rbind\<close>, \<open>rmap\<close> and \<open>require\<close>
  through a definition; \<open>buf_simps\<close> collects the effect of the buffer
  operations on the readable bytes.
\<close>

named_theorems res_rules
named_theorems buf_simps

lemma rbind_simps [simp]:
  "rbind (Inl e) f = Inl e"
  "rbind (Inr x) f = f x"
  by (simp_all add: rbind_def)

lemma require_simps [simp]:
  "require f n True k = k"
  "require f n False k = Inl (AssertFail f n)"
  by (simp_all add: require_def)

lemma rmap_simps [simp]:
  "rmap f (Inl e) = Inl e"
  "rmap f (Inr x) = Inr (f x)"
  by (simp_all add: rmap_def)

lemma rbind_eq_Inr [res_rules]:
  "rbind m f = Inr y \<longleftrightarrow> (\<exists>x. m = Inr x \<and> f x = Inr y)"
  by (cases m) simp_all

lemma require_eq_Inr [res_rules]:
  "require f n P k = Inr y \<longleftrightarrow> P \<and> k = Inr y"
  by (cases P) simp_all

lemma rmap_eq_Inr [res_rules]:
  "rmap f m = Inr y \<longleftrightarrow> (\<exists>x. m = Inr x \<and> y = f x)"
  by (cases m) auto

lemma rmap_rbind: "rmap g (rbind m f) = rbind m (\<lambda>x. rmap g (f x))"
  by (cases m) simp_all

lemma rbind_rmap: "rbind (rmap g m) f = rbind m (\<lambda>x. f (g x))"
  by (cases m) simp_all

lemma rmap_require: "rmap g (require f n P k) = require f n P (rmap g k)"
  by (cases P) simp_all

lemma rmap_rmap: "rmap f (rmap g m) = rmap (\<lambda>x. f (g x)) m"
  by (cases m) simp_all

lemma rmap_id [simp]: "rmap (\<lambda>x. x) m = m"
  by (cases m) simp_all

lemma rbind_cong [fundef_cong]:
  "m = m' \<Longrightarrow> (\<And>x. m' = Inr x \<Longrightarrow> f x = g x) \<Longrightarrow> rbind m f = rbind m' g"
  by (cases m') simp_all

section \<open>Lists\<close>

lemma take_drop_append_window:
  "i + n \<le> length xs \<Longrightarrow> take n (drop i (xs @ ys)) = take n (drop i xs)"
  by simp

lemma splice_window:
  assumes "length xs = n" and "i + n \<le> length v"
  shows "take n (drop i (take i v @ xs @ drop (i + n) v)) = xs"
  using assms by simp

lemma take_add_drop: "take (m + n) (drop i v) = take m (drop i v) @ take n (drop (i + m) v)"
  by (simp add: take_add add.commute)

lemma length_4_cases:
  assumes "length xs = 4"
  obtains a b c d where "xs = [a, b, c, d]"
  using assms by (auto simp: length_Suc_conv numeral_eq_Suc)

lemma length_2_cases:
  assumes "length xs = 2"
  obtains a b where "xs = [a, b]"
  using assms by (auto simp: length_Suc_conv numeral_eq_Suc)

lemma length_ge_2_cases:
  assumes "2 \<le> length xs"
  obtains a b ys where "xs = a # b # ys"
  using assms by (cases xs; cases "tl xs") auto

section \<open>Words\<close>

lemma word_xor_xor_cancel [simp]: "((a::'a::len word) XOR b) XOR b = a"
  by (simp add: xor.assoc)

lemma unat_bound: "unat (x :: 'a::len word) < 2 ^ LENGTH('a)"
  by (rule unsigned_less)

lemma byte_cases_256: "unat (b :: byte) < 256"
  using unat_bound [of b] by simp

end
