(* ===== verification/WS_Connector.thy ===== *)
theory WS_Connector
  imports WS_Prelude
begin

text \<open>
  \<^verbatim>\<open>Connector\<close> (\<^verbatim>\<open>net/Connector.h\<close>, \<^verbatim>\<open>net/Connector.cc\<close>): the client side of a connection attempt, on the thread of its loop.  The answers of
  \<^verbatim>\<open>socket\<close>, \<^verbatim>\<open>connect\<close> and of the socket options are arguments.  Of the loop the state holds the functors the connector has queued and the delays of the timers it
  has set.
\<close>

section \<open>State\<close>

datatype States = Disconnected | Connecting | Connected

text \<open>\<open>conn_watched\<close>: the channel is registered for writing.\<close>

record connector_channel =
  conn_fd :: nat
  conn_watched :: bool

text \<open>\<open>cn_functors\<close> counts the queued calls of \<^verbatim>\<open>resetChannel\<close>, \<open>cn_timers\<close> the delays of the timers that will call \<^verbatim>\<open>startInLoop\<close>.  \<open>cn_open\<close> are the sockets
  the connector has created and neither closed nor given away, \<open>cn_given\<close> those handed to \<^verbatim>\<open>newConnectionCallback_\<close>, and \<open>cn_delays\<close> the delays since the last start.\<close>

record Connector =
  cn_connect :: bool
  cn_state :: States
  cn_channel :: "connector_channel option"
  cn_retryDelayMs :: nat
  cn_functors :: nat
  cn_timers :: "nat list"
  cn_open :: "nat list"
  cn_given :: "nat list"
  cn_delays :: "nat list"

definition kMaxRetryDelayMs :: nat where
  "kMaxRetryDelayMs = 30 * 1000"

definition kInitRetryDelayMs :: nat where
  "kInitRetryDelayMs = 500"

definition Connector_ctor :: Connector where
  "Connector_ctor = \<lparr>cn_connect = False, cn_state = Disconnected, cn_channel = None, cn_retryDelayMs = kInitRetryDelayMs, cn_functors = 0,
     cn_timers = [], cn_open = [], cn_given = [], cn_delays = []\<rparr>"

section \<open>Operations\<close>

text \<open>The cases of the \<^verbatim>\<open>switch\<close>: 0, \<^verbatim>\<open>EINPROGRESS\<close>, \<^verbatim>\<open>EINTR\<close>, \<^verbatim>\<open>EISCONN\<close>; then \<^verbatim>\<open>EAGAIN\<close>, \<^verbatim>\<open>EADDRINUSE\<close>, \<^verbatim>\<open>EADDRNOTAVAIL\<close>, \<^verbatim>\<open>ECONNREFUSED\<close>, \<^verbatim>\<open>ENETUNREACH\<close>.
  The other named errors and the default both close the socket.\<close>

definition connect_started :: "nat list" where
  "connect_started = [0, 115, 4, 106]"

definition connect_again :: "nat list" where
  "connect_again = [11, 98, 99, 111, 101]"

definition close_socket :: "nat \<Rightarrow> Connector \<Rightarrow> Connector" where
  "close_socket fd c = c\<lparr>cn_open := remove1 fd (cn_open c)\<rparr>"

definition Connector_retry :: "nat \<Rightarrow> Connector \<Rightarrow> Connector" where
  "Connector_retry sockfd c =
     (let c = (close_socket sockfd c)\<lparr>cn_state := Disconnected\<rparr>
      in if cn_connect c
         then c\<lparr>cn_timers := cn_timers c @ [cn_retryDelayMs c], cn_delays := cn_delays c @ [cn_retryDelayMs c],
           cn_retryDelayMs := min (cn_retryDelayMs c * 2) kMaxRetryDelayMs\<rparr>
         else c)"

definition connecting :: "nat \<Rightarrow> Connector \<Rightarrow> Connector res" where
  "connecting sockfd c =
     (let c = c\<lparr>cn_state := Connecting\<rparr>
      in require Connector_cc 139 (cn_channel c = None) (Inr (c\<lparr>cn_channel := Some \<lparr>conn_fd = sockfd, conn_watched = True\<rparr>\<rparr>)))"

text \<open>\<open>sockfd\<close> is the new socket and \<open>e\<close> the error of \<^verbatim>\<open>connect\<close>, 0 for none.\<close>

definition Connector_connect :: "nat \<Rightarrow> nat \<Rightarrow> Connector \<Rightarrow> Connector res" where
  "Connector_connect sockfd e c =
     (let c = c\<lparr>cn_open := sockfd # cn_open c\<rparr>
      in if e \<in> set connect_started then connecting sockfd c
         else if e \<in> set connect_again then Inr (Connector_retry sockfd c)
         else Inr (close_socket sockfd c))"

definition startInLoop :: "nat \<Rightarrow> nat \<Rightarrow> Connector \<Rightarrow> Connector res" where
  "startInLoop sockfd e c =
     require Connector_cc 50 (cn_state c = Disconnected) (if cn_connect c then Connector_connect sockfd e c else Inr c)"

definition Connector_start :: "nat \<Rightarrow> nat \<Rightarrow> Connector \<Rightarrow> Connector res" where
  "Connector_start sockfd e c = startInLoop sockfd e (c\<lparr>cn_connect := True\<rparr>)"

definition Connector_restart :: "nat \<Rightarrow> nat \<Rightarrow> Connector \<Rightarrow> Connector res" where
  "Connector_restart sockfd e c =
     startInLoop sockfd e (c\<lparr>cn_state := Disconnected, cn_retryDelayMs := kInitRetryDelayMs, cn_connect := True, cn_delays := []\<rparr>)"

definition removeAndResetChannel :: "Connector \<Rightarrow> (nat \<times> Connector) res" where
  "removeAndResetChannel c =
     (case cn_channel c of
        None \<Rightarrow> Inl (Undefined Connector_cc 154)
      | Some ch \<Rightarrow> Inr (conn_fd ch, c\<lparr>cn_channel := Some (ch\<lparr>conn_watched := False\<rparr>), cn_functors := Suc (cn_functors c)\<rparr>))"

definition resetChannel :: "Connector \<Rightarrow> Connector" where
  "resetChannel c = c\<lparr>cn_channel := None, cn_functors := cn_functors c - 1\<rparr>"

definition stopInLoop :: "Connector \<Rightarrow> Connector res" where
  "stopInLoop c =
     (case cn_state c of
        Connecting \<Rightarrow> rbind (removeAndResetChannel (c\<lparr>cn_state := Disconnected\<rparr>)) (\<lambda>(sockfd, c). Inr (Connector_retry sockfd c))
      | Connected \<Rightarrow> rmap snd (removeAndResetChannel (c\<lparr>cn_state := Disconnected\<rparr>))
      | Disconnected \<Rightarrow> Inr c)"

definition Connector_stop :: "Connector \<Rightarrow> Connector res" where
  "Connector_stop c = stopInLoop (c\<lparr>cn_connect := False\<rparr>)"

text \<open>\<open>err\<close>: the socket reports an error; \<open>self\<close>: it is connected to itself.\<close>

definition Connector_handleWrite :: "bool \<Rightarrow> bool \<Rightarrow> Connector \<Rightarrow> Connector res" where
  "Connector_handleWrite err self c =
     (if cn_state c = Connecting
      then rbind (removeAndResetChannel c) (\<lambda>(sockfd, c).
        if err then Inr (Connector_retry sockfd c)
        else if self then Inr (Connector_retry sockfd c)
        else let c = c\<lparr>cn_state := Connected\<rparr>
             in Inr (if cn_connect c then c\<lparr>cn_open := remove1 sockfd (cn_open c), cn_given := cn_given c @ [sockfd]\<rparr> else close_socket sockfd c))
      else require Connector_cc 202 (cn_state c = Disconnected) (Inr c))"

definition Connector_handleError :: "Connector \<Rightarrow> Connector res" where
  "Connector_handleError c =
     (if cn_state c = Connecting then rbind (removeAndResetChannel c) (\<lambda>(sockfd, c). Inr (Connector_retry sockfd c)) else Inr c)"

section \<open>Careful use\<close>

text \<open>
  What the loop does and what a careful owner does.  The loop calls the channel only while it is watched, runs functors before it waits again, and hence before a timer.  The owner starts
  the connector once, stops it only while it is not connected, and restarts it only after the connection it made has gone, with the channel reset.  A new socket is not one that is open.
\<close>

inductive connector_step :: "Connector \<Rightarrow> Connector res \<Rightarrow> bool" where
  writable: "cn_channel c = Some ch \<Longrightarrow> conn_watched ch \<Longrightarrow> connector_step c (Connector_handleWrite err self c)"
| failed: "cn_channel c = Some ch \<Longrightarrow> conn_watched ch \<Longrightarrow> connector_step c (Connector_handleError c)"
| resets: "0 < cn_functors c \<Longrightarrow> connector_step c (Inr (resetChannel c))"
| fires: "cn_timers c = pre @ d # post \<Longrightarrow> cn_functors c = 0 \<Longrightarrow> sockfd \<notin> set (cn_open c) \<Longrightarrow>
    connector_step c (startInLoop sockfd e (c\<lparr>cn_timers := pre @ post\<rparr>))"
| owner_stops: "cn_state c \<noteq> Connected \<Longrightarrow> connector_step c (Connector_stop c)"
| owner_restarts: "cn_state c = Connected \<Longrightarrow> cn_functors c = 0 \<Longrightarrow> sockfd \<notin> set (cn_open c) \<Longrightarrow> connector_step c (Connector_restart sockfd e c)"

inductive connector_run :: "Connector \<Rightarrow> Connector res \<Rightarrow> bool" for c0 where
  run_start: "connector_run c0 (Inr c0)"
| run_step: "connector_run c0 (Inr c) \<Longrightarrow> connector_step c r \<Longrightarrow> connector_run c0 r"

text \<open>
  State, channel, functors, timers and sockets agree: the channel is watched exactly while connecting and holds the only open socket; otherwise it is gone or about to be; a timer
  waits only in the state \<open>Disconnected\<close>, and then it is the only one.  Delays double up to the maximum.
\<close>

definition retry_delay :: "nat \<Rightarrow> nat" where
  "retry_delay k = min (kInitRetryDelayMs * 2 ^ k) kMaxRetryDelayMs"

definition channel_going :: "Connector \<Rightarrow> bool" where
  "channel_going c \<longleftrightarrow> cn_functors c \<le> 1 \<and> (if cn_functors c = 0 then cn_channel c = None else \<exists>ch. cn_channel c = Some ch \<and> \<not> conn_watched ch)"

definition delays_ok :: "Connector \<Rightarrow> bool" where
  "delays_ok c \<longleftrightarrow> cn_delays c = map retry_delay [0..<length (cn_delays c)] \<and> cn_retryDelayMs c = retry_delay (length (cn_delays c)) \<and>
     set (cn_timers c) \<subseteq> set (cn_delays c)"

definition connector_ok :: "Connector \<Rightarrow> bool" where
  "connector_ok c \<longleftrightarrow>
     (case cn_state c of
        Connecting \<Rightarrow> (\<exists>ch. cn_channel c = Some ch \<and> conn_watched ch \<and> cn_open c = [conn_fd ch]) \<and> cn_functors c = 0 \<and> cn_timers c = []
      | Connected \<Rightarrow> cn_timers c = [] \<and> cn_open c = []
      | Disconnected \<Rightarrow> length (cn_timers c) \<le> 1 \<and> cn_open c = []) \<and>
     (cn_state c \<noteq> Connecting \<longrightarrow> channel_going c) \<and> delays_ok c"

lemma delay_Suc: "min (retry_delay n * 2) kMaxRetryDelayMs = retry_delay (Suc n)"
  by (simp add: retry_delay_def min_def kMaxRetryDelayMs_def kInitRetryDelayMs_def)

lemma retry_ok:
  assumes "channel_going c" "delays_ok c" "cn_timers c = []" "cn_open c = [fd]"
  shows "connector_ok (Connector_retry fd c)"
proof -
  have "cn_delays c @ [cn_retryDelayMs c] = map retry_delay [0..<Suc (length (cn_delays c))]"
    using assms(2) unfolding delays_ok_def by (metis map_append list.simps(8,9) upt_Suc_append zero_le)
  then show ?thesis
    using assms delay_Suc [of "length (cn_delays c)"]
    by (auto simp: connector_ok_def Connector_retry_def close_socket_def channel_going_def delays_ok_def Let_def simp del: upt_Suc)
qed

text \<open>The channel of an attempt is taken out.\<close>

lemma remove_ok:
  assumes "connector_ok c" "cn_state c = Connecting"
  shows "\<exists>fd c'. removeAndResetChannel c = Inr (fd, c') \<and> channel_going c' \<and> delays_ok c' \<and> cn_timers c' = [] \<and> cn_open c' = [fd] \<and>
    cn_connect c' = cn_connect c \<and> cn_given c' = cn_given c"
proof -
  obtain ch where ch: "cn_channel c = Some ch" "cn_open c = [conn_fd ch]" "cn_functors c = 0" "cn_timers c = []" "delays_ok c"
    using assms by (auto simp: connector_ok_def)
  then show ?thesis by (simp add: removeAndResetChannel_def channel_going_def delays_ok_def)
qed

lemma retry_state [simp]: "cn_state (Connector_retry fd c) = Disconnected"
  by (simp add: Connector_retry_def close_socket_def Let_def)

lemma startInLoop_ok:
  assumes "connector_ok c" "cn_state c = Disconnected" "cn_timers c = []" "cn_functors c = 0"
  shows "\<exists>c'. startInLoop sockfd e c = Inr c' \<and> connector_ok c'"
proof -
  have c: "cn_open c = []" "cn_channel c = None" "delays_ok c" using assms by (simp_all add: connector_ok_def channel_going_def)
  then have "connector_ok (Connector_retry sockfd (c\<lparr>cn_open := [sockfd]\<rparr>))"
    using assms by (intro retry_ok) (simp_all add: channel_going_def delays_ok_def)
  moreover have "connector_ok (close_socket sockfd (c\<lparr>cn_open := [sockfd]\<rparr>))"
    using assms c by (simp add: connector_ok_def close_socket_def channel_going_def delays_ok_def)
  moreover have "\<exists>c'. connecting sockfd (c\<lparr>cn_open := [sockfd]\<rparr>) = Inr c' \<and> connector_ok c'"
    using assms c by (simp add: connecting_def Let_def connector_ok_def delays_ok_def)
  ultimately show ?thesis using assms c by (simp add: startInLoop_def Connector_connect_def Let_def)
qed

lemma handleWrite_ok:
  assumes "connector_ok c" "cn_state c = Connecting"
  shows "\<exists>c'. Connector_handleWrite err self c = Inr c' \<and> connector_ok c'"
proof -
  obtain fd c1 where c1: "removeAndResetChannel c = Inr (fd, c1)" "channel_going c1" "delays_ok c1" "cn_timers c1 = []" "cn_open c1 = [fd]"
    using remove_ok [OF assms] by blast
  show ?thesis using retry_ok [OF c1(2-5)] c1 assms(2)
    by (auto simp: Connector_handleWrite_def Let_def connector_ok_def close_socket_def channel_going_def delays_ok_def)
qed

lemma handleError_ok:
  assumes "connector_ok c" "cn_state c = Connecting"
  shows "\<exists>c'. Connector_handleError c = Inr c' \<and> connector_ok c'"
  using remove_ok [OF assms] retry_ok assms(2) by (auto simp: Connector_handleError_def)

lemma stop_ok:
  assumes "connector_ok c" "cn_state c \<noteq> Connected"
  shows "\<exists>c'. Connector_stop c = Inr c' \<and> connector_ok c' \<and> cn_state c' = Disconnected"
proof (cases "cn_state c")
  case Connecting
  then have "connector_ok (c\<lparr>cn_connect := False\<rparr>)" using assms by (simp add: connector_ok_def delays_ok_def)
  then obtain fd c1 where c1: "removeAndResetChannel (c\<lparr>cn_connect := False\<rparr>) = Inr (fd, c1)" "channel_going c1" "delays_ok c1" "cn_timers c1 = []" "cn_open c1 = [fd]"
    using remove_ok [of "c\<lparr>cn_connect := False\<rparr>"] Connecting by auto
  let ?c1 = "c1\<lparr>cn_state := Disconnected\<rparr>"
  have "connector_ok (Connector_retry fd ?c1)" using c1 by (intro retry_ok) (simp_all add: channel_going_def delays_ok_def)
  moreover have "removeAndResetChannel (c\<lparr>cn_connect := False, cn_state := Disconnected\<rparr>) = Inr (fd, ?c1)"
    using c1(1) by (auto simp: removeAndResetChannel_def split: option.splits)
  ultimately show ?thesis using Connecting by (simp add: Connector_stop_def stopInLoop_def)
qed (use assms in \<open>auto simp: Connector_stop_def stopInLoop_def connector_ok_def channel_going_def delays_ok_def\<close>)

lemma connector_step_ok:
  assumes "connector_step c r" "connector_ok c"
  shows "\<exists>c'. r = Inr c' \<and> connector_ok c'"
  using assms
proof (induction rule: connector_step.induct)
  case (writable c ch err self)
  then have "cn_state c = Connecting" by (cases "cn_state c") (auto simp: connector_ok_def channel_going_def split: if_splits)
  then show ?case using handleWrite_ok [OF writable(3)] by blast
next
  case (failed c ch)
  then have "cn_state c = Connecting" by (cases "cn_state c") (auto simp: connector_ok_def channel_going_def split: if_splits)
  then show ?case using handleError_ok [OF failed(3)] by blast
next
  case (resets c)
  then show ?case by (cases "cn_state c") (auto simp: connector_ok_def channel_going_def delays_ok_def resetChannel_def)
next
  case (fires c pre d post sockfd e)
  then have "cn_state c = Disconnected" "pre = []" "post = []"
    by (cases "cn_state c"; cases pre; auto simp: connector_ok_def)+
  moreover have "connector_ok (c\<lparr>cn_timers := []\<rparr>)" using fires(4) calculation by (simp add: connector_ok_def channel_going_def delays_ok_def)
  ultimately show ?case using startInLoop_ok [of "c\<lparr>cn_timers := []\<rparr>" sockfd e] fires(2) by simp
next
  case (owner_stops c)
  then show ?case using stop_ok by blast
next
  case (owner_restarts c sockfd e)
  let ?c = "c\<lparr>cn_state := Disconnected, cn_retryDelayMs := kInitRetryDelayMs, cn_connect := True, cn_delays := []\<rparr>"
  have "connector_ok ?c"
    using owner_restarts by (simp add: connector_ok_def channel_going_def delays_ok_def retry_delay_def kInitRetryDelayMs_def kMaxRetryDelayMs_def)
  then show ?case using startInLoop_ok [of ?c sockfd e] owner_restarts by (simp add: Connector_restart_def connector_ok_def)
qed

lemma connector_run_ok:
  assumes "connector_run c0 r" "connector_ok c0"
  shows "\<exists>c. r = Inr c \<and> connector_ok c"
  using assms by (induction rule: connector_run.induct) (auto dest: connector_step_ok)

lemma connector_start_ok: "\<exists>c. Connector_start sockfd e Connector_ctor = Inr c \<and> connector_ok c"
  unfolding Connector_start_def
  by (rule startInLoop_ok) (simp_all add: Connector_ctor_def connector_ok_def channel_going_def delays_ok_def retry_delay_def kInitRetryDelayMs_def kMaxRetryDelayMs_def)

section \<open>Properties\<close>

text \<open>
  C40.  The parts of a \<^verbatim>\<open>Connector\<close> always fit together.  Started, and then used with care, it never fails an assertion or follows a null channel, whatever the system
  answers: the channel is watched exactly while a connection is being made and then holds the only socket the connector owns, otherwise no socket is left open; at most one timer waits,
  and only while disconnected; the \<open>k\<close>-th retry waits \<open>500 * 2 ^ k\<close> milliseconds, at most 30 seconds.  Careless use stops the process: a stop once the connection is
  made follows a null pointer, a second start while connecting, also by a timer that nobody cancelled, and a stop followed by a start before the channel is reset fail assertions.
\<close>

theorem connector_well_formed:
  assumes "Connector_start sockfd e Connector_ctor = Inr c0" "connector_run c0 r"
  shows "\<exists>c. r = Inr c \<and>
    (if cn_state c = Connecting then \<exists>ch. cn_channel c = Some ch \<and> conn_watched ch \<and> cn_open c = [conn_fd ch]
     else cn_open c = [] \<and> (\<forall>ch. cn_channel c = Some ch \<longrightarrow> \<not> conn_watched ch \<and> 0 < cn_functors c)) \<and>
    length (cn_timers c) \<le> (if cn_state c = Disconnected then 1 else 0) \<and>
    cn_delays c = map (\<lambda>k. min (500 * 2 ^ k) 30000) [0..<length (cn_delays c)] \<and> set (cn_timers c) \<subseteq> set (cn_delays c) \<and>
    (cn_state c = Connected \<and> cn_functors c = 0 \<longrightarrow> Connector_stop c = Inl (Undefined Connector_cc 154)) \<and>
    (cn_state c \<noteq> Disconnected \<longrightarrow> (\<forall>fd e'. startInLoop fd e' c = Inl (AssertFail Connector_cc 50))) \<and>
    (cn_state c = Connecting \<longrightarrow> (\<forall>fd. rbind (Connector_stop c) (Connector_start fd 0) = Inl (AssertFail Connector_cc 139)))"
proof -
  obtain c where c: "r = Inr c" "connector_ok c" using connector_run_ok [OF assms(2)] connector_start_ok [of sockfd e] assms(1) by auto
  have "cn_delays c = map (\<lambda>k. min (500 * 2 ^ k) 30000) [0..<length (cn_delays c)]" "set (cn_timers c) \<subseteq> set (cn_delays c)"
    using c(2) by (simp_all add: connector_ok_def delays_ok_def retry_delay_def [abs_def] kInitRetryDelayMs_def kMaxRetryDelayMs_def)
  moreover have "Connector_stop c = Inl (Undefined Connector_cc 154)" if "cn_state c = Connected" "cn_functors c = 0"
    using c(2) that by (simp add: connector_ok_def channel_going_def Connector_stop_def stopInLoop_def removeAndResetChannel_def)
  moreover have "rbind (Connector_stop c) (Connector_start fd 0) = Inl (AssertFail Connector_cc 139)" if "cn_state c = Connecting" for fd
    using c(2) that
    by (auto simp: connector_ok_def Connector_stop_def stopInLoop_def removeAndResetChannel_def Connector_retry_def close_socket_def Let_def Connector_start_def
        startInLoop_def Connector_connect_def connect_started_def connecting_def)
  moreover have "startInLoop fd e' c = Inl (AssertFail Connector_cc 50)" if "cn_state c \<noteq> Disconnected" for fd e'
    using that by (simp add: startInLoop_def)
  moreover have "if cn_state c = Connecting then \<exists>ch. cn_channel c = Some ch \<and> conn_watched ch \<and> cn_open c = [conn_fd ch]
     else cn_open c = [] \<and> (\<forall>ch. cn_channel c = Some ch \<longrightarrow> \<not> conn_watched ch \<and> 0 < cn_functors c)"
    "length (cn_timers c) \<le> (if cn_state c = Disconnected then 1 else 0)"
    using c(2) by (cases "cn_state c"; auto simp: connector_ok_def channel_going_def split: if_splits)+
  ultimately show ?thesis using c(1) by simp
qed

text \<open>Refused, tried again, connected: the socket 4 is handed on, and a stop then follows a null pointer.\<close>

lemma connector_well_formed_witness:
  "\<exists>c0 c. Connector_start 3 111 Connector_ctor = Inr c0 \<and> connector_run c0 (Inr c) \<and> cn_given c = [4] \<and> cn_delays c = [500] \<and> cn_open c = [] \<and>
     Connector_stop c = Inl (Undefined Connector_cc 154)"
proof -
  note defs = Connector_start_def startInLoop_def Connector_connect_def connect_started_def connect_again_def connecting_def Connector_ctor_def Let_def
    Connector_retry_def close_socket_def kInitRetryDelayMs_def kMaxRetryDelayMs_def removeAndResetChannel_def Connector_handleWrite_def resetChannel_def
  define C where "C st ch n ts op gv =
    \<lparr>cn_connect = True, cn_state = st, cn_channel = ch, cn_retryDelayMs = 1000, cn_functors = n, cn_timers = ts, cn_open = op, cn_given = gv, cn_delays = [500]\<rparr>"
    for st ch n ts op gv
  have s: "Connector_start 3 111 Connector_ctor = Inr (C Disconnected None 0 [500] [] [])" by (simp add: defs C_def)
  let ?ch = "\<lambda>w. Some \<lparr>conn_fd = 4, conn_watched = w\<rparr>"
  have "connector_step (C Disconnected None 0 [500] [] []) (Inr (C Connecting (?ch True) 0 [] [4] []))"
    using fires [of "C Disconnected None 0 [500] [] []" "[]" 500 "[]" 4 115] by (simp add: defs C_def)
  moreover have "connector_step (C Connecting (?ch True) 0 [] [4] []) (Inr (C Connected (?ch False) 1 [] [] [4]))"
    using writable [of "C Connecting (?ch True) 0 [] [4] []" _ False False] by (simp add: defs C_def)
  moreover have "connector_step (C Connected (?ch False) 1 [] [] [4]) (Inr (C Connected None 0 [] [] [4]))"
    using resets [of "C Connected (?ch False) 1 [] [] [4]"] by (simp add: defs C_def)
  ultimately have r: "connector_run (C Disconnected None 0 [500] [] []) (Inr (C Connected None 0 [] [] [4]))"
    using run_start run_step by metis
  show ?thesis
    using connector_well_formed [OF s r] s r by (intro exI conjI) (assumption | simp add: C_def)+
qed

end
