(* ===== verification/WS_EventLoop.thy ===== *)
theory WS_EventLoop
  imports WS_Prelude
begin

text \<open>
  \<^verbatim>\<open>EventLoop\<close> (\<^verbatim>\<open>net/EventLoop.h\<close>, \<^verbatim>\<open>net/EventLoop.cc\<close>) between threads: functors queued in the loop and the descriptor that wakes it.
  The steps of the loop and of other threads interleave: a thread that queues a functor leaves the lock before it writes to the
  descriptor.  Channels and timers are in their own theories; here a ready channel is something that queues functors from the loop's thread.
\<close>

section \<open>State\<close>

text \<open>Where the loop is: in the poller, calling active channels, in \<^verbatim>\<open>doPendingFunctors\<close> with the functors still to call, or out of \<^verbatim>\<open>loop()\<close>.\<close>

datatype 'f phase = Polling | Handling | Calling "'f list" | Returned

text \<open>\<open>owed\<close>: threads between queueing and waking.  \<open>queued\<close> and \<open>called\<close> are the history.\<close>

record 'f EventLoop =
  pendingFunctors :: "'f list"
  callingPendingFunctors :: bool
  quit_flag :: bool
  iteration :: nat
  wakeupFd :: nat
  phase :: "'f phase"
  owed :: nat
  queued :: "'f list"
  called :: "'f list"

definition EventLoop_start :: "'f EventLoop" where
  "EventLoop_start = \<lparr>pendingFunctors = [], callingPendingFunctors = False, quit_flag = False, iteration = 0, wakeupFd = 0,
     phase = Polling, owed = 0, queued = [], called = []\<rparr>"

section \<open>Operations\<close>

text \<open>An eventfd counts up to \<open>2 ^ 64 - 2\<close>; a write beyond that fails and is logged.\<close>

definition wakeup :: "'f EventLoop \<Rightarrow> 'f EventLoop" where
  "wakeup l = (if wakeupFd l < 2 ^ 64 - 2 then l\<lparr>wakeupFd := Suc (wakeupFd l)\<rparr> else l)"

text \<open>Reading an eventfd takes the whole count.\<close>

definition EventLoop_handleRead :: "'f EventLoop \<Rightarrow> 'f EventLoop" where
  "EventLoop_handleRead l = l\<lparr>wakeupFd := 0\<rparr>"

definition push_functor :: "'f \<Rightarrow> 'f EventLoop \<Rightarrow> 'f EventLoop" where
  "push_functor f l = l\<lparr>pendingFunctors := pendingFunctors l @ [f], queued := queued l @ [f]\<rparr>"

text \<open>On the thread of the loop.\<close>

definition queueInLoop :: "'f \<Rightarrow> 'f EventLoop \<Rightarrow> 'f EventLoop" where
  "queueInLoop f l = (let l1 = push_functor f l in if callingPendingFunctors l1 then wakeup l1 else l1)"

definition quit :: "'f EventLoop \<Rightarrow> 'f EventLoop" where
  "quit l = l\<lparr>quit_flag := True\<rparr>"

text \<open>\<^verbatim>\<open>doPendingFunctors\<close> takes all functors at once, calls them one by one, and ends.  \<open>act f\<close> are the functors that \<open>f\<close> queues.\<close>

definition begin_functors :: "'f EventLoop \<Rightarrow> 'f EventLoop" where
  "begin_functors l = l\<lparr>callingPendingFunctors := True, phase := Calling (pendingFunctors l), pendingFunctors := []\<rparr>"

definition call_functor :: "('f \<Rightarrow> 'f list) \<Rightarrow> 'f \<Rightarrow> 'f list \<Rightarrow> 'f EventLoop \<Rightarrow> 'f EventLoop" where
  "call_functor act f fs l = fold queueInLoop (act f) (l\<lparr>phase := Calling fs, called := called l @ [f]\<rparr>)"

definition end_functors :: "'f EventLoop \<Rightarrow> 'f EventLoop" where
  "end_functors l = l\<lparr>callingPendingFunctors := False, phase := (if quit_flag l then Returned else Polling)\<rparr>"

fun call_functors :: "('f \<Rightarrow> 'f list) \<Rightarrow> 'f list \<Rightarrow> 'f EventLoop \<Rightarrow> 'f EventLoop" where
  "call_functors act [] l = l"
| "call_functors act (f # fs) l = call_functors act fs (call_functor act f fs l)"

definition doPendingFunctors :: "('f \<Rightarrow> 'f list) \<Rightarrow> 'f EventLoop \<Rightarrow> 'f EventLoop" where
  "doPendingFunctors act l = end_functors (call_functors act (pendingFunctors l) (begin_functors l))"

text \<open>One round of \<^verbatim>\<open>loop()\<close> in which nothing but the wakeup descriptor is ready.\<close>

definition loop_round :: "('f \<Rightarrow> 'f list) \<Rightarrow> 'f EventLoop \<Rightarrow> 'f EventLoop" where
  "loop_round act l = doPendingFunctors act (EventLoop_handleRead (l\<lparr>iteration := Suc (iteration l), phase := Handling\<rparr>))"

section \<open>Interleavings\<close>

inductive loop_step :: "('f \<Rightarrow> 'f list) \<Rightarrow> 'f EventLoop \<Rightarrow> 'f EventLoop \<Rightarrow> bool" for act where
  poll_returns: "phase l = Polling \<Longrightarrow> loop_step act l (l\<lparr>iteration := Suc (iteration l), phase := Handling\<rparr>)"
| woken: "phase l = Handling \<Longrightarrow> 0 < wakeupFd l \<Longrightarrow> loop_step act l (EventLoop_handleRead l)"
| channel_queues: "phase l = Handling \<Longrightarrow> loop_step act l (queueInLoop f l)"
| channel_quits: "phase l = Handling \<Longrightarrow> loop_step act l (quit l)"
| begins: "phase l = Handling \<Longrightarrow> loop_step act l (begin_functors l)"
| calls: "phase l = Calling (f # fs) \<Longrightarrow> loop_step act l (call_functor act f fs l)"
| ends: "phase l = Calling [] \<Longrightarrow> loop_step act l (end_functors l)"
| other_queues: "loop_step act l ((push_functor f l)\<lparr>owed := Suc (owed l)\<rparr>)"
| other_quits: "loop_step act l ((quit l)\<lparr>owed := Suc (owed l)\<rparr>)"
| other_wakes: "owed l = Suc n \<Longrightarrow> loop_step act l (wakeup (l\<lparr>owed := n\<rparr>))"

abbreviation loop_steps :: "('f \<Rightarrow> 'f list) \<Rightarrow> 'f EventLoop \<Rightarrow> 'f EventLoop \<Rightarrow> bool" where
  "loop_steps act \<equiv> (loop_step act)\<^sup>*\<^sup>*"

inductive_cases loop_stepE: "loop_step act l l'"

section \<open>The invariant\<close>

definition to_call :: "'f EventLoop \<Rightarrow> 'f list" where
  "to_call l = (case phase l of Calling fs \<Rightarrow> fs | _ \<Rightarrow> [])"

text \<open>
  Every functor queued has been called, is about to be, or waits, in this order.  Outside the handling of events, a functor waits
  only if the descriptor is readable or somebody is about to write to it.
\<close>

definition loop_ok :: "'f EventLoop \<Rightarrow> bool" where
  "loop_ok l \<longleftrightarrow> queued l = called l @ to_call l @ pendingFunctors l \<and>
     (callingPendingFunctors l \<longleftrightarrow> (\<exists>fs. phase l = Calling fs)) \<and>
     (phase l \<noteq> Handling \<and> pendingFunctors l \<noteq> [] \<longrightarrow> 0 < wakeupFd l \<or> 0 < owed l)"

lemma wakeup_simps [simp]:
  "pendingFunctors (wakeup l) = pendingFunctors l" "callingPendingFunctors (wakeup l) = callingPendingFunctors l" "phase (wakeup l) = phase l"
  "owed (wakeup l) = owed l" "queued (wakeup l) = queued l" "called (wakeup l) = called l" "0 < wakeupFd (wakeup l)" "quit_flag (wakeup l) = quit_flag l"
  by (auto simp: wakeup_def)

lemma queueInLoop_simps [simp]:
  "pendingFunctors (queueInLoop f l) = pendingFunctors l @ [f]" "callingPendingFunctors (queueInLoop f l) = callingPendingFunctors l"
  "phase (queueInLoop f l) = phase l" "owed (queueInLoop f l) = owed l" "queued (queueInLoop f l) = queued l @ [f]" "called (queueInLoop f l) = called l"
  "quit_flag (queueInLoop f l) = quit_flag l" "callingPendingFunctors l \<Longrightarrow> 0 < wakeupFd (queueInLoop f l)"
  by (simp_all add: queueInLoop_def push_functor_def Let_def)

lemma fold_queue:
  "pendingFunctors (fold queueInLoop fs l) = pendingFunctors l @ fs" "callingPendingFunctors (fold queueInLoop fs l) = callingPendingFunctors l"
  "phase (fold queueInLoop fs l) = phase l" "owed (fold queueInLoop fs l) = owed l" "queued (fold queueInLoop fs l) = queued l @ fs"
  "called (fold queueInLoop fs l) = called l" "quit_flag (fold queueInLoop fs l) = quit_flag l"
  "callingPendingFunctors l \<Longrightarrow> fs \<noteq> [] \<or> 0 < wakeupFd l \<Longrightarrow> 0 < wakeupFd (fold queueInLoop fs l)"
  by (induction fs arbitrary: l) auto

lemma call_functor_ok:
  assumes "loop_ok l" "phase l = Calling (f # fs)"
  shows "loop_ok (call_functor act f fs l)"
proof -
  have "0 < wakeupFd (call_functor act f fs l) \<or> 0 < owed l" if "pendingFunctors l @ act f \<noteq> []"
    using that assms fold_queue(8) [of "l\<lparr>phase := Calling fs, called := called l @ [f]\<rparr>" "act f"]
    by (cases "act f") (auto simp: call_functor_def loop_ok_def)
  then show ?thesis using assms by (auto simp: loop_ok_def to_call_def call_functor_def fold_queue)
qed

lemma loop_step_ok: "loop_step act l l' \<Longrightarrow> loop_ok l \<Longrightarrow> loop_ok l'"
proof (induction rule: loop_step.induct)
  case (calls l f fs)
  then show ?case by (intro call_functor_ok)
next
  case (channel_queues l f)
  then show ?case by (simp add: loop_ok_def to_call_def)
qed (auto simp: loop_ok_def to_call_def EventLoop_handleRead_def begin_functors_def end_functors_def push_functor_def quit_def split: phase.splits)

lemma loop_steps_ok: "loop_steps act l l' \<Longrightarrow> loop_ok l \<Longrightarrow> loop_ok l'"
  by (induction rule: rtranclp_induct) (auto intro: loop_step_ok)

lemma start_ok: "loop_ok EventLoop_start"
  by (simp add: loop_ok_def EventLoop_start_def to_call_def)

section \<open>A round\<close>

lemma call_functors_run:
  "phase l = Calling fs \<Longrightarrow> loop_steps act l (call_functors act fs l) \<and> phase (call_functors act fs l) = Calling [] \<and>
    called (call_functors act fs l) = called l @ fs \<and> quit_flag (call_functors act fs l) = quit_flag l"
proof (induction fs arbitrary: l)
  case (Cons f fs)
  let ?l = "call_functor act f fs l"
  have l: "phase ?l = Calling fs" "called ?l = called l @ [f]" "quit_flag ?l = quit_flag l" by (simp_all add: call_functor_def fold_queue)
  have "loop_step act l ?l" by (rule calls [OF Cons.prems])
  then show ?case using Cons.IH [OF l(1)] l(2,3) by (auto intro: converse_rtranclp_into_rtranclp)
qed simp

lemma loop_round_runs:
  assumes "phase l = Polling" "0 < wakeupFd l"
  shows "loop_steps act l (loop_round act l) \<and> called (loop_round act l) = called l @ pendingFunctors l \<and>
    phase (loop_round act l) = (if quit_flag l then Returned else Polling)"
proof -
  define l1 where "l1 = l\<lparr>iteration := Suc (iteration l), phase := Handling\<rparr>"
  define l2 where "l2 = begin_functors (EventLoop_handleRead l1)"
  define l3 where "l3 = call_functors act (pendingFunctors l) l2"
  have "loop_step act l l1" unfolding l1_def by (rule poll_returns [OF assms(1)])
  moreover have "loop_step act l1 (EventLoop_handleRead l1)" using assms(2) by (intro woken) (simp_all add: l1_def)
  moreover have "loop_step act (EventLoop_handleRead l1) l2"
    unfolding l2_def by (rule begins) (simp add: EventLoop_handleRead_def l1_def)
  ultimately have "loop_steps act l l2" by auto
  moreover have l2: "phase l2 = Calling (pendingFunctors l)" "called l2 = called l" "quit_flag l2 = quit_flag l"
    by (simp_all add: l2_def begin_functors_def EventLoop_handleRead_def l1_def)
  note l3 = call_functors_run [OF l2(1), of act, folded l3_def]
  moreover have "loop_step act l3 (end_functors l3)" using l3 by (intro ends) simp
  ultimately have "loop_steps act l (end_functors l3)" by auto
  moreover have "loop_round act l = end_functors l3"
    by (simp add: loop_round_def doPendingFunctors_def l3_def l2_def l1_def EventLoop_handleRead_def)
  ultimately show ?thesis using l3 l2 by (simp add: end_functors_def)
qed


section \<open>Properties\<close>

text \<open>
  C35.  No functor is lost or overtaken.  Whatever other threads and the channels queue, and however their steps interleave with
  the loop's, the functors are called in the order in which they were queued.  The loop never goes to sleep over a waiting functor: the wakeup descriptor is
  readable, or the thread that queued it is about to write to it.  A round on a readable descriptor calls every functor that waits.  Only a functor
  queued by the loop's own thread before \<^verbatim>\<open>loop()\<close> has nobody to wake the poller.
\<close>

theorem functors_run_in_order:
  assumes "loop_steps act EventLoop_start l"
  shows "queued l = called l @ to_call l @ pendingFunctors l \<and>
    (phase l = Polling \<and> pendingFunctors l \<noteq> [] \<longrightarrow> 0 < wakeupFd l \<or> 0 < owed l) \<and>
    (phase l = Polling \<and> 0 < wakeupFd l \<longrightarrow> loop_steps act l (loop_round act l) \<and>
      called (loop_round act l) = called l @ pendingFunctors l \<and> phase (loop_round act l) = (if quit_flag l then Returned else Polling)) \<and>
    pendingFunctors (queueInLoop f EventLoop_start) = [f] \<and> wakeupFd (queueInLoop f EventLoop_start) = 0 \<and> owed (queueInLoop f EventLoop_start) = 0"
  using loop_steps_ok [OF assms start_ok] loop_round_runs [of l act]
  by (auto simp: loop_ok_def queueInLoop_def push_functor_def EventLoop_start_def Let_def)

definition demo_functor :: "nat \<Rightarrow> nat list" where
  "demo_functor n = (if n = 0 then [7] else [])"

lemma functors_run_in_order_witness:
  "\<exists>l. loop_steps demo_functor EventLoop_start l \<and> pendingFunctors l = [0] \<and> called (loop_round demo_functor l) = [0]"
proof -
  define l1 :: "nat EventLoop" where "l1 = (push_functor 0 EventLoop_start)\<lparr>owed := Suc (owed (EventLoop_start :: nat EventLoop))\<rparr>"
  define l2 where "l2 = wakeup (l1\<lparr>owed := 0\<rparr>)"
  have "loop_step demo_functor EventLoop_start l1" unfolding l1_def by (rule other_queues)
  moreover have "loop_step demo_functor l1 l2" unfolding l2_def by (rule other_wakes) (simp add: l1_def EventLoop_start_def)
  ultimately have steps: "loop_steps demo_functor EventLoop_start l2" by auto
  have l2: "phase l2 = Polling" "pendingFunctors l2 = [0]" "called l2 = []" "0 < wakeupFd l2"
    by (simp_all add: l2_def) (simp_all add: l1_def push_functor_def EventLoop_start_def)
  have "called (loop_round demo_functor l2) = called l2 @ pendingFunctors l2"
    using functors_run_in_order [OF steps, where f = "0 :: nat"] l2(1,4) by blast
  then show ?thesis using l2 steps by auto
qed

end
