(* ===== verification/WS_Endian.thy ===== *)
theory WS_Endian
  imports WS_Prelude
begin

text \<open>
  Byte order: \<^verbatim>\<open>libwebsocket/private/Endian.h\<close> and the object representation of
  integers that \<^verbatim>\<open>memcpy\<close> and \<^verbatim>\<open>append(&x, sizeof x)\<close> expose.  The host is
  little endian (\<^verbatim>\<open>websocket.cc\<close> is compiled as it is when
  \<^verbatim>\<open>_NETTOHOST_BIGENDIAN_\<close> is not defined), so \<^verbatim>\<open>htobe16\<close> and its
  companions reverse the bytes of their argument.
\<close>

section \<open>Object representation on a little endian host\<close>

fun le_nat :: "bytes \<Rightarrow> nat" where
  "le_nat [] = 0"
| "le_nat (b # bs) = unat b + 256 * le_nat bs"

fun nat_le :: "nat \<Rightarrow> nat \<Rightarrow> bytes" where
  "nat_le 0 k = []"
| "nat_le (Suc n) k = of_nat k # nat_le n (k div 256)"

definition be_nat :: "bytes \<Rightarrow> nat" where
  "be_nat bs = le_nat (rev bs)"

definition nat_be :: "nat \<Rightarrow> nat \<Rightarrow> bytes" where
  "nat_be n k = rev (nat_le n k)"

text \<open>\<open>mem16\<close> and \<open>mem64\<close>: the bytes of an integer in memory; \<open>load16\<close> and
  \<open>load64\<close>: the integer that those bytes are.\<close>

definition mem16 :: "16 word \<Rightarrow> bytes" where
  "mem16 x = nat_le 2 (unat x)"

definition mem32 :: "32 word \<Rightarrow> bytes" where
  "mem32 x = nat_le 4 (unat x)"

definition mem64 :: "64 word \<Rightarrow> bytes" where
  "mem64 x = nat_le 8 (unat x)"

definition load16 :: "bytes \<Rightarrow> 16 word" where
  "load16 bs = of_nat (le_nat bs)"

definition load32 :: "bytes \<Rightarrow> 32 word" where
  "load32 bs = of_nat (le_nat bs)"

definition load64 :: "bytes \<Rightarrow> 64 word" where
  "load64 bs = of_nat (le_nat bs)"

section \<open>The conversions of Endian.h\<close>

definition hostToNetwork64 :: "64 word \<Rightarrow> 64 word" where
  "hostToNetwork64 host64 = load64 (rev (mem64 host64))"

definition hostToNetwork32 :: "32 word \<Rightarrow> 32 word" where
  "hostToNetwork32 host32 = load32 (rev (mem32 host32))"

definition hostToNetwork16 :: "16 word \<Rightarrow> 16 word" where
  "hostToNetwork16 host16 = load16 (rev (mem16 host16))"

definition networkToHost64 :: "64 word \<Rightarrow> 64 word" where
  "networkToHost64 net64 = load64 (rev (mem64 net64))"

definition networkToHost32 :: "32 word \<Rightarrow> 32 word" where
  "networkToHost32 net32 = load32 (rev (mem32 net32))"

definition networkToHost16 :: "16 word \<Rightarrow> 16 word" where
  "networkToHost16 net16 = load16 (rev (mem16 net16))"

text \<open>The accessors on raw bytes; the results of the shifts are truncated to
  the return type.  \<open>be16BigEndian\<close> is declared for two bytes but reads four.\<close>

definition be16BigEndian :: "bytes \<Rightarrow> 16 word res" where
  "be16BigEndian ch =
     (if length ch < 3 then Inl (Undefined Endian_h 54)
      else if length ch < 4 then Inl (Undefined Endian_h 55)
      else Inr (push_bit 8 (ucast (ch ! 0)) OR ucast (ch ! 1)))"

definition be16LittleEndian :: "bytes \<Rightarrow> 16 word" where
  "be16LittleEndian ch = push_bit 8 (ucast (ch ! 1)) OR ucast (ch ! 0)"

definition be32BigEndian :: "bytes \<Rightarrow> 32 word" where
  "be32BigEndian ch =
     push_bit 24 (ucast (ch ! 0)) OR push_bit 16 (ucast (ch ! 1)) OR
     push_bit 8 (ucast (ch ! 2)) OR ucast (ch ! 3)"

definition be32LittleEndian :: "bytes \<Rightarrow> 32 word" where
  "be32LittleEndian ch =
     push_bit 24 (ucast (ch ! 3)) OR push_bit 16 (ucast (ch ! 2)) OR
     push_bit 8 (ucast (ch ! 1)) OR ucast (ch ! 0)"

section \<open>Lemmas\<close>

lemma length_nat_le [simp]: "length (nat_le n k) = n"
  by (induction n arbitrary: k) simp_all

lemma length_nat_be [simp]: "length (nat_be n k) = n"
  by (simp add: nat_be_def)

lemma le_nat_bound: "le_nat bs < 256 ^ length bs"
proof (induction bs)
  case (Cons b bs)
  have "unat b < 256" by (rule byte_cases_256)
  with Cons show ?case by simp
qed simp

lemma be_nat_bound: "be_nat bs < 256 ^ length bs"
  using le_nat_bound [of "rev bs"] by (simp add: be_nat_def)

lemma unat_of_nat_byte: "unat (of_nat k :: byte) = k mod 256"
  by (simp add: unat_of_nat)

lemma le_nat_nat_le: "le_nat (nat_le n k) = k mod 256 ^ n"
proof (induction n arbitrary: k)
  case (Suc n)
  have "k mod 256 ^ Suc n = k mod 256 + 256 * (k div 256 mod 256 ^ n)"
    by (simp add: mod_mult2_eq)
  with Suc show ?case by (simp add: unat_of_nat_byte)
qed simp

lemma nat_le_le_nat: "nat_le (length bs) (le_nat bs) = bs"
proof (induction bs)
  case (Cons b bs)
  have "(unat b + 256 * le_nat bs) div 256 = le_nat bs"
    using byte_cases_256 [of b] by simp
  moreover have "of_nat (unat b + 256 * le_nat bs) = b"
    by (simp add: unat_of_nat_byte unat_eq_nat_uint [symmetric] word_unat_eq_iff
        byte_cases_256 del: of_nat_add)
  ultimately show ?case using Cons by (simp del: of_nat_add)
qed simp

lemma be_nat_nat_be: "be_nat (nat_be n k) = k mod 256 ^ n"
  by (simp add: be_nat_def nat_be_def le_nat_nat_le)

lemma nat_be_be_nat: "nat_be (length bs) (be_nat bs) = bs"
  using nat_le_le_nat [of "rev bs"] by (simp add: be_nat_def nat_be_def)

lemma mem_lengths [simp]:
  "length (mem16 x) = 2" "length (mem32 y) = 4" "length (mem64 z) = 8"
  by (simp_all add: mem16_def mem32_def mem64_def)

lemma mem16_load16: "length bs = 2 \<Longrightarrow> mem16 (load16 bs) = bs"
  using le_nat_bound [of bs] nat_le_le_nat [of bs]
  by (simp add: mem16_def load16_def unat_of_nat)

lemma mem32_load32: "length bs = 4 \<Longrightarrow> mem32 (load32 bs) = bs"
  using le_nat_bound [of bs] nat_le_le_nat [of bs]
  by (simp add: mem32_def load32_def unat_of_nat)

lemma mem64_load64: "length bs = 8 \<Longrightarrow> mem64 (load64 bs) = bs"
  using le_nat_bound [of bs] nat_le_le_nat [of bs]
  by (simp add: mem64_def load64_def unat_of_nat)

lemma load16_mem16: "load16 (mem16 x) = x"
  using unat_bound [of x] by (simp add: mem16_def load16_def le_nat_nat_le)

lemma load32_mem32: "load32 (mem32 x) = x"
  using unat_bound [of x] by (simp add: mem32_def load32_def le_nat_nat_le)

lemma load64_mem64: "load64 (mem64 x) = x"
  using unat_bound [of x] by (simp add: mem64_def load64_def le_nat_nat_le)

lemma unat_load16: "length bs = 2 \<Longrightarrow> unat (load16 bs) = le_nat bs"
  using le_nat_bound [of bs] by (simp add: load16_def unat_of_nat)

lemma unat_load64: "length bs = 8 \<Longrightarrow> unat (load64 bs) = le_nat bs"
  using le_nat_bound [of bs] by (simp add: load64_def unat_of_nat)

lemma mem16_hostToNetwork16: "mem16 (hostToNetwork16 x) = nat_be 2 (unat x)"
  by (simp add: hostToNetwork16_def mem16_load16 nat_be_def mem16_def [symmetric])

lemma mem64_hostToNetwork64: "mem64 (hostToNetwork64 x) = nat_be 8 (unat x)"
  by (simp add: hostToNetwork64_def mem64_load64 nat_be_def mem64_def [symmetric])

lemma unat_networkToHost16:
  "length bs = 2 \<Longrightarrow> unat (networkToHost16 (load16 bs)) = be_nat bs"
  by (simp add: networkToHost16_def mem16_load16 unat_load16 be_nat_def)

lemma unat_networkToHost64:
  "length bs = 8 \<Longrightarrow> unat (networkToHost64 (load64 bs)) = be_nat bs"
  by (simp add: networkToHost64_def mem64_load64 unat_load64 be_nat_def)

lemma networkToHost16_hostToNetwork16 [simp]: "networkToHost16 (hostToNetwork16 x) = x"
  by (simp add: networkToHost16_def hostToNetwork16_def mem16_load16 load16_mem16)

lemma networkToHost32_hostToNetwork32 [simp]: "networkToHost32 (hostToNetwork32 x) = x"
  by (simp add: networkToHost32_def hostToNetwork32_def mem32_load32 load32_mem32)

lemma networkToHost64_hostToNetwork64 [simp]: "networkToHost64 (hostToNetwork64 x) = x"
  by (simp add: networkToHost64_def hostToNetwork64_def mem64_load64 load64_mem64)

end
