(* ===== verification/WS_IBytesBuffer.thy ===== *)
theory WS_IBytesBuffer
  imports WS_Endian
begin

text \<open>
  The interface \<^verbatim>\<open>muduo::net::IBytesBuffer\<close>
  (\<^verbatim>\<open>libwebsocket/IBytesBuffer.h\<close>) through which the protocol library sees every
  buffer.  The abstract class is the record of its virtual functions: an object
  is a value of type \<open>'b\<close>, a method that changes it returns the changed object.
  Only the virtual functions that the protocol library calls are fields.  A
  \<^verbatim>\<open>char*\<close> into the readable bytes is an offset from \<^verbatim>\<open>peek()\<close>: \<open>vpeek V b n\<close>
  are the first \<open>n\<close> bytes at \<^verbatim>\<open>peek()\<close>, \<open>vpoke V b i x\<close> is the store
  \<^verbatim>\<open>*(peek() + i) = x\<close>.

  The locale \<open>bytes_buffer\<close> is the contract of the interface: a buffer is a
  queue of bytes.  The protocol library is verified against it.
\<close>

section \<open>Searching\<close>

text \<open>\<^verbatim>\<open>std::search\<close> over a range, as the offset of the first match.\<close>

fun find_sub :: "bytes \<Rightarrow> bytes \<Rightarrow> nat option" where
  "find_sub pat [] = (if pat = [] then Some 0 else None)"
| "find_sub pat (x # xs) =
     (if take (length pat) (x # xs) = pat then Some 0
      else map_option Suc (find_sub pat xs))"

definition kCRLF :: bytes where
  "kCRLF = [13, 10]"

definition kCRLFCRLF :: bytes where
  "kCRLFCRLF = [13, 10, 13, 10]"

section \<open>The virtual functions\<close>

record 'b IBytesBuffer =
  vreadableBytes :: "'b \<Rightarrow> nat"
  vpeek :: "'b \<Rightarrow> nat \<Rightarrow> bytes"
  vpoke :: "'b \<Rightarrow> nat \<Rightarrow> byte \<Rightarrow> 'b"
  vfindCRLFCRLF :: "'b \<Rightarrow> nat option"
  vretrieve :: "'b \<Rightarrow> nat \<Rightarrow> 'b res"
  vretrieveAll :: "'b \<Rightarrow> 'b"
  vappend :: "'b \<Rightarrow> bytes \<Rightarrow> 'b res"
  vreadInt16 :: "'b \<Rightarrow> (16 word \<times> 'b) res"
  vreadInt64 :: "'b \<Rightarrow> (64 word \<times> 'b) res"

section \<open>Facts about searching\<close>

lemma find_sub_Some:
  "find_sub pat xs = Some i \<Longrightarrow>
     i + length pat \<le> length xs \<and> take (length pat) (drop i xs) = pat \<and>
     (\<forall>j < i. take (length pat) (drop j xs) \<noteq> pat)"
proof (induction xs arbitrary: i)
  case Nil
  then show ?case by (simp split: if_splits)
next
  case (Cons x xs)
  show ?case
  proof (cases "take (length pat) (x # xs) = pat")
    case True
    then have "length pat \<le> length (x # xs)"
      by (metis length_take min.cobounded1)
    with True Cons.prems show ?thesis by simp
  next
    case False
    with Cons.prems obtain k where k: "find_sub pat xs = Some k" and i: "i = Suc k"
      by auto
    note * = Cons.IH [OF k]
    have "take (length pat) (drop j (x # xs)) \<noteq> pat" if "j < i" for j
      using that False * i by (cases j) auto
    with * i show ?thesis by simp
  qed
qed

lemma find_sub_None:
  "find_sub pat xs = None \<Longrightarrow> j + length pat \<le> length xs \<Longrightarrow>
     take (length pat) (drop j xs) \<noteq> pat"
proof (induction xs arbitrary: j)
  case Nil
  then show ?case by (auto split: if_splits)
next
  case (Cons x xs)
  then show ?case by (cases j) (auto split: if_splits)
qed

section \<open>The contract\<close>

locale bytes_buffer =
  fixes V :: "'b IBytesBuffer"
    and content :: "'b \<Rightarrow> bytes"
    and invar :: "'b \<Rightarrow> bool"
  assumes readable: "invar b \<Longrightarrow> vreadableBytes V b = length (content b)"
    and peek: "invar b \<Longrightarrow> n \<le> length (content b) \<Longrightarrow> vpeek V b n = take n (content b)"
    and poke: "invar b \<Longrightarrow> i < length (content b) \<Longrightarrow>
        invar (vpoke V b i x) \<and> content (vpoke V b i x) = (content b)[i := x]"
    and find4: "invar b \<Longrightarrow> vfindCRLFCRLF V b = find_sub kCRLFCRLF (content b)"
    and retrieve: "invar b \<Longrightarrow> n \<le> length (content b) \<Longrightarrow>
        \<exists>b'. vretrieve V b n = Inr b' \<and> invar b' \<and> content b' = drop n (content b)"
    and retrieveAll: "invar b \<Longrightarrow>
        invar (vretrieveAll V b) \<and> content (vretrieveAll V b) = []"
    and append: "invar b \<Longrightarrow>
        \<exists>b'. vappend V b xs = Inr b' \<and> invar b' \<and> content b' = content b @ xs"
    and readInt16: "invar b \<Longrightarrow> 2 \<le> length (content b) \<Longrightarrow>
        \<exists>b'. vreadInt16 V b = Inr (load16 (take 2 (content b)), b') \<and>
             invar b' \<and> content b' = drop 2 (content b)"
    and readInt64: "invar b \<Longrightarrow> 8 \<le> length (content b) \<Longrightarrow>
        \<exists>b'. vreadInt64 V b = Inr (load64 (take 8 (content b)), b') \<and>
             invar b' \<and> content b' = drop 8 (content b)"

end
