(* ===== verification/WS_Frame.thy ===== *)
theory WS_Frame
  imports WS_IBytesBuffer
begin

text \<open>
  The frame headers of \<^verbatim>\<open>libwebsocket/private/websocket.cc\<close>: the enumerations, the
  16-bit \<^verbatim>\<open>header_t\<close> and its place in memory, \<^verbatim>\<open>extended_header_t\<close> with its union of
  extended lengths, \<^verbatim>\<open>frame_header_t\<close> and \<^verbatim>\<open>message_header_t\<close>, the validation
  of a header and \<^verbatim>\<open>get_frame_control_message_type\<close>.

  The bit fields \<^verbatim>\<open>opcode:4\<close>, \<^verbatim>\<open>FIN:1\<close>, \<^verbatim>\<open>MASK:1\<close> and \<^verbatim>\<open>RSV1..3:1\<close> take exactly
  the values of \<open>OpcodeE\<close>, \<open>FinE\<close> and \<open>bool\<close>; \<^verbatim>\<open>Payloadlen:7\<close> is a
  \<open>7 word\<close>.
\<close>

section \<open>Enumerations\<close>

datatype HandShakeE =
    WS_ERROR_WANT_MORE | WS_ERROR_PARSE | WS_ERROR_PACKSZ | WS_ERROR_CRLFCRLF | WS_ERROR_CONTEXT

fun HandShakeE_value :: "HandShakeE \<Rightarrow> int" where
  "HandShakeE_value WS_ERROR_WANT_MORE = 0x66"
| "HandShakeE_value WS_ERROR_PARSE = 0x77"
| "HandShakeE_value WS_ERROR_PACKSZ = 0x88"
| "HandShakeE_value WS_ERROR_CRLFCRLF = 0x99"
| "HandShakeE_value WS_ERROR_CONTEXT = 0x55"

datatype StateE = kConnected | kClosed

datatype EndianModeE = LittleEndian | BigEndian

datatype StepE =
    ReadFrameHeader | ReadExtendedPayloadlenU16 | ReadExtendedPayloadlenI64 | ReadMaskingkey
  | ReadPayloadData | ReadExtendedPayloadDataU16 | ReadExtendedPayloadDataI64

datatype FinE = FrameContinue | FrameFinished

datatype OpcodeE =
    SegmentMessage | TextMessage | BinaryMessage
  | Reserved1 | Reserved2 | Reserved3 | Reserved4 | Reserved5
  | CloseMessage | PingMessage | PongMessage
  | Reserved6 | Reserved7 | Reserved8 | Reserved9 | Reserved10

type_synonym MessageE = OpcodeE

fun OpcodeE_value :: "OpcodeE \<Rightarrow> nat" where
  "OpcodeE_value SegmentMessage = 0"
| "OpcodeE_value TextMessage = 1"
| "OpcodeE_value BinaryMessage = 2"
| "OpcodeE_value Reserved1 = 3"
| "OpcodeE_value Reserved2 = 4"
| "OpcodeE_value Reserved3 = 5"
| "OpcodeE_value Reserved4 = 6"
| "OpcodeE_value Reserved5 = 7"
| "OpcodeE_value CloseMessage = 8"
| "OpcodeE_value PingMessage = 9"
| "OpcodeE_value PongMessage = 10"
| "OpcodeE_value Reserved6 = 11"
| "OpcodeE_value Reserved7 = 12"
| "OpcodeE_value Reserved8 = 13"
| "OpcodeE_value Reserved9 = 14"
| "OpcodeE_value Reserved10 = 15"

definition OpcodeE_of :: "nat \<Rightarrow> OpcodeE" where
  "OpcodeE_of n =
     [SegmentMessage, TextMessage, BinaryMessage, Reserved1, Reserved2, Reserved3, Reserved4,
      Reserved5, CloseMessage, PingMessage, PongMessage, Reserved6, Reserved7, Reserved8,
      Reserved9, Reserved10] ! (n mod 16)"

datatype FrameControlE = FrameInvalid | ControlFrame | UnControlFrame

datatype MessageFrameE = UnknownFrame | HeadFrame | MiddleFrame | TailFrame | HeadTailFrame

section \<open>header\_t\<close>

record header_t =
  opcode :: OpcodeE
  RSV3 :: bool
  RSV2 :: bool
  RSV1 :: bool
  FIN :: FinE
  Payloadlen :: "7 word"
  MASK :: bool

definition header_zero :: header_t where
  "header_zero = \<lparr>opcode = SegmentMessage, RSV3 = False, RSV2 = False, RSV1 = False,
     FIN = FrameContinue, Payloadlen = 0, MASK = False\<rparr>"

definition kHeaderLen :: nat where "kHeaderLen = 2"
definition kMaskingkeyLen :: nat where "kMaskingkeyLen = 4"
definition kExtendedPayloadlenU16 :: nat where "kExtendedPayloadlenU16 = 2"
definition kExtendedPayloadlenI64 :: nat where "kExtendedPayloadlenI64 = 8"

text \<open>The two bytes of a \<^verbatim>\<open>header_t\<close> in memory, lowest bit field first.\<close>

definition header_bytes :: "header_t \<Rightarrow> bytes" where
  "header_bytes h =
     [of_nat (OpcodeE_value (opcode h) + 16 * of_bool (RSV3 h) + 32 * of_bool (RSV2 h) +
              64 * of_bool (RSV1 h) + 128 * of_bool (FIN h = FrameFinished)),
      of_nat (unat (Payloadlen h) + 128 * of_bool (MASK h))]"

definition header_of_bytes :: "byte \<Rightarrow> byte \<Rightarrow> header_t" where
  "header_of_bytes b0 b1 =
     \<lparr>opcode = OpcodeE_of (unat b0),
      RSV3 = odd (unat b0 div 16), RSV2 = odd (unat b0 div 32), RSV1 = odd (unat b0 div 64),
      FIN = (if odd (unat b0 div 128) then FrameFinished else FrameContinue),
      Payloadlen = of_nat (unat b1),
      MASK = odd (unat b1 div 128)\<rparr>"

definition get_frame_FIN :: "header_t \<Rightarrow> FinE" where
  "get_frame_FIN h = FIN h"

definition get_frame_RSV123 :: "header_t \<Rightarrow> byte" where
  "get_frame_RSV123 h = push_bit 2 (of_bool (RSV1 h)) OR push_bit 1 (of_bool (RSV2 h)) OR of_bool (RSV3 h)"

definition get_frame_opcode :: "header_t \<Rightarrow> OpcodeE" where
  "get_frame_opcode h = opcode h"

definition get_frame_MASK :: "header_t \<Rightarrow> bool" where
  "get_frame_MASK h = MASK h"

definition get_frame_Payloadlen :: "header_t \<Rightarrow> 7 word" where
  "get_frame_Payloadlen h = Payloadlen h"

section \<open>extended\_header\_t\<close>

text \<open>\<open>ExtendedPayloadlen\<close> is the union of \<^verbatim>\<open>uint16_t u16\<close> and \<^verbatim>\<open>int64_t i64\<close>: its eight
  bytes, of which \<^verbatim>\<open>u16\<close> is the low half-word on a little endian host.\<close>

record extended_header_t =
  eh_header :: header_t
  Masking_key :: bytes
  ExtendedPayloadlen :: "64 word"

definition extended_header_zero :: extended_header_t where
  "extended_header_zero =
     \<lparr>eh_header = header_zero, Masking_key = [0, 0, 0, 0], ExtendedPayloadlen = 0\<rparr>"

definition set_header :: "extended_header_t \<Rightarrow> header_t \<Rightarrow> extended_header_t" where
  "set_header e h = e\<lparr>eh_header := h\<rparr>"

definition reset_header :: "extended_header_t \<Rightarrow> extended_header_t" where
  "reset_header e = e\<lparr>eh_header := header_zero\<rparr>"

definition getPayloadlen :: "extended_header_t \<Rightarrow> nat" where
  "getPayloadlen e = unat (Payloadlen (eh_header e))"

definition setExtendedPayloadlenU16 :: "extended_header_t \<Rightarrow> 16 word \<Rightarrow> extended_header_t" where
  "setExtendedPayloadlenU16 e x =
     e\<lparr>ExtendedPayloadlen := (ExtendedPayloadlen e AND NOT 0xFFFF) OR ucast x\<rparr>"

definition setExtendedPayloadlenI64 :: "extended_header_t \<Rightarrow> 64 word \<Rightarrow> extended_header_t" where
  "setExtendedPayloadlenI64 e x = e\<lparr>ExtendedPayloadlen := x\<rparr>"

definition getExtendedPayloadlenU16 :: "extended_header_t \<Rightarrow> 16 word" where
  "getExtendedPayloadlenU16 e =
     (if Payloadlen (eh_header e) = 126 then ucast (ExtendedPayloadlen e)
      else if Payloadlen (eh_header e) = 127 then ucast (ExtendedPayloadlen e)
      else 0)"

definition getExtendedPayloadlenI64 :: "extended_header_t \<Rightarrow> 64 word" where
  "getExtendedPayloadlenI64 e =
     (if Payloadlen (eh_header e) = 126 then ucast (ucast (ExtendedPayloadlen e) :: 16 word)
      else if Payloadlen (eh_header e) = 127 then ExtendedPayloadlen e
      else 0)"

definition getExtendedPayloadlen :: "extended_header_t \<Rightarrow> 64 word" where
  "getExtendedPayloadlen e =
     (if Payloadlen (eh_header e) = 126 then ucast (ucast (ExtendedPayloadlen e) :: 16 word)
      else if Payloadlen (eh_header e) = 127 then ExtendedPayloadlen e
      else 0)"

definition existExtendedPayloadlen :: "extended_header_t \<Rightarrow> bool" where
  "existExtendedPayloadlen e \<longleftrightarrow>
     (if Payloadlen (eh_header e) = 126 then True
      else if Payloadlen (eh_header e) = 127 then True
      else False)"

definition getRealDatalen :: "extended_header_t \<Rightarrow> 64 word" where
  "getRealDatalen e =
     (if Payloadlen (eh_header e) = 126 then ucast (ucast (ExtendedPayloadlen e) :: 16 word)
      else if Payloadlen (eh_header e) = 127 then ExtendedPayloadlen e
      else ucast (Payloadlen (eh_header e)))"

definition setMaskingkey :: "extended_header_t \<Rightarrow> bytes \<Rightarrow> nat \<Rightarrow> extended_header_t res" where
  "setMaskingkey e key sz =
     require Websocket_cc 561 (sz = kMaskingkeyLen) (Inr (e\<lparr>Masking_key := take 4 key\<rparr>))"

definition existMaskingkey :: "extended_header_t \<Rightarrow> bool res" where
  "existMaskingkey e =
     (if MASK (eh_header e) then Inr True
      else require Websocket_cc 583 (Masking_key e ! 0 = 0) (Inr False))"

definition reset_extended_header :: "extended_header_t \<Rightarrow> extended_header_t" where
  "reset_extended_header e =
     (reset_header e)\<lparr>ExtendedPayloadlen := 0, Masking_key := [0, 0, 0, 0]\<rparr>"

section \<open>Classification of a frame\<close>

text \<open>The nested \<^verbatim>\<open>switch\<close> on opcode and FIN; a control frame that is not finished
  stops at the \<^verbatim>\<open>assert\<close> of its case, an opcode without a case at line 1840.\<close>

definition get_frame_control_message_type :: "header_t \<Rightarrow> (FrameControlE \<times> MessageFrameE) res" where
  "get_frame_control_message_type h =
     (case opcode h of
        SegmentMessage \<Rightarrow>
          Inr (UnControlFrame, case FIN h of FrameContinue \<Rightarrow> MiddleFrame | FrameFinished \<Rightarrow> TailFrame)
      | TextMessage \<Rightarrow>
          Inr (UnControlFrame, case FIN h of FrameContinue \<Rightarrow> HeadFrame | FrameFinished \<Rightarrow> HeadTailFrame)
      | BinaryMessage \<Rightarrow>
          Inr (UnControlFrame, case FIN h of FrameContinue \<Rightarrow> HeadFrame | FrameFinished \<Rightarrow> HeadTailFrame)
      | CloseMessage \<Rightarrow>
          require Websocket_cc 1780 (FIN h = FrameFinished) (Inr (ControlFrame, HeadTailFrame))
      | PingMessage \<Rightarrow>
          require Websocket_cc 1802 (FIN h = FrameFinished) (Inr (ControlFrame, HeadTailFrame))
      | PongMessage \<Rightarrow>
          require Websocket_cc 1824 (FIN h = FrameFinished) (Inr (ControlFrame, HeadTailFrame))
      | _ \<Rightarrow> Inl (AssertFail Websocket_cc 1840))"

definition validate_uncontrol_frame_header :: "header_t \<Rightarrow> unit res" where
  "validate_uncontrol_frame_header h =
     require Websocket_cc 1522
       (OpcodeE_value SegmentMessage \<le> OpcodeE_value (opcode h) \<and>
        OpcodeE_value (opcode h) \<le> OpcodeE_value BinaryMessage) (Inr ())"

definition validate_control_frame_header :: "header_t \<Rightarrow> unit res" where
  "validate_control_frame_header h =
     require Websocket_cc 1529 (Payloadlen h \<le> 126)
       (require Websocket_cc 1530 (FIN h = FrameFinished)
         (require Websocket_cc 1531
           (OpcodeE_value CloseMessage \<le> OpcodeE_value (opcode h) \<and>
            OpcodeE_value (opcode h) \<le> OpcodeE_value PongMessage) (Inr ())))"

section \<open>frame\_header\_t\<close>

record frame_header_t =
  fh_header :: extended_header_t
  frameControlType :: FrameControlE
  messageFrameType :: MessageFrameE

definition frame_header_ctor ::
  "FrameControlE \<Rightarrow> MessageFrameE \<Rightarrow> extended_header_t \<Rightarrow> frame_header_t res" where
  "frame_header_ctor c m ref =
     rbind (setMaskingkey
         (setExtendedPayloadlenI64 (set_header extended_header_zero (eh_header ref))
            (getExtendedPayloadlenI64 ref))
         (Masking_key ref) kMaskingkeyLen)
       (\<lambda>e. Inr \<lparr>fh_header = e, frameControlType = c, messageFrameType = m\<rparr>)"

definition frame_header_copy :: "frame_header_t \<Rightarrow> frame_header_t res" where
  "frame_header_copy ref =
     rbind (setMaskingkey
         (setExtendedPayloadlenI64 (set_header extended_header_zero (eh_header (fh_header ref)))
            (getExtendedPayloadlenI64 (fh_header ref)))
         (Masking_key (fh_header ref)) kMaskingkeyLen)
       (\<lambda>e. Inr \<lparr>fh_header = e, frameControlType = frameControlType ref,
                 messageFrameType = messageFrameType ref\<rparr>)"

definition testValidate :: "frame_header_t \<Rightarrow> unit res" where
  "testValidate f =
     (let h = eh_header (fh_header f); m = messageFrameType f; c = frameControlType f in
      case opcode h of
        SegmentMessage \<Rightarrow>
          (case FIN h of
             FrameContinue \<Rightarrow> require Websocket_cc 1208 (m = MiddleFrame)
           | FrameFinished \<Rightarrow> require Websocket_cc 1213 (m = TailFrame))
          (require Websocket_cc 1218 (c = UnControlFrame) (Inr ()))
      | TextMessage \<Rightarrow>
          (case FIN h of
             FrameContinue \<Rightarrow> require Websocket_cc 1227 (m = HeadFrame)
           | FrameFinished \<Rightarrow> require Websocket_cc 1232 (m = HeadTailFrame))
          (require Websocket_cc 1237 (c = UnControlFrame) (Inr ()))
      | BinaryMessage \<Rightarrow>
          (case FIN h of
             FrameContinue \<Rightarrow> require Websocket_cc 1246 (m = HeadFrame)
           | FrameFinished \<Rightarrow> require Websocket_cc 1251 (m = HeadTailFrame))
          (require Websocket_cc 1256 (c = UnControlFrame) (Inr ()))
      | CloseMessage \<Rightarrow>
          require Websocket_cc 1265 (FIN h = FrameFinished)
            (require Websocket_cc 1277 (c = ControlFrame) (Inr ()))
      | PingMessage \<Rightarrow>
          require Websocket_cc 1286 (FIN h = FrameFinished)
            (require Websocket_cc 1293 (m = HeadTailFrame)
              (require Websocket_cc 1298 (c = ControlFrame) (Inr ())))
      | PongMessage \<Rightarrow>
          require Websocket_cc 1307 (FIN h = FrameFinished)
            (require Websocket_cc 1314 (m = HeadTailFrame)
              (require Websocket_cc 1319 (c = ControlFrame) (Inr ())))
      | _ \<Rightarrow> Inl (AssertFail Websocket_cc 1322))"

section \<open>message\_header\_t\<close>

record message_header_t =
  messageType :: MessageE
  frameHeaders :: "frame_header_t list"

definition message_header_reset :: "message_header_t \<Rightarrow> message_header_t" where
  "message_header_reset mh = mh\<lparr>frameHeaders := []\<rparr>"

definition getFrameHeaderSize :: "message_header_t \<Rightarrow> nat" where
  "getFrameHeaderSize mh = length (frameHeaders mh)"

definition getFrameHeader :: "message_header_t \<Rightarrow> nat \<Rightarrow> frame_header_t option" where
  "getFrameHeader mh i =
     (if length (frameHeaders mh) > 0
      then Some (if i < length (frameHeaders mh) then frameHeaders mh ! i
                 else frameHeaders mh ! (length (frameHeaders mh) - 1))
      else None)"

definition getFirstFrameHeader :: "message_header_t \<Rightarrow> frame_header_t option" where
  "getFirstFrameHeader mh =
     (if length (frameHeaders mh) > 0 then Some (frameHeaders mh ! 0) else None)"

definition getLastFrameHeader :: "message_header_t \<Rightarrow> frame_header_t option" where
  "getLastFrameHeader mh =
     (if length (frameHeaders mh) > 0
      then Some (frameHeaders mh ! (length (frameHeaders mh) - 1)) else None)"

text \<open>\<^verbatim>\<open>addFrameHeader\<close>: the first \<^verbatim>\<open>switch\<close> gives the two classifications and checks the
  message type; then every header already stored must be of a data frame, the
  new header is validated, and \<^verbatim>\<open>emplace_back\<close> stores a copy.\<close>

definition addFrameHeader_classify ::
  "MessageE \<Rightarrow> header_t \<Rightarrow> (FrameControlE \<times> MessageFrameE) res" where
  "addFrameHeader_classify ty h =
     (case opcode h of
        SegmentMessage \<Rightarrow>
          require Websocket_cc 1351 (ty = TextMessage \<or> ty = BinaryMessage)
            (Inr (UnControlFrame,
                  case FIN h of FrameContinue \<Rightarrow> MiddleFrame | FrameFinished \<Rightarrow> TailFrame))
      | TextMessage \<Rightarrow>
          require Websocket_cc 1373 (ty = TextMessage)
            (Inr (UnControlFrame,
                  case FIN h of FrameContinue \<Rightarrow> HeadFrame | FrameFinished \<Rightarrow> HeadTailFrame))
      | BinaryMessage \<Rightarrow>
          require Websocket_cc 1393 (ty = BinaryMessage)
            (Inr (UnControlFrame,
                  case FIN h of FrameContinue \<Rightarrow> HeadFrame | FrameFinished \<Rightarrow> HeadTailFrame))
      | CloseMessage \<Rightarrow>
          require Websocket_cc 1402 (FIN h = FrameFinished)
            (require Websocket_cc 1415 (ty = CloseMessage) (Inr (ControlFrame, HeadTailFrame)))
      | PingMessage \<Rightarrow>
          require Websocket_cc 1424 (FIN h = FrameFinished)
            (require Websocket_cc 1437 (ty = PingMessage) (Inr (ControlFrame, HeadTailFrame)))
      | PongMessage \<Rightarrow>
          require Websocket_cc 1446 (FIN h = FrameFinished)
            (require Websocket_cc 1459 (ty = PongMessage) (Inr (ControlFrame, HeadTailFrame)))
      | _ \<Rightarrow> Inl (AssertFail Websocket_cc 1462))"

definition addFrameHeader ::
  "message_header_t \<Rightarrow> extended_header_t \<Rightarrow> (MessageFrameE \<times> message_header_t) res" where
  "addFrameHeader mh ext =
     rbind (addFrameHeader_classify (messageType mh) (eh_header ext)) (\<lambda>(c, m).
     require Websocket_cc 1469 (\<forall>f \<in> set (frameHeaders mh). frameControlType f = UnControlFrame)
     (rbind (frame_header_ctor c m ext) (\<lambda>frameHeader.
      rbind (testValidate frameHeader) (\<lambda>_.
      rbind (frame_header_copy frameHeader) (\<lambda>stored.
        Inr (m, mh\<lparr>frameHeaders := frameHeaders mh @ [stored]\<rparr>))))))"


section \<open>Facts about headers\<close>

lemmas len_defs = kHeaderLen_def kMaskingkeyLen_def kExtendedPayloadlenU16_def
  kExtendedPayloadlenI64_def

lemma OpcodeE_of_value [simp]: "OpcodeE_of (OpcodeE_value c) = c"
  by (cases c) (simp_all add: OpcodeE_of_def)

lemma OpcodeE_value_less: "OpcodeE_value c < 16"
  by (cases c) simp_all

lemma OpcodeE_of_mod: "OpcodeE_of (n mod 16) = OpcodeE_of n"
  by (simp add: OpcodeE_of_def)

lemma OpcodeE_value_of_small: "n < 16 \<Longrightarrow> OpcodeE_value (OpcodeE_of n) = n"
proof -
  assume "n < 16"
  then have "n \<in> set [0..<16]" by simp
  moreover have "list_all (\<lambda>n. OpcodeE_value (OpcodeE_of n) = n) [0..<16]"
    by code_simp
  ultimately show ?thesis by (simp add: list_all_iff del: upt.simps)
qed

lemma OpcodeE_value_of: "OpcodeE_value (OpcodeE_of n) = n mod 16"
  using OpcodeE_value_of_small [of "n mod 16"] by (simp add: OpcodeE_of_mod)

lemma length_header_bytes [simp]: "length (header_bytes h) = 2"
  by (simp add: header_bytes_def)

lemma unat_7_less: "unat (x :: 7 word) < 128"
  using unat_bound [of x] by simp

lemma unat_of_nat_small_byte: "k < 256 \<Longrightarrow> unat (of_nat k :: byte) = k"
  by (simp add: unat_of_nat_byte)

lemma header_first_byte:
  "unat (of_nat (v + 16 * of_bool r3 + 32 * of_bool r2 + 64 * of_bool r1 + 128 * of_bool f) :: byte) =
     v + 16 * of_bool r3 + 32 * of_bool r2 + 64 * of_bool r1 + 128 * of_bool f"
  if "v < 16"
  by (rule unat_of_nat_small_byte) (use that in \<open>cases r3; cases r2; cases r1; cases f; simp\<close>)

lemma header_second_byte:
  "unat (of_nat (unat (p :: 7 word) + 128 * of_bool m) :: byte) = unat p + 128 * of_bool m"
  by (rule unat_of_nat_small_byte) (use unat_7_less [of p] in \<open>cases m; simp\<close>)

lemma of_nat_7_add_128: "(of_nat (unat (p :: 7 word) + 128 * of_bool m) :: 7 word) = p"
  by (rule word_unat_eq_iff [THEN iffD2])
    (use unat_7_less [of p] in \<open>simp add: unat_of_nat del: of_nat_add\<close>)

lemma first_byte_fields:
  fixes v :: nat
  assumes "v < 16"
    and "n = v + 16 * of_bool r3 + 32 * of_bool r2 + 64 * of_bool r1 + 128 * of_bool f"
  shows "n mod 16 = v" "odd (n div 16) = r3" "odd (n div 32) = r2" "odd (n div 64) = r1"
    "odd (n div 128) = f"
proof -
  obtain k :: nat where b: "k = of_bool r3 + 2 * of_bool r2 + 4 * of_bool r1 + 8 * of_bool f"
    by blast
  have n: "n = v + 16 * k" using assms(2) unfolding b by simp
  show "n mod 16 = v" using assms(1) unfolding n by simp
  have k: "n div 16 = k" using assms(1) unfolding n by simp
  have "n div 32 = n div 16 div 2" "n div 64 = n div 16 div 4" "n div 128 = n div 16 div 8"
    by (simp_all add: div_mult2_eq [symmetric])
  then show "odd (n div 16) = r3" "odd (n div 32) = r2" "odd (n div 64) = r1"
    "odd (n div 128) = f"
    unfolding k b by (cases r3; cases r2; cases r1; cases f; simp)+
qed

lemma header_roundtrip:
  "header_of_bytes (header_bytes h ! 0) (header_bytes h ! 1) = h"
proof -
  let ?n = "OpcodeE_value (opcode h) + 16 * of_bool (RSV3 h) + 32 * of_bool (RSV2 h) +
      64 * of_bool (RSV1 h) + 128 * of_bool (FIN h = FrameFinished)"
  note f = first_byte_fields [OF OpcodeE_value_less refl, of "opcode h" "RSV3 h" "RSV2 h" "RSV1 h"
      "FIN h = FrameFinished"]
  have "OpcodeE_of ?n = opcode h"
    using f(1) by (subst OpcodeE_of_mod [symmetric]) simp
  moreover have "odd ((unat (Payloadlen h) + 128 * of_bool (MASK h)) div 128) = MASK h"
    using unat_7_less [of "Payloadlen h"] by (cases "MASK h") (simp_all add: div_add_self2)
  moreover have "(if FIN h = FrameFinished then FrameFinished else FrameContinue) = FIN h"
    by (cases "FIN h") simp_all
  ultimately show ?thesis
    unfolding header_of_bytes_def header_bytes_def nth_Cons_0 One_nat_def nth_Cons_Suc
      header_first_byte [OF OpcodeE_value_less] header_second_byte of_nat_7_add_128 f
    by simp
qed

lemma header_bytes_of_bytes: "header_bytes (header_of_bytes b0 b1) = [b0, b1]"
proof -
  have b0: "unat b0 < 256" and b1: "unat b1 < 256"
    by (rule byte_cases_256)+
  have d: "n mod 16 + 16 * of_bool (odd (n div 16)) + 32 * of_bool (odd (n div 32)) +
      64 * of_bool (odd (n div 64)) + 128 * of_bool (odd (n div 128)) = n" if "n < 256" for n :: nat
  proof -
    have "n div 16 \<in> set [0..<16]" using that by auto
    moreover have "list_all (\<lambda>k. of_bool (odd k) + 2 * of_bool (odd (k div 2)) +
        4 * of_bool (odd (k div 4)) + 8 * of_bool (odd (k div 8)) = k) [0..<16]"
      by code_simp
    ultimately have "of_bool (odd (n div 16)) + 2 * of_bool (odd (n div 16 div 2)) +
        4 * of_bool (odd (n div 16 div 4)) + 8 * of_bool (odd (n div 16 div 8)) = n div 16"
      unfolding list_all_iff by blast
    moreover have "n = n mod 16 + 16 * (n div 16)" by simp
    moreover have e: "n div 32 = n div 16 div 2" "n div 64 = n div 16 div 4"
        "n div 128 = n div 16 div 8"
      by (simp_all add: div_mult2_eq [symmetric])
    ultimately show ?thesis unfolding e by linarith
  qed
  have "unat b1 mod 128 + 128 * of_bool (odd (unat b1 div 128)) = unat b1"
    using b1 by (cases "unat b1 < 128") (auto simp: div_if mod_if)
  note m = this
  have p: "unat (of_nat (unat b1) :: 7 word) = unat b1 mod 128"
    unfolding unat_of_nat by simp
  have fin: "((if P then FrameFinished else FrameContinue) = FrameFinished) = P" for P
    by simp
  have "header_bytes (header_of_bytes b0 b1) = [of_nat (unat b0), of_nat (unat b1)]"
    unfolding header_bytes_def header_of_bytes_def header_t.simps OpcodeE_value_of p fin
      d [OF b0] m by (rule refl)
  then show ?thesis by simp
qed

lemma setExtendedPayloadlenU16_get:
  "Payloadlen (eh_header e) = 126 \<Longrightarrow>
     getExtendedPayloadlenU16 (setExtendedPayloadlenU16 e x) = x"
proof -
  have "(0xFFFF :: 64 word) = mask 16"
    by (simp add: mask_eq_exp_minus_1)
  then have "bit (0xFFFF :: 64 word) n \<longleftrightarrow> n < 16" for n
    by (simp only: bit_mask_iff) auto
  moreover assume "Payloadlen (eh_header e) = 126"
  ultimately show ?thesis
    unfolding getExtendedPayloadlenU16_def setExtendedPayloadlenU16_def
    by simp (rule bit_word_eqI, auto simp: bit_simps)
qed

lemma setExtendedPayloadlenI64_get:
  "Payloadlen (eh_header e) = 127 \<Longrightarrow>
     getExtendedPayloadlenI64 (setExtendedPayloadlenI64 e x) = x"
  by (simp add: getExtendedPayloadlenI64_def setExtendedPayloadlenI64_def)

end
