(* ===== verification/WS_Buffer.thy ===== *)
theory WS_Buffer
  imports WS_IBytesBuffer
begin

text \<open>
  \<^verbatim>\<open>muduo::net::Buffer\<close> (\<^verbatim>\<open>muduo-vip/muduo/net/Buffer.h\<close>, \<^verbatim>\<open>Buffer.cc\<close>): a byte vector
  with a reader and a writer index.  A \<^verbatim>\<open>char*\<close> into the buffer is an index of
  the vector.  \<open>buffer_inv\<close> is the class invariant drawn in the header's
  diagram, \<open>content\<close> the readable bytes; the operations are shown to keep the
  invariant and to act on \<open>content\<close> as a queue, and the class is an
  interpretation of the contract \<open>bytes_buffer\<close>.
\<close>

section \<open>State\<close>

record Buffer =
  vec :: bytes
  readerIndex :: nat
  writerIndex :: nat

definition kCheapPrepend :: nat where
  "kCheapPrepend = 8"

definition kInitialSize :: nat where
  "kInitialSize = 1024"

text \<open>\<open>write_at\<close> is \<^verbatim>\<open>std::copy\<close> into the vector, \<open>vresize\<close> is
  \<^verbatim>\<open>std::vector<char>::resize\<close>.\<close>

definition write_at :: "bytes \<Rightarrow> nat \<Rightarrow> bytes \<Rightarrow> bytes" where
  "write_at v i xs = take i v @ xs @ drop (i + length xs) v"

definition vresize :: "bytes \<Rightarrow> nat \<Rightarrow> bytes" where
  "vresize v n = take n v @ replicate (n - length v) 0"

section \<open>Operations\<close>

definition Buffer_ctor :: "nat \<Rightarrow> Buffer" where
  "Buffer_ctor initialSize =
     \<lparr>vec = replicate (kCheapPrepend + initialSize) 0,
      readerIndex = kCheapPrepend, writerIndex = kCheapPrepend\<rparr>"

definition swap :: "Buffer \<Rightarrow> Buffer \<Rightarrow> Buffer \<times> Buffer" where
  "swap this rhs = (rhs, this)"

definition readableBytes :: "Buffer \<Rightarrow> nat" where
  "readableBytes b = writerIndex b - readerIndex b"

definition writableBytes :: "Buffer \<Rightarrow> nat" where
  "writableBytes b = length (vec b) - writerIndex b"

definition prependableBytes :: "Buffer \<Rightarrow> nat" where
  "prependableBytes b = readerIndex b"

definition beginWrite :: "Buffer \<Rightarrow> nat" where
  "beginWrite b = writerIndex b"

definition peek :: "Buffer \<Rightarrow> nat" where
  "peek b = readerIndex b"

text \<open>\<open>mem b p n\<close>: the \<open>n\<close> bytes at pointer \<open>p\<close>.\<close>

definition mem :: "Buffer \<Rightarrow> nat \<Rightarrow> nat \<Rightarrow> bytes" where
  "mem b p n = take n (drop p (vec b))"

definition find_from :: "Buffer \<Rightarrow> nat \<Rightarrow> bytes \<Rightarrow> nat option" where
  "find_from b start pat =
     map_option (\<lambda>k. start + k) (find_sub pat (mem b start (beginWrite b - start)))"

definition findCRLFCRLF :: "Buffer \<Rightarrow> nat option" where
  "findCRLFCRLF b = find_from b (peek b) kCRLFCRLF"

definition findCRLF :: "Buffer \<Rightarrow> nat option" where
  "findCRLF b = find_from b (peek b) kCRLF"

definition findCRLF_from :: "Buffer \<Rightarrow> nat \<Rightarrow> nat option res" where
  "findCRLF_from b start =
     require Buffer_h 98 (peek b \<le> start)
       (require Buffer_h 99 (start \<le> beginWrite b) (Inr (find_from b start kCRLF)))"

definition findEOL :: "Buffer \<Rightarrow> nat option" where
  "findEOL b = find_from b (peek b) [10]"

definition findEOL_from :: "Buffer \<Rightarrow> nat \<Rightarrow> nat option res" where
  "findEOL_from b start =
     require Buffer_h 113 (peek b \<le> start)
       (require Buffer_h 114 (start \<le> beginWrite b) (Inr (find_from b start [10])))"

definition retrieveAll :: "Buffer \<Rightarrow> Buffer" where
  "retrieveAll b = b\<lparr>readerIndex := kCheapPrepend, writerIndex := kCheapPrepend\<rparr>"

definition retrieve :: "Buffer \<Rightarrow> nat \<Rightarrow> Buffer res" where
  "retrieve b len =
     require Buffer_h 124 (len \<le> readableBytes b)
       (if len < readableBytes b then Inr (b\<lparr>readerIndex := readerIndex b + len\<rparr>)
        else Inr (retrieveAll b))"

definition retrieveUntil :: "Buffer \<Rightarrow> nat \<Rightarrow> Buffer res" where
  "retrieveUntil b endp =
     require Buffer_h 137 (peek b \<le> endp)
       (require Buffer_h 138 (endp \<le> beginWrite b) (retrieve b (endp - peek b)))"

definition retrieveAsString :: "Buffer \<Rightarrow> nat \<Rightarrow> (bytes \<times> Buffer) res" where
  "retrieveAsString b len =
     require Buffer_h 175 (len \<le> readableBytes b)
       (rbind (retrieve b len) (\<lambda>b'. Inr (mem b (peek b) len, b')))"

definition retrieveAllAsString :: "Buffer \<Rightarrow> (bytes \<times> Buffer) res" where
  "retrieveAllAsString b = retrieveAsString b (readableBytes b)"

definition toStringPiece :: "Buffer \<Rightarrow> bytes" where
  "toStringPiece b = mem b (peek b) (readableBytes b)"

definition makeSpace :: "Buffer \<Rightarrow> nat \<Rightarrow> Buffer res" where
  "makeSpace b len =
     (if writableBytes b + prependableBytes b < len + kCheapPrepend
      then Inr (b\<lparr>vec := vresize (vec b) (writerIndex b + len)\<rparr>)
      else require Buffer_h 457 (kCheapPrepend < readerIndex b)
        (let readable = readableBytes b;
             b' = b\<lparr>vec := write_at (vec b) kCheapPrepend (mem b (readerIndex b) readable),
                    readerIndex := kCheapPrepend,
                    writerIndex := kCheapPrepend + readable\<rparr>
         in require Buffer_h 464 (readable = readableBytes b') (Inr b')))"

definition ensureWritableBytes :: "Buffer \<Rightarrow> nat \<Rightarrow> Buffer res" where
  "ensureWritableBytes b len =
     rbind (if writableBytes b < len then makeSpace b len else Inr b)
       (\<lambda>b'. require Buffer_h 209 (len \<le> writableBytes b') (Inr b'))"

definition hasWritten :: "Buffer \<Rightarrow> nat \<Rightarrow> Buffer res" where
  "hasWritten b len =
     require Buffer_h 220 (len \<le> writableBytes b)
       (Inr (b\<lparr>writerIndex := writerIndex b + len\<rparr>))"

definition unwrite :: "Buffer \<Rightarrow> nat \<Rightarrow> Buffer res" where
  "unwrite b len =
     require Buffer_h 226 (len \<le> readableBytes b)
       (Inr (b\<lparr>writerIndex := writerIndex b - len\<rparr>))"

definition append :: "Buffer \<Rightarrow> bytes \<Rightarrow> Buffer res" where
  "append b data =
     rbind (ensureWritableBytes b (length data))
       (\<lambda>b'. hasWritten (b'\<lparr>vec := write_at (vec b') (beginWrite b') data\<rparr>) (length data))"

definition appendInt64 :: "Buffer \<Rightarrow> 64 word \<Rightarrow> Buffer res" where
  "appendInt64 b x = append b (mem64 x)"

definition appendInt32 :: "Buffer \<Rightarrow> 32 word \<Rightarrow> Buffer res" where
  "appendInt32 b x = append b (mem32 x)"

definition appendInt16 :: "Buffer \<Rightarrow> 16 word \<Rightarrow> Buffer res" where
  "appendInt16 b x = append b (mem16 x)"

definition appendInt8 :: "Buffer \<Rightarrow> 8 word \<Rightarrow> Buffer res" where
  "appendInt8 b x = append b [x]"

definition peekInt64 :: "Buffer \<Rightarrow> 64 word res" where
  "peekInt64 b = require Buffer_h 313 (8 \<le> readableBytes b) (Inr (load64 (mem b (peek b) 8)))"

definition peekInt32 :: "Buffer \<Rightarrow> 32 word res" where
  "peekInt32 b = require Buffer_h 329 (4 \<le> readableBytes b) (Inr (load32 (mem b (peek b) 4)))"

definition peekInt16 :: "Buffer \<Rightarrow> 16 word res" where
  "peekInt16 b = require Buffer_h 341 (2 \<le> readableBytes b) (Inr (load16 (mem b (peek b) 2)))"

definition peekInt8 :: "Buffer \<Rightarrow> 8 word res" where
  "peekInt8 b = require Buffer_h 353 (1 \<le> readableBytes b) (Inr (hd (mem b (peek b) 1)))"

definition readInt64 :: "Buffer \<Rightarrow> (64 word \<times> Buffer) res" where
  "readInt64 b = rbind (peekInt64 b) (\<lambda>x. rbind (retrieve b 8) (\<lambda>b'. Inr (x, b')))"

definition readInt32 :: "Buffer \<Rightarrow> (32 word \<times> Buffer) res" where
  "readInt32 b = rbind (peekInt32 b) (\<lambda>x. rbind (retrieve b 4) (\<lambda>b'. Inr (x, b')))"

definition readInt16 :: "Buffer \<Rightarrow> (16 word \<times> Buffer) res" where
  "readInt16 b = rbind (peekInt16 b) (\<lambda>x. rbind (retrieve b 2) (\<lambda>b'. Inr (x, b')))"

definition readInt8 :: "Buffer \<Rightarrow> (8 word \<times> Buffer) res" where
  "readInt8 b = rbind (peekInt8 b) (\<lambda>x. rbind (retrieve b 1) (\<lambda>b'. Inr (x, b')))"

definition prepend :: "Buffer \<Rightarrow> bytes \<Rightarrow> Buffer res" where
  "prepend b data =
     require Buffer_h 401 (length data \<le> prependableBytes b)
       (let r = readerIndex b - length data
        in Inr (b\<lparr>readerIndex := r, vec := write_at (vec b) r data\<rparr>))"

definition prependInt64 :: "Buffer \<Rightarrow> 64 word \<Rightarrow> Buffer res" where
  "prependInt64 b x = prepend b (mem64 x)"

definition prependInt32 :: "Buffer \<Rightarrow> 32 word \<Rightarrow> Buffer res" where
  "prependInt32 b x = prepend b (mem32 x)"

definition prependInt16 :: "Buffer \<Rightarrow> 16 word \<Rightarrow> Buffer res" where
  "prependInt16 b x = prepend b (mem16 x)"

definition prependInt8 :: "Buffer \<Rightarrow> 8 word \<Rightarrow> Buffer res" where
  "prependInt8 b x = prepend b [x]"

definition shrink :: "Buffer \<Rightarrow> nat \<Rightarrow> Buffer res" where
  "shrink b reserve =
     rbind (ensureWritableBytes (Buffer_ctor kInitialSize) (readableBytes b + reserve))
       (\<lambda>other. rbind (append other (toStringPiece b))
         (\<lambda>other'. Inr (fst (swap b other'))))"

text \<open>
  \<^verbatim>\<open>readFd\<close>: the outcome of \<^verbatim>\<open>readv\<close> is an argument, \<open>Inl errno\<close> or the bytes the
  kernel delivered, which fill the writable part first and the 64 KiB stack
  buffer after it.  The result pairs \<^verbatim>\<open>n\<close> and the saved errno with the buffer.
\<close>

definition readFd :: "Buffer \<Rightarrow> int + bytes \<Rightarrow> (int \<times> int option \<times> Buffer) res" where
  "readFd b rv =
     (let writable = writableBytes b in
      case rv of
        Inl e \<Rightarrow> Inr (-1, Some e, b)
      | Inr d \<Rightarrow>
          (if length d \<le> writable
           then Inr (int (length d), None,
                  b\<lparr>vec := write_at (vec b) (writerIndex b) d,
                    writerIndex := writerIndex b + length d\<rparr>)
           else rbind (append (b\<lparr>vec := write_at (vec b) (writerIndex b) (take writable d),
                                 writerIndex := length (vec b)\<rparr>) (drop writable d))
                  (\<lambda>b'. Inr (int (length d), None, b'))))"

text \<open>The store \<^verbatim>\<open>*(peek() + i) = x\<close> that clients make through the pointer.\<close>

definition poke :: "Buffer \<Rightarrow> nat \<Rightarrow> byte \<Rightarrow> Buffer" where
  "poke b i x = b\<lparr>vec := (vec b)[readerIndex b + i := x]\<rparr>"

definition Buffer_vtable :: "Buffer IBytesBuffer" where
  "Buffer_vtable =
     \<lparr>vreadableBytes = readableBytes,
      vpeek = (\<lambda>b. mem b (peek b)),
      vpoke = poke,
      vfindCRLFCRLF = (\<lambda>b. map_option (\<lambda>p. p - peek b) (findCRLFCRLF b)),
      vretrieve = retrieve,
      vretrieveAll = retrieveAll,
      vappend = append,
      vreadInt16 = readInt16,
      vreadInt64 = readInt64\<rparr>"

text \<open>The class invariant and the readable bytes.\<close>

definition buffer_inv :: "Buffer \<Rightarrow> bool" where
  "buffer_inv b \<longleftrightarrow>
     readerIndex b \<le> writerIndex b \<and> writerIndex b \<le> length (vec b) \<and>
     kCheapPrepend \<le> length (vec b)"

definition content :: "Buffer \<Rightarrow> bytes" where
  "content b = take (writerIndex b - readerIndex b) (drop (readerIndex b) (vec b))"


section \<open>Every operation keeps the invariant and acts on the readable bytes\<close>

lemmas size_defs = readableBytes_def writableBytes_def prependableBytes_def
  beginWrite_def peek_def kCheapPrepend_def kInitialSize_def

lemma write_at_length [simp]:
  "i + length xs \<le> length v \<Longrightarrow> length (write_at v i xs) = length v"
  by (simp add: write_at_def)

lemma write_at_prefix: "n \<le> i \<Longrightarrow> i \<le> length v \<Longrightarrow> take n (write_at v i xs) = take n v"
  by (simp add: write_at_def)

lemma write_at_window:
  assumes "r \<le> w" and "w \<le> length v"
  shows "take (w + length xs - r) (drop r (write_at v w xs)) = take (w - r) (drop r v) @ xs"
proof -
  have "drop r (write_at v w xs) = take (w - r) (drop r v) @ xs @ drop (w + length xs) v"
    using assms by (simp add: write_at_def drop_take)
  moreover have "length (take (w - r) (drop r v)) = w - r"
    using assms by simp
  ultimately show ?thesis using assms by (simp add: Suc_diff_le)
qed

lemma content_length [simp]: "buffer_inv b \<Longrightarrow> length (content b) = readableBytes b"
  by (auto simp: buffer_inv_def content_def size_defs)

lemma toStringPiece_content [simp]: "toStringPiece b = content b"
  by (simp add: toStringPiece_def mem_def content_def size_defs)

lemma mem_peek: "n \<le> readableBytes b \<Longrightarrow> mem b (peek b) n = take n (content b)"
  by (simp add: mem_def content_def size_defs)

lemma Buffer_ctor_ok: "buffer_inv (Buffer_ctor n)" "content (Buffer_ctor n) = []"
  by (simp_all add: Buffer_ctor_def buffer_inv_def content_def size_defs)

lemma retrieveAll_ok: "buffer_inv b \<Longrightarrow> buffer_inv (retrieveAll b) \<and> content (retrieveAll b) = []"
  by (simp add: retrieveAll_def buffer_inv_def content_def)

lemma retrieve_ok:
  assumes "buffer_inv b" and "n \<le> readableBytes b"
  shows "\<exists>b'. retrieve b n = Inr b' \<and> buffer_inv b' \<and> content b' = drop n (content b)"
proof (cases "n < readableBytes b")
  case True
  with assms show ?thesis
    by (auto simp: retrieve_def buffer_inv_def content_def size_defs drop_take add.commute)
next
  case False
  with assms show ?thesis
    using retrieveAll_ok [of b] by (simp add: retrieve_def)
qed

lemma unwrite_ok:
  assumes "buffer_inv b" and "n \<le> readableBytes b"
  shows "\<exists>b'. unwrite b n = Inr b' \<and> buffer_inv b' \<and>
           content b' = take (readableBytes b - n) (content b)"
  using assms
  by (auto simp: unwrite_def buffer_inv_def content_def size_defs min_def add.commute)

lemma makeSpace_ok:
  assumes inv: "buffer_inv b" and small: "writableBytes b < len"
  shows "\<exists>b'. makeSpace b len = Inr b' \<and> buffer_inv b' \<and> content b' = content b \<and>
           len \<le> writableBytes b'"
proof (cases "writableBytes b + prependableBytes b < len + kCheapPrepend")
  case True
  with inv small show ?thesis
    by (auto simp: makeSpace_def buffer_inv_def content_def vresize_def size_defs)
next
  case False
  let ?v = "write_at (vec b) kCheapPrepend (content b)"
  have r: "kCheapPrepend < readerIndex b"
    using False small by (simp add: size_defs)
  have fits: "kCheapPrepend + length (content b) \<le> length (vec b)"
    using inv r unfolding content_length [OF inv] by (auto simp: buffer_inv_def size_defs)
  have "content b = mem b (readerIndex b) (readableBytes b)"
    by (simp add: mem_def content_def size_defs)
  then have "makeSpace b len = Inr (b\<lparr>vec := ?v, readerIndex := kCheapPrepend,
      writerIndex := kCheapPrepend + readableBytes b\<rparr>)"
    using False r by (simp add: makeSpace_def Let_def size_defs)
  moreover have "take (readableBytes b) (drop kCheapPrepend ?v) = content b"
    using fits inv by (simp add: write_at_def)
  ultimately show ?thesis
    using False inv fits r
    by (auto simp: buffer_inv_def content_def size_defs)
qed

lemma ensureWritableBytes_ok:
  assumes "buffer_inv b"
  shows "\<exists>b'. ensureWritableBytes b len = Inr b' \<and> buffer_inv b' \<and> content b' = content b \<and>
           len \<le> writableBytes b'"
  using assms makeSpace_ok [of b len]
  by (cases "writableBytes b < len") (auto simp: ensureWritableBytes_def)

lemma write_content:
  assumes "buffer_inv b" and "length xs \<le> writableBytes b"
  shows "buffer_inv (b\<lparr>vec := write_at (vec b) (writerIndex b) xs,
             writerIndex := writerIndex b + length xs\<rparr>)"
    and "content (b\<lparr>vec := write_at (vec b) (writerIndex b) xs,
             writerIndex := writerIndex b + length xs\<rparr>) = content b @ xs"
  using assms write_at_window [of "readerIndex b" "writerIndex b" "vec b" xs]
  by (auto simp: buffer_inv_def content_def size_defs)

lemma append_ok:
  assumes "buffer_inv b"
  shows "\<exists>b'. append b xs = Inr b' \<and> buffer_inv b' \<and> content b' = content b @ xs"
proof -
  obtain b1 where b1: "ensureWritableBytes b (length xs) = Inr b1" "buffer_inv b1"
      "content b1 = content b" "length xs \<le> writableBytes b1"
    using ensureWritableBytes_ok [OF assms] by blast
  have "writerIndex b1 + length xs \<le> length (vec b1)"
    using b1(2,4) by (auto simp: buffer_inv_def size_defs)
  then have "hasWritten (b1\<lparr>vec := write_at (vec b1) (writerIndex b1) xs\<rparr>) (length xs) =
      Inr (b1\<lparr>vec := write_at (vec b1) (writerIndex b1) xs,
             writerIndex := writerIndex b1 + length xs\<rparr>)"
    by (auto simp: hasWritten_def size_defs require_def)
  with b1 write_content [OF b1(2,4)] show ?thesis
    by (simp add: append_def size_defs)
qed

lemma prepend_ok:
  assumes "buffer_inv b" and "length xs \<le> prependableBytes b"
  shows "\<exists>b'. prepend b xs = Inr b' \<and> buffer_inv b' \<and> content b' = xs @ content b"
proof -
  let ?r = "readerIndex b - length xs"
  let ?b = "b\<lparr>readerIndex := ?r, vec := write_at (vec b) ?r xs\<rparr>"
  have le: "readerIndex b \<le> writerIndex b" "writerIndex b \<le> length (vec b)"
      "length xs \<le> readerIndex b"
    using assms by (simp_all add: buffer_inv_def size_defs)
  then have "drop ?r (write_at (vec b) ?r xs) = xs @ drop (readerIndex b) (vec b)"
    by (simp add: write_at_def)
  then have "content ?b = xs @ content b"
    using le by (simp add: content_def)
  moreover have "buffer_inv ?b"
    using assms le by (simp add: buffer_inv_def)
  moreover have "prepend b xs = Inr ?b"
    using assms by (simp add: prepend_def Let_def)
  ultimately show ?thesis by blast
qed

lemma shrink_ok:
  assumes "buffer_inv b"
  shows "\<exists>b'. shrink b reserve = Inr b' \<and> buffer_inv b' \<and> content b' = content b"
proof -
  obtain o1 where o1: "ensureWritableBytes (Buffer_ctor kInitialSize) (readableBytes b + reserve) = Inr o1"
      "buffer_inv o1" "content o1 = []"
    using ensureWritableBytes_ok [OF Buffer_ctor_ok(1)] Buffer_ctor_ok(2) by metis
  then obtain o2 where "append o1 (content b) = Inr o2" "buffer_inv o2" "content o2 = content b"
    using append_ok [of o1 "content b"] by auto
  with o1 show ?thesis by (simp add: shrink_def swap_def)
qed

lemma readFd_ok:
  assumes "buffer_inv b"
  shows "\<exists>b'. readFd b (Inr d) = Inr (int (length d), None, b') \<and> buffer_inv b' \<and>
           content b' = content b @ d"
proof (cases "length d \<le> writableBytes b")
  case True
  with write_content [OF assms True] show ?thesis by (auto simp: readFd_def Let_def)
next
  case False
  let ?w = "writableBytes b"
  let ?b = "b\<lparr>vec := write_at (vec b) (writerIndex b) (take ?w d), writerIndex := length (vec b)\<rparr>"
  have full: "writerIndex b + length (take ?w d) = length (vec b)"
    using False assms by (simp add: buffer_inv_def size_defs)
  have "buffer_inv ?b \<and> content ?b = content b @ take ?w d"
    using write_content [OF assms, of "take ?w d"] False full by (simp add: min_def)
  then obtain b' where "append ?b (drop ?w d) = Inr b'" "buffer_inv b'"
      "content b' = content b @ d"
    using append_ok [of ?b "drop ?w d"] by auto
  with False show ?thesis by (auto simp: readFd_def Let_def)
qed

lemma poke_ok:
  assumes "buffer_inv b" and "i < readableBytes b"
  shows "buffer_inv (poke b i x) \<and> content (poke b i x) = (content b)[i := x]"
  using assms
  by (auto simp: poke_def buffer_inv_def content_def size_defs drop_update_swap take_update_swap)

lemma readInt16_ok:
  assumes "buffer_inv b" and "2 \<le> readableBytes b"
  shows "\<exists>b'. readInt16 b = Inr (load16 (take 2 (content b)), b') \<and> buffer_inv b' \<and>
           content b' = drop 2 (content b)"
  using assms retrieve_ok [of b 2] by (auto simp: readInt16_def peekInt16_def mem_peek)

lemma readInt64_ok:
  assumes "buffer_inv b" and "8 \<le> readableBytes b"
  shows "\<exists>b'. readInt64 b = Inr (load64 (take 8 (content b)), b') \<and> buffer_inv b' \<and>
           content b' = drop 8 (content b)"
  using assms retrieve_ok [of b 8] by (auto simp: readInt64_def peekInt64_def mem_peek)

lemma find_from_peek:
  "find_from b (peek b) pat = map_option (\<lambda>k. peek b + k) (find_sub pat (content b))"
  by (simp add: find_from_def mem_def content_def size_defs)

lemma retrieveUntil_ok:
  assumes "buffer_inv b" and "k \<le> readableBytes b"
  shows "\<exists>b'. retrieveUntil b (peek b + k) = Inr b' \<and> buffer_inv b' \<and>
           content b' = drop k (content b)"
proof -
  have "peek b + k \<le> beginWrite b"
    using assms by (auto simp: buffer_inv_def size_defs)
  with retrieve_ok [OF assms] show ?thesis by (simp add: retrieveUntil_def)
qed

lemma appendInt_readInt:
  assumes "buffer_inv b" and "content b = []"
  shows "\<exists>b1 b2. appendInt64 b x = Inr b1 \<and> readInt64 b1 = Inr (x, b2) \<and> content b2 = []"
proof -
  obtain b1 where b1: "append b (mem64 x) = Inr b1" "buffer_inv b1" "content b1 = mem64 x"
    using append_ok [OF assms(1), of "mem64 x"] assms(2) by auto
  moreover from b1 have "8 \<le> readableBytes b1" by (metis content_length mem_lengths(3) order_refl)
  ultimately show ?thesis
    using readInt64_ok [of b1] by (auto simp: appendInt64_def load64_mem64)
qed

interpretation mb: bytes_buffer Buffer_vtable content buffer_inv
proof
  fix b :: Buffer and n i x xs
  assume inv: "buffer_inv b"
  show "vreadableBytes Buffer_vtable b = length (content b)"
    using inv by (simp add: Buffer_vtable_def)
  show "vfindCRLFCRLF Buffer_vtable b = find_sub kCRLFCRLF (content b)"
    by (simp add: Buffer_vtable_def findCRLFCRLF_def find_from_peek option.map_comp o_def option.map_ident)
  show "buffer_inv (vretrieveAll Buffer_vtable b) \<and> content (vretrieveAll Buffer_vtable b) = []"
    using retrieveAll_ok [OF inv] by (simp add: Buffer_vtable_def)
  show "\<exists>b'. vappend Buffer_vtable b xs = Inr b' \<and> buffer_inv b' \<and> content b' = content b @ xs"
    using append_ok [OF inv] by (simp add: Buffer_vtable_def)
  show "vpeek Buffer_vtable b n = take n (content b)" if "n \<le> length (content b)"
    using that inv by (simp add: Buffer_vtable_def mem_peek)
  show "buffer_inv (vpoke Buffer_vtable b i x) \<and>
      content (vpoke Buffer_vtable b i x) = (content b)[i := x]" if "i < length (content b)"
    using that inv poke_ok [of b i x] by (simp add: Buffer_vtable_def)
  show "\<exists>b'. vretrieve Buffer_vtable b n = Inr b' \<and> buffer_inv b' \<and> content b' = drop n (content b)"
    if "n \<le> length (content b)"
    using that inv retrieve_ok [of b n] by (simp add: Buffer_vtable_def)
  show "\<exists>b'. vreadInt16 Buffer_vtable b = Inr (load16 (take 2 (content b)), b') \<and>
      buffer_inv b' \<and> content b' = drop 2 (content b)" if "2 \<le> length (content b)"
    using that inv readInt16_ok [of b] by (simp add: Buffer_vtable_def)
  show "\<exists>b'. vreadInt64 Buffer_vtable b = Inr (load64 (take 8 (content b)), b') \<and>
      buffer_inv b' \<and> content b' = drop 8 (content b)" if "8 \<le> length (content b)"
    using that inv readInt64_ok [of b] by (simp add: Buffer_vtable_def)
qed

end
