(* ===== verification/WS_Context.thy ===== *)
theory WS_Context
  imports WS_Frame WS_Buffer
begin

text \<open>
  The classes \<^verbatim>\<open>Message\<close> and \<^verbatim>\<open>Context_\<close> of \<^verbatim>\<open>websocket.cc\<close> and the callback interface
  \<^verbatim>\<open>ICallback\<close>.  A \<^verbatim>\<open>unique_ptr\<close> is an \<open>option\<close>, the raw pointer \<^verbatim>\<open>handler_\<close> is whether
  it is set.  The calls a connection makes on its handler are values of
  \<open>callback\<close>; a \<open>session\<close> is a context, its input buffer and the calls made so far.

  Types: \<open>'b\<close> is the type of buffer objects, \<open>'h\<close> that of HTTP contexts.
\<close>

section \<open>Message\<close>

record 'b Message =
  messageHeader :: message_header_t
  messageBuffer :: "'b option"
  segmentOffset :: nat

definition Message_ctor :: "MessageE \<Rightarrow> 'b Message" where
  "Message_ctor ty =
     \<lparr>messageHeader = \<lparr>messageType = ty, frameHeaders = []\<rparr>, messageBuffer = None,
      segmentOffset = 0\<rparr>"

definition setMessageBuffer :: "'b Message \<Rightarrow> 'b option \<Rightarrow> 'b Message res" where
  "setMessageBuffer m b =
     (case messageBuffer m of
        Some _ \<Rightarrow> Inl (AssertFail Websocket_cc 911)
      | None \<Rightarrow>
          (case b of
             None \<Rightarrow> Inl (AssertFail Websocket_cc 914)
           | Some _ \<Rightarrow> Inr (m\<lparr>messageBuffer := b\<rparr>)))"

definition getMessageBuffer :: "'b Message \<Rightarrow> 'b res" where
  "getMessageBuffer m =
     (case messageBuffer m of None \<Rightarrow> Inl (AssertFail Websocket_cc 920) | Some b \<Rightarrow> Inr b)"

definition setMessageType :: "'b Message \<Rightarrow> MessageE \<Rightarrow> 'b Message" where
  "setMessageType m ty = m\<lparr>messageHeader := (messageHeader m)\<lparr>messageType := ty\<rparr>\<rparr>"

definition getMessageType :: "'b Message \<Rightarrow> MessageE" where
  "getMessageType m = messageType (messageHeader m)"

definition Message_addFrameHeader ::
  "'b Message \<Rightarrow> extended_header_t \<Rightarrow> (MessageFrameE \<times> 'b Message) res" where
  "Message_addFrameHeader m ext =
     rbind (addFrameHeader (messageHeader m) ext)
       (\<lambda>(ty, mh). Inr (ty, m\<lparr>messageHeader := mh\<rparr>))"

definition resetMessage :: "'b IBytesBuffer \<Rightarrow> 'b Message \<Rightarrow> 'b Message" where
  "resetMessage V m =
     (let m1 = m\<lparr>messageHeader := message_header_reset (messageHeader m)\<rparr> in
      case messageBuffer m of
        None \<Rightarrow> m1
      | Some b \<Rightarrow> m1\<lparr>messageBuffer := Some (vretrieveAll V b), segmentOffset := 0\<rparr>)"

text \<open>The loop of \<^verbatim>\<open>unMaskPayloadData\<close>: \<open>k\<close> iterations from index \<open>i\<close>.\<close>

fun unMask_loop :: "'b IBytesBuffer \<Rightarrow> bytes \<Rightarrow> nat \<Rightarrow> nat \<Rightarrow> 'b \<Rightarrow> 'b" where
  "unMask_loop V key i 0 b = b"
| "unMask_loop V key i (Suc k) b =
     unMask_loop V key (Suc i) k
       (vpoke V b i ((vpeek V b (Suc i) ! i) XOR (key ! (i mod kMaskingkeyLen))))"

definition unMaskPayloadData ::
  "'b IBytesBuffer \<Rightarrow> bool \<Rightarrow> 'b \<Rightarrow> bytes \<Rightarrow> nat \<Rightarrow> bool \<times> 'b \<times> nat" where
  "unMaskPayloadData V unMask b key off =
     (let n = vreadableBytes V b in
      if unMask \<and> n > 0 \<and> n > off
      then (let b' = unMask_loop V key off (n - off) b in (True, b', vreadableBytes V b'))
      else (False, b, off))"

section \<open>Callbacks\<close>

datatype callback =
    SendMessage bytes
  | Shutdown
  | ForceClose
  | OnConnectedCallback bytes
  | OnMessageCallback bytes MessageE timestamp
  | OnClosedCallback bytes timestamp

section \<open>Context\<close>

record ('b, 'h) Context_ =
  wsStep :: StepE
  wsState :: StateE
  wsEndian :: EndianModeE
  cheader :: extended_header_t
  dataMessage :: "'b Message"
  controlMessage :: "'b Message"
  httpContext :: "'h option"
  handler :: bool

text \<open>\<^verbatim>\<open>Context_::Context_\<close> with \<^verbatim>\<open>init\<close>, the body of \<^verbatim>\<open>websocket::create\<close>: the HTTP context
  and the two buffers are moved in.\<close>

definition Context_ctor ::
  "bool \<Rightarrow> 'h option \<Rightarrow> 'b option \<Rightarrow> 'b option \<Rightarrow> EndianModeE \<Rightarrow> ('b, 'h) Context_ res" where
  "Context_ctor hnd http dataBuffer controlBuffer endian =
     require Websocket_cc 1085 (\<not> Option.is_none http)
     (rbind (setMessageBuffer (Message_ctor TextMessage) dataBuffer) (\<lambda>dm.
      rbind (setMessageBuffer (Message_ctor CloseMessage) controlBuffer) (\<lambda>cm.
      require Websocket_cc 1071 hnd
      (Inr \<lparr>wsStep = ReadFrameHeader, wsState = kClosed, wsEndian = endian,
            cheader = extended_header_zero, dataMessage = dm, controlMessage = cm,
            httpContext = http, handler = hnd\<rparr>))))"

definition resetExtendedHeader :: "('b, 'h) Context_ \<Rightarrow> ('b, 'h) Context_" where
  "resetExtendedHeader c = c\<lparr>cheader := extended_header_zero\<rparr>"

definition resetDataMessage :: "'b IBytesBuffer \<Rightarrow> ('b, 'h) Context_ \<Rightarrow> ('b, 'h) Context_" where
  "resetDataMessage V c = c\<lparr>dataMessage := resetMessage V (dataMessage c)\<rparr>"

definition resetControlMessage :: "'b IBytesBuffer \<Rightarrow> ('b, 'h) Context_ \<Rightarrow> ('b, 'h) Context_" where
  "resetControlMessage V c = c\<lparr>controlMessage := resetMessage V (controlMessage c)\<rparr>"

definition resetAll :: "'b IBytesBuffer \<Rightarrow> ('b, 'h) Context_ \<Rightarrow> ('b, 'h) Context_" where
  "resetAll V c =
     (resetControlMessage V (resetDataMessage V (resetExtendedHeader c)))
       \<lparr>wsStep := ReadFrameHeader, wsState := kClosed, handler := False\<rparr>"

definition getHttpContext :: "('b, 'h) Context_ \<Rightarrow> 'h res" where
  "getHttpContext c =
     (case httpContext c of None \<Rightarrow> Inl (AssertFail Websocket_cc 1091) | Some h \<Rightarrow> Inr h)"

section \<open>Sessions\<close>

record ('b, 'h) session =
  ctx :: "('b, 'h) Context_"
  inbuf :: 'b
  calls :: "callback list"

definition emit :: "callback \<Rightarrow> ('b, 'h) session \<Rightarrow> ('b, 'h) session" where
  "emit e s = s\<lparr>calls := calls s @ [e]\<rparr>"

section \<open>Unmasking a buffer of the contract\<close>

text \<open>\<open>mask_from i key xs\<close>: byte \<open>j\<close> of \<open>xs\<close> combined with byte
  \<open>(i + j) mod 4\<close> of the key.\<close>

fun mask_from :: "nat \<Rightarrow> bytes \<Rightarrow> bytes \<Rightarrow> bytes" where
  "mask_from i key [] = []"
| "mask_from i key (x # xs) = (x XOR key ! (i mod 4)) # mask_from (Suc i) key xs"

lemma length_mask_from [simp]: "length (mask_from i key xs) = length xs"
  by (induction xs arbitrary: i) simp_all

lemma mask_from_append:
  "mask_from i key (xs @ ys) = mask_from i key xs @ mask_from (i + length xs) key ys"
  by (induction xs arbitrary: i) simp_all

lemma mask_from_involution [simp]: "mask_from i key (mask_from i key xs) = xs"
  by (induction xs arbitrary: i) simp_all

lemma mask_from_shift: "i mod 4 = j mod 4 \<Longrightarrow> mask_from i key xs = mask_from j key xs"
proof (induction xs arbitrary: i j)
  case (Cons x xs)
  have "Suc i mod 4 = Suc j mod 4"
    using Cons.prems by (simp add: mod_Suc)
  from Cons.IH [OF this] Cons.prems show ?case by simp
qed simp

context bytes_buffer
begin

lemma unMask_loop_ok:
  assumes "invar b" and "i + k \<le> length (content b)"
  shows "invar (unMask_loop V key i k b) \<and>
    content (unMask_loop V key i k b) =
      take i (content b) @ mask_from i key (take k (drop i (content b))) @ drop (i + k) (content b)"
  using assms
proof (induction k arbitrary: i b)
  case 0
  then show ?case by simp
next
  case (Suc k)
  let ?c = "content b"
  let ?x = "(vpeek V b (Suc i) ! i) XOR (key ! (i mod kMaskingkeyLen))"
  let ?b = "vpoke V b i ?x"
  have i: "i < length ?c" using Suc.prems(2) by simp
  then have x: "?x = (?c ! i) XOR (key ! (i mod 4))"
    using Suc.prems by (simp add: peek kMaskingkeyLen_def)
  have b: "invar ?b" "content ?b = ?c[i := ?x]"
    using poke [OF Suc.prems(1) i] by blast+
  have "take (Suc k) (drop i ?c) = ?c ! i # take k (drop (Suc i) ?c)"
    using i by (simp add: Cons_nth_drop_Suc [symmetric])
  moreover have "take (Suc i) (?c[i := ?x]) = take i ?c @ [?x]"
    using i by (simp add: take_Suc_conv_app_nth)
  ultimately show ?case
    using Suc.IH [of ?b "Suc i"] Suc.prems(2) b x by simp
qed

lemma unMaskPayloadData_ok:
  assumes "invar b" and "off \<le> length (content b)"
    and "unMaskPayloadData V True b key off = (r, b', off')"
  shows "invar b'" "off' = length (content b)"
    "content b' = take off (content b) @ mask_from off key (drop off (content b))"
proof -
  let ?n = "length (content b)"
  note l = unMask_loop_ok [OF assms(1), of off "?n - off" key]
  note eq = assms(3) [unfolded unMaskPayloadData_def Let_def readable [OF assms(1)]]
  have "invar b' \<and> off' = length (content b) \<and>
      content b' = take off (content b) @ mask_from off key (drop off (content b))"
  proof (cases "off < ?n")
    case True
    with eq l assms(2) show ?thesis by (auto simp: readable split: if_splits)
  next
    case False
    with eq assms(1,2) show ?thesis by auto
  qed
  then show "invar b'" "off' = length (content b)"
    "content b' = take off (content b) @ mask_from off key (drop off (content b))"
    by blast+
qed

end

end
