(* ===== verification/WS_Parse.thy ===== *)
theory WS_Parse
  imports WS_Context
begin

text \<open>
  The incremental frame parser of \<^verbatim>\<open>websocket.cc\<close>: one definition per function,
  from \<^verbatim>\<open>parse_frame_header\<close> to the loop of \<^verbatim>\<open>parse_frame\<close>.  \<open>V\<close> is the table of
  virtual functions of the buffers, \<open>D\<close> tells whether \<^verbatim>\<open>LIBWEBSOCKET_DEBUG\<close> is
  defined, \<open>t\<close> is \<^verbatim>\<open>receiveTime\<close>.  A parsing function returns the flag
  \<^verbatim>\<open>enough\<close> and the changed session.

  The three functions that read the payload of a data frame differ in the
  length they read and in the lines of their assertions, and so do the three for
  control frames; their common bodies are \<open>parse_uncontrol_payload\<close> and
  \<open>parse_control_payload\<close>, which take the length and the lines.
\<close>

section \<open>Reading a header\<close>

definition parse_frame_header ::
  "'b IBytesBuffer \<Rightarrow> 'b \<Rightarrow> (header_t \<times> 'b) res" where
  "parse_frame_header V buf =
     (let p = vpeek V buf kHeaderLen in
      rbind (vretrieve V buf kHeaderLen) (\<lambda>buf'. Inr (header_of_bytes (p ! 0) (p ! 1), buf')))"

text \<open>Of the printing functions only the assertion of \<^verbatim>\<open>existMaskingkey\<close> is visible.\<close>

definition dump_extended_header_info :: "extended_header_t \<Rightarrow> unit res" where
  "dump_extended_header_info ext =
     (if existExtendedPayloadlen ext then rbind (existMaskingkey ext) (\<lambda>_. Inr ())
      else rbind (existMaskingkey ext) (\<lambda>_. Inr ()))"

text \<open>\<^verbatim>\<open>validate_message_frame\<close>; an opcode without a case falls out of the \<^verbatim>\<open>switch\<close>.\<close>

definition begin_message ::
  "'b IBytesBuffer \<Rightarrow> nat \<Rightarrow> 'b Message \<Rightarrow> MessageE \<Rightarrow> 'b Message res" where
  "begin_message V line m ty =
     rbind (getMessageBuffer m) (\<lambda>b.
     require Websocket_cc line (vreadableBytes V b = 0) (Inr (setMessageType m ty)))"

definition validate_message_frame ::
  "'b IBytesBuffer \<Rightarrow> bool \<Rightarrow> ('b, 'h) Context_ \<Rightarrow> ('b, 'h) Context_ res" where
  "validate_message_frame V D c =
     (let dm = dataMessage c; cm = controlMessage c in
      case opcode (eh_header (cheader c)) of
        SegmentMessage \<Rightarrow>
          require Websocket_cc 2217 (D \<longrightarrow> getFrameHeaderSize (messageHeader cm) = 0)
          (require Websocket_cc 2218 (D \<longrightarrow> getFrameHeaderSize (messageHeader dm) > 0)
          (require Websocket_cc 2220 (getMessageType dm = TextMessage \<or> getMessageType dm = BinaryMessage)
          (Inr c)))
      | TextMessage \<Rightarrow>
          rbind (begin_message V 2237 dm TextMessage) (\<lambda>m. Inr (c\<lparr>dataMessage := m\<rparr>))
      | BinaryMessage \<Rightarrow>
          rbind (begin_message V 2255 dm BinaryMessage) (\<lambda>m. Inr (c\<lparr>dataMessage := m\<rparr>))
      | CloseMessage \<Rightarrow>
          rbind (begin_message V 2273 cm CloseMessage) (\<lambda>m. Inr (c\<lparr>controlMessage := m\<rparr>))
      | PingMessage \<Rightarrow>
          rbind (begin_message V 2292 cm PingMessage) (\<lambda>m. Inr (c\<lparr>controlMessage := m\<rparr>))
      | PongMessage \<Rightarrow>
          rbind (begin_message V 2311 cm PongMessage) (\<lambda>m. Inr (c\<lparr>controlMessage := m\<rparr>))
      | _ \<Rightarrow> Inr c)"

section \<open>Reading a payload\<close>

text \<open>\<^verbatim>\<open>addFrameHeader\<close> and \<^verbatim>\<open>dump_extended_header_info\<close>, compiled with
  \<^verbatim>\<open>LIBWEBSOCKET_DEBUG\<close> only.\<close>

definition debug_addFrameHeader ::
  "bool \<Rightarrow> extended_header_t \<Rightarrow> 'b Message \<Rightarrow> 'b Message res" where
  "debug_addFrameHeader D ext m =
     (if D
      then rbind (Message_addFrameHeader m ext) (\<lambda>(_, m').
           rbind (dump_extended_header_info ext) (\<lambda>_. Inr m'))
      else Inr m)"

text \<open>\<^verbatim>\<open>append(peek, n)\<close>, \<^verbatim>\<open>retrieve(n)\<close> and \<^verbatim>\<open>unMaskPayloadData\<close>.\<close>

definition consume_payload ::
  "'b IBytesBuffer \<Rightarrow> extended_header_t \<Rightarrow> nat \<Rightarrow> 'b Message \<Rightarrow> 'b \<Rightarrow> ('b Message \<times> 'b) res" where
  "consume_payload V ext n m buf =
     rbind (getMessageBuffer m) (\<lambda>b.
     rbind (vappend V b (vpeek V buf n)) (\<lambda>b1.
     rbind (vretrieve V buf n) (\<lambda>buf1.
       case unMaskPayloadData V (MASK (eh_header ext)) b1 (Masking_key ext) (segmentOffset m) of
         (_, b2, off) \<Rightarrow> Inr (m\<lparr>messageBuffer := Some b2, segmentOffset := off\<rparr>, buf1))))"

definition finish_frame :: "('b, 'h) Context_ \<Rightarrow> ('b, 'h) Context_" where
  "finish_frame c = (resetExtendedHeader c)\<lparr>wsStep := ReadFrameHeader\<rparr>"

definition peekAll :: "'b IBytesBuffer \<Rightarrow> 'b \<Rightarrow> bytes" where
  "peekAll V b = vpeek V b (vreadableBytes V b)"

definition parse_uncontrol_payload ::
  "'b IBytesBuffer \<Rightarrow> bool \<Rightarrow> timestamp \<Rightarrow> nat \<Rightarrow> nat \<times> nat \<Rightarrow> ('b, 'h) session
     \<Rightarrow> (bool \<times> ('b, 'h) session) res" where
  "parse_uncontrol_payload V D t n lines s =
     (let c = ctx s; ext = cheader c; h = eh_header ext in
      rbind (debug_addFrameHeader D ext (dataMessage c)) (\<lambda>m0.
      rbind (consume_payload V ext n m0 (inbuf s)) (\<lambda>(m1, buf1).
      case FIN h of
        FrameContinue \<Rightarrow>
          Inr (True, s\<lparr>ctx := finish_frame (c\<lparr>dataMessage := m1\<rparr>), inbuf := buf1\<rparr>)
      | FrameFinished \<Rightarrow>
          require Websocket_cc (fst lines)
            (opcode h = SegmentMessage \<or> opcode h = TextMessage \<or> opcode h = BinaryMessage)
          (rbind (getMessageBuffer m1) (\<lambda>b.
           let call = OnMessageCallback (peekAll V b) (getMessageType m1) t;
               m2 = resetMessage V m1 in
           rbind (getMessageBuffer m2) (\<lambda>b2.
           require Websocket_cc (snd lines) (vreadableBytes V b2 = 0)
           (Inr (True, emit call
              (s\<lparr>ctx := finish_frame (c\<lparr>dataMessage := m2\<rparr>), inbuf := buf1\<rparr>)))))))))"

definition parse_uncontrol_frame_ReadPayloadData ::
  "'b IBytesBuffer \<Rightarrow> bool \<Rightarrow> timestamp \<Rightarrow> ('b, 'h) session \<Rightarrow> (bool \<times> ('b, 'h) session) res" where
  "parse_uncontrol_frame_ReadPayloadData V D t s =
     (let c = ctx s; h = eh_header (cheader c) in
      require Websocket_cc 1077 (handler c)
      (require Websocket_cc 2734 (Payloadlen h < 126)
      (require Websocket_cc 2738 (wsStep c = ReadPayloadData)
      (if vreadableBytes V (inbuf s) < unat (Payloadlen h) then Inr (False, s)
       else parse_uncontrol_payload V D t (unat (Payloadlen h)) (2808, 2824) s))))"

definition parse_uncontrol_frame_ReadExtendedPayloadDataU16 ::
  "'b IBytesBuffer \<Rightarrow> bool \<Rightarrow> timestamp \<Rightarrow> ('b, 'h) session \<Rightarrow> (bool \<times> ('b, 'h) session) res" where
  "parse_uncontrol_frame_ReadExtendedPayloadDataU16 V D t s =
     (let c = ctx s; n = unat (getExtendedPayloadlenU16 (cheader c)) in
      require Websocket_cc 1077 (handler c)
      (require Websocket_cc 2859 (Payloadlen (eh_header (cheader c)) = 126)
      (require Websocket_cc 2863 (wsStep c = ReadExtendedPayloadDataU16)
      (if vreadableBytes V (inbuf s) < n then Inr (False, s)
       else parse_uncontrol_payload V D t n (2933, 2949) s))))"

definition parse_uncontrol_frame_ReadExtendedPayloadDataI64 ::
  "'b IBytesBuffer \<Rightarrow> bool \<Rightarrow> timestamp \<Rightarrow> ('b, 'h) session \<Rightarrow> (bool \<times> ('b, 'h) session) res" where
  "parse_uncontrol_frame_ReadExtendedPayloadDataI64 V D t s =
     (let c = ctx s; n = unat (getExtendedPayloadlenI64 (cheader c)) in
      require Websocket_cc 1077 (handler c)
      (require Websocket_cc 2984 (Payloadlen (eh_header (cheader c)) = 127)
      (require Websocket_cc 2988 (wsStep c = ReadExtendedPayloadDataI64)
      (if vreadableBytes V (inbuf s) < n then Inr (False, s)
       else parse_uncontrol_payload V D t n (3059, 3075) s))))"

text \<open>A control frame: \<open>lines\<close> are the assertions on the data buffer after a close
  frame, on the opcode, and on the control buffer.\<close>

definition control_callback ::
  "'b IBytesBuffer \<Rightarrow> timestamp \<Rightarrow> nat \<times> nat \<times> nat \<Rightarrow> header_t \<Rightarrow> ('b, 'h) session
     \<Rightarrow> ('b, 'h) session res" where
  "control_callback V t lines h s =
     (let c = ctx s; cm = controlMessage c in
      case opcode h of
        CloseMessage \<Rightarrow>
          rbind (getMessageBuffer cm) (\<lambda>b.
          let s1 = emit ForceClose (emit (OnClosedCallback (peekAll V b) t) s);
              c1 = resetDataMessage V c in
          rbind (getMessageBuffer (dataMessage c1)) (\<lambda>db.
          require Websocket_cc (fst lines) (vreadableBytes V db = 0)
          (Inr (s1\<lparr>ctx := c1\<lparr>wsState := kClosed\<rparr>\<rparr>))))
      | PingMessage \<Rightarrow>
          rbind (getMessageBuffer cm) (\<lambda>b.
          Inr (emit (OnMessageCallback (peekAll V b) (getMessageType cm) t) s))
      | PongMessage \<Rightarrow>
          rbind (getMessageBuffer cm) (\<lambda>b.
          Inr (emit (OnMessageCallback (peekAll V b) (getMessageType cm) t) s))
      | _ \<Rightarrow> Inl (AssertFail Websocket_cc (fst (snd lines))))"

definition parse_control_payload ::
  "'b IBytesBuffer \<Rightarrow> bool \<Rightarrow> timestamp \<Rightarrow> nat \<Rightarrow> nat \<times> nat \<times> nat \<Rightarrow> ('b, 'h) session
     \<Rightarrow> (bool \<times> ('b, 'h) session) res" where
  "parse_control_payload V D t n lines s =
     (let c = ctx s; ext = cheader c; h = eh_header ext in
      rbind (debug_addFrameHeader D ext (controlMessage c)) (\<lambda>m0.
      rbind (consume_payload V ext n m0 (inbuf s)) (\<lambda>(m1, buf1).
      let s1 = s\<lparr>ctx := c\<lparr>controlMessage := m1\<rparr>, inbuf := buf1\<rparr> in
      case FIN h of
        FrameContinue \<Rightarrow> Inr (True, s1\<lparr>ctx := finish_frame (ctx s1)\<rparr>)
      | FrameFinished \<Rightarrow>
          rbind (control_callback V t lines h s1) (\<lambda>s2.
          let c2 = resetControlMessage V (ctx s2) in
          rbind (getMessageBuffer (controlMessage c2)) (\<lambda>b2.
          require Websocket_cc (snd (snd lines)) (vreadableBytes V b2 = 0)
          (Inr (True, s2\<lparr>ctx := finish_frame c2\<rparr>)))))))"

definition parse_control_frame_ReadPayloadData ::
  "'b IBytesBuffer \<Rightarrow> bool \<Rightarrow> timestamp \<Rightarrow> ('b, 'h) session \<Rightarrow> (bool \<times> ('b, 'h) session) res" where
  "parse_control_frame_ReadPayloadData V D t s =
     (let c = ctx s; h = eh_header (cheader c) in
      require Websocket_cc 1077 (handler c)
      (require Websocket_cc 3110 (Payloadlen h < 126)
      (require Websocket_cc 3114 (wsStep c = ReadPayloadData)
      (if vreadableBytes V (inbuf s) < unat (Payloadlen h) then Inr (False, s)
       else parse_control_payload V D t (unat (Payloadlen h)) (3194, 3219, 3230) s))))"

definition parse_control_frame_ReadExtendedPayloadDataU16 ::
  "'b IBytesBuffer \<Rightarrow> bool \<Rightarrow> timestamp \<Rightarrow> ('b, 'h) session \<Rightarrow> (bool \<times> ('b, 'h) session) res" where
  "parse_control_frame_ReadExtendedPayloadDataU16 V D t s =
     (let c = ctx s; n = unat (getExtendedPayloadlenU16 (cheader c)) in
      require Websocket_cc 1077 (handler c)
      (require Websocket_cc 3265 (Payloadlen (eh_header (cheader c)) = 126)
      (require Websocket_cc 3269 (wsStep c = ReadPayloadData)
      (if vreadableBytes V (inbuf s) < n then Inr (False, s)
       else parse_control_payload V D t n (3349, 3374, 3385) s))))"

definition parse_control_frame_ReadExtendedPayloadDataI64 ::
  "'b IBytesBuffer \<Rightarrow> bool \<Rightarrow> timestamp \<Rightarrow> ('b, 'h) session \<Rightarrow> (bool \<times> ('b, 'h) session) res" where
  "parse_control_frame_ReadExtendedPayloadDataI64 V D t s =
     (let c = ctx s; n = unat (getExtendedPayloadlenI64 (cheader c)) in
      require Websocket_cc 1077 (handler c)
      (require Websocket_cc 3420 (Payloadlen (eh_header (cheader c)) = 127)
      (require Websocket_cc 3424 (wsStep c = ReadExtendedPayloadDataI64)
      (if vreadableBytes V (inbuf s) < n then Inr (False, s)
       else parse_control_payload V D t n (3505, 3530, 3541) s))))"

section \<open>Reading lengths and the masking key\<close>

definition setWebsocketStep :: "StepE \<Rightarrow> ('b, 'h) session \<Rightarrow> ('b, 'h) session" where
  "setWebsocketStep st s = s\<lparr>ctx := (ctx s)\<lparr>wsStep := st\<rparr>\<rparr>"

definition parse_frame_ReadExtendedPayloadlenU16 ::
  "'b IBytesBuffer \<Rightarrow> ('b, 'h) session \<Rightarrow> (bool \<times> ('b, 'h) session) res" where
  "parse_frame_ReadExtendedPayloadlenU16 V s =
     (let c = ctx s; ext = cheader c; h = eh_header ext in
      require Websocket_cc 2540 (Payloadlen h = 126)
      (require Websocket_cc 2544 (wsStep c = ReadExtendedPayloadlenU16)
      (if vreadableBytes V (inbuf s) < kExtendedPayloadlenU16 then Inr (False, s)
       else rbind (vreadInt16 V (inbuf s)) (\<lambda>(x, buf1).
         let s1 = s\<lparr>ctx := c\<lparr>cheader := setExtendedPayloadlenU16 ext (networkToHost16 x)\<rparr>,
                    inbuf := buf1\<rparr> in
         Inr (True, setWebsocketStep
           (if MASK h then ReadMaskingkey else ReadExtendedPayloadDataU16) s1)))))"

definition parse_frame_ReadExtendedPayloadlenI64 ::
  "'b IBytesBuffer \<Rightarrow> ('b, 'h) session \<Rightarrow> (bool \<times> ('b, 'h) session) res" where
  "parse_frame_ReadExtendedPayloadlenI64 V s =
     (let c = ctx s; ext = cheader c; h = eh_header ext in
      require Websocket_cc 2591 (Payloadlen h = 127)
      (require Websocket_cc 2595 (wsStep c = ReadExtendedPayloadlenI64)
      (if vreadableBytes V (inbuf s) < kExtendedPayloadlenI64 then Inr (False, s)
       else rbind (vreadInt64 V (inbuf s)) (\<lambda>(x, buf1).
         let s1 = s\<lparr>ctx := c\<lparr>cheader := setExtendedPayloadlenI64 ext (networkToHost64 x)\<rparr>,
                    inbuf := buf1\<rparr> in
         Inr (True, setWebsocketStep
           (if MASK h then ReadMaskingkey else ReadExtendedPayloadDataI64) s1)))))"

definition parse_frame_ReadMaskingkey ::
  "'b IBytesBuffer \<Rightarrow> bool \<Rightarrow> timestamp \<Rightarrow> ('b, 'h) session \<Rightarrow> (bool \<times> ('b, 'h) session) res" where
  "parse_frame_ReadMaskingkey V D t s =
     (let c = ctx s; ext = cheader c; h = eh_header ext in
      require Websocket_cc 2642 (MASK h)
      (require Websocket_cc 2646 (wsStep c = ReadMaskingkey)
      (if vreadableBytes V (inbuf s) < kMaskingkeyLen then Inr (False, s)
       else rbind (setMaskingkey ext (vpeek V (inbuf s) kMaskingkeyLen) kMaskingkeyLen) (\<lambda>ext1.
         rbind (vretrieve V (inbuf s) kMaskingkeyLen) (\<lambda>buf1.
         let s1 = s\<lparr>ctx := c\<lparr>cheader := ext1\<rparr>, inbuf := buf1\<rparr> in
         if Payloadlen h = 126 then
           (let s2 = setWebsocketStep ReadExtendedPayloadDataU16 s1 in
            rbind (get_frame_control_message_type h) (\<lambda>ty.
            require Websocket_cc 2674 (fst ty \<noteq> FrameInvalid)
            (if fst ty = UnControlFrame
             then parse_uncontrol_frame_ReadExtendedPayloadDataU16 V D t s2
             else parse_control_frame_ReadExtendedPayloadDataU16 V D t s2)))
         else if Payloadlen h = 127 then
           (let s2 = setWebsocketStep ReadExtendedPayloadDataI64 s1 in
            rbind (get_frame_control_message_type h) (\<lambda>ty.
            require Websocket_cc 2688 (fst ty \<noteq> FrameInvalid)
            (if fst ty = UnControlFrame
             then parse_uncontrol_frame_ReadExtendedPayloadDataI64 V D t s2
             else parse_control_frame_ReadExtendedPayloadDataI64 V D t s2)))
         else
           require Websocket_cc 2696 (Payloadlen h < 126)
           (let s2 = setWebsocketStep ReadPayloadData s1 in
            rbind (get_frame_control_message_type h) (\<lambda>ty.
            require Websocket_cc 2703 (fst ty \<noteq> FrameInvalid)
            (if fst ty = UnControlFrame
             then parse_uncontrol_frame_ReadPayloadData V D t s2
             else parse_control_frame_ReadPayloadData V D t s2))))))))"

section \<open>Reading a frame\<close>

text \<open>The results of the functions called here are ignored, as in the code.\<close>

definition update_frame_body_parse_step ::
  "'b IBytesBuffer \<Rightarrow> bool \<Rightarrow> timestamp \<Rightarrow> ('b, 'h) session \<Rightarrow> ('b, 'h) session res" where
  "update_frame_body_parse_step V D t s =
     (let h = eh_header (cheader (ctx s)) in
      require Websocket_cc 2419 (wsStep (ctx s) = ReadFrameHeader)
      (if Payloadlen h = 126 then
         rmap snd (parse_frame_ReadExtendedPayloadlenU16 V
           (setWebsocketStep ReadExtendedPayloadlenU16 s))
       else if Payloadlen h = 127 then
         rmap snd (parse_frame_ReadExtendedPayloadlenI64 V
           (setWebsocketStep ReadExtendedPayloadlenI64 s))
       else
         require Websocket_cc 2443 (Payloadlen h < 126)
         (if MASK h then
            rmap snd (parse_frame_ReadMaskingkey V D t (setWebsocketStep ReadMaskingkey s))
          else
            rmap snd (parse_control_frame_ReadPayloadData V D t
              (setWebsocketStep ReadPayloadData s)))))"

definition parse_frame_ReadFrameHeader ::
  "'b IBytesBuffer \<Rightarrow> bool \<Rightarrow> timestamp \<Rightarrow> ('b, 'h) session \<Rightarrow> (bool \<times> ('b, 'h) session) res" where
  "parse_frame_ReadFrameHeader V D t s =
     (let c = ctx s in
      require Websocket_cc 2488 (wsStep c = ReadFrameHeader)
      (if vreadableBytes V (inbuf s) < kHeaderLen then Inr (False, s)
       else rbind (parse_frame_header V (inbuf s)) (\<lambda>(h, buf1).
         rbind (validate_message_frame V D (c\<lparr>cheader := set_header (cheader c) h\<rparr>)) (\<lambda>c1.
         rmap (\<lambda>s'. (True, s'))
           (update_frame_body_parse_step V D t (s\<lparr>ctx := c1, inbuf := buf1\<rparr>))))))"

text \<open>The body of the loop of \<^verbatim>\<open>parse_frame\<close>; \<open>ty\<close> is computed before the loop.\<close>

definition parse_frame_step ::
  "'b IBytesBuffer \<Rightarrow> bool \<Rightarrow> timestamp \<Rightarrow> FrameControlE \<Rightarrow> ('b, 'h) session
     \<Rightarrow> (bool \<times> ('b, 'h) session) res" where
  "parse_frame_step V D t ty s =
     (case wsStep (ctx s) of
        ReadFrameHeader \<Rightarrow> parse_frame_ReadFrameHeader V D t s
      | ReadExtendedPayloadlenU16 \<Rightarrow> parse_frame_ReadExtendedPayloadlenU16 V s
      | ReadExtendedPayloadlenI64 \<Rightarrow> parse_frame_ReadExtendedPayloadlenI64 V s
      | ReadMaskingkey \<Rightarrow> parse_frame_ReadMaskingkey V D t s
      | ReadPayloadData \<Rightarrow>
          require Websocket_cc 3619 (ty \<noteq> FrameInvalid)
          (if ty = UnControlFrame then parse_uncontrol_frame_ReadPayloadData V D t s
           else parse_control_frame_ReadPayloadData V D t s)
      | ReadExtendedPayloadDataU16 \<Rightarrow>
          require Websocket_cc 3626 (ty \<noteq> FrameInvalid)
          (if ty = UnControlFrame then parse_uncontrol_frame_ReadExtendedPayloadDataU16 V D t s
           else parse_control_frame_ReadExtendedPayloadDataU16 V D t s)
      | ReadExtendedPayloadDataI64 \<Rightarrow>
          require Websocket_cc 3632 (ty \<noteq> FrameInvalid)
          (if ty = UnControlFrame then parse_uncontrol_frame_ReadExtendedPayloadDataI64 V D t s
           else parse_control_frame_ReadExtendedPayloadDataI64 V D t s))"

fun parse_frame_loop ::
  "'b IBytesBuffer \<Rightarrow> bool \<Rightarrow> timestamp \<Rightarrow> FrameControlE \<Rightarrow> nat \<Rightarrow> bool \<Rightarrow> ('b, 'h) session
     \<Rightarrow> ('b, 'h) session res" where
  "parse_frame_loop V D t ty fuel enough s =
     (if enough \<and> vreadableBytes V (inbuf s) > 0
      then (case fuel of
              0 \<Rightarrow> Inl OutOfFuel
            | Suc k \<Rightarrow> rbind (parse_frame_step V D t ty s)
                (\<lambda>(enough', s'). parse_frame_loop V D t ty k enough' s'))
      else Inr s)"

definition parse_frame ::
  "'b IBytesBuffer \<Rightarrow> bool \<Rightarrow> timestamp \<Rightarrow> ('b, 'h) session \<Rightarrow> ('b, 'h) session res" where
  "parse_frame V D t s =
     (let c = ctx s in
      require Websocket_cc 1077 (handler c)
      (rbind (getMessageBuffer (dataMessage c)) (\<lambda>_.
       rbind (getMessageBuffer (controlMessage c)) (\<lambda>_.
       rbind (get_frame_control_message_type (eh_header (cheader c))) (\<lambda>ty.
         parse_frame_loop V D t (fst ty) (2 * vreadableBytes V (inbuf s) + 2) True s)))))"

section \<open>The loop, one iteration at a time\<close>

declare parse_frame_loop.simps [simp del]

lemma parse_frame_loop_False [simp]: "parse_frame_loop V D t ty k False s = Inr s"
  by (subst parse_frame_loop.simps) simp

lemma parse_frame_loop_empty [simp]:
  "vreadableBytes V (inbuf s) = 0 \<Longrightarrow> parse_frame_loop V D t ty k e s = Inr s"
  by (subst parse_frame_loop.simps) simp

lemma parse_frame_loop_0:
  "0 < vreadableBytes V (inbuf s) \<Longrightarrow> parse_frame_loop V D t ty 0 True s = Inl OutOfFuel"
  by (subst parse_frame_loop.simps) simp

lemma parse_frame_loop_Suc:
  "0 < vreadableBytes V (inbuf s) \<Longrightarrow> parse_frame_loop V D t ty (Suc k) True s =
     rbind (parse_frame_step V D t ty s) (\<lambda>(e, s'). parse_frame_loop V D t ty k e s')"
  by (subst parse_frame_loop.simps) simp

end
