(* ===== verification/WS_FrameSpec.thy ===== *)
theory WS_FrameSpec
  imports WS_Parse
begin

text \<open>
  What the frame parser promises, as a decoder of byte streams, and the proof that
  \<open>parse_frame\<close> implements it.

  \<open>decode\<close> reads masked frames laid out as RFC 6455 lays them out (two header
  bytes, a big endian extended length, the masking key, the payload), one after the
  other, and gives the events of the complete frames and the bytes left over.  It
  is undefined on a frame the parser does not accept.  The relation \<open>sim\<close>
  says which decoder state, and which bytes of a frame already consumed, a
  session of the parser stands for.
\<close>

section \<open>The decoder\<close>

record astate =
  adata :: bytes
  atype :: MessageE
  inmsg :: bool
  closed :: bool

datatype wsevent = MessageEvent MessageE bytes | CloseEvent bytes

fun callbacks_of :: "timestamp \<Rightarrow> wsevent \<Rightarrow> callback list" where
  "callbacks_of t (MessageEvent ty d) = [OnMessageCallback d ty t]"
| "callbacks_of t (CloseEvent d) = [OnClosedCallback d t, ForceClose]"

definition callbacks :: "timestamp \<Rightarrow> wsevent list \<Rightarrow> callback list" where
  "callbacks t evs = concat (map (callbacks_of t) evs)"

definition is_control :: "OpcodeE \<Rightarrow> bool" where
  "is_control x \<longleftrightarrow> x = CloseMessage \<or> x = PingMessage \<or> x = PongMessage"

definition is_data :: "OpcodeE \<Rightarrow> bool" where
  "is_data x \<longleftrightarrow> x = SegmentMessage \<or> x = TextMessage \<or> x = BinaryMessage"

text \<open>The frames the decoder is defined on: masked; a continuation only inside a
  fragmented message and a new data message only outside one; control frames
  unfragmented and with a short payload.\<close>

definition accepts :: "astate \<Rightarrow> header_t \<Rightarrow> bool" where
  "accepts st h \<longleftrightarrow> MASK h \<and>
     (if opcode h = SegmentMessage then inmsg st
      else if is_data (opcode h) then \<not> inmsg st
      else is_control (opcode h) \<and> FIN h = FrameFinished \<and> Payloadlen h < 126)"

definition ext_size :: "header_t \<Rightarrow> nat" where
  "ext_size h = (if Payloadlen h = 126 then 2 else if Payloadlen h = 127 then 8 else 0)"

definition body_len :: "header_t \<Rightarrow> bytes \<Rightarrow> nat" where
  "body_len h ex = (if Payloadlen h < 126 then unat (Payloadlen h) else be_nat ex)"

definition take_body :: "header_t \<Rightarrow> bytes \<Rightarrow> (bytes \<times> bytes \<times> bytes) option" where
  "take_body h xs =
     (let a = ext_size h; n = body_len h (take a xs) in
      if length xs < a + 4 \<or> length xs < a + 4 + n then None
      else Some (take 4 (drop a xs), take n (drop (a + 4) xs), drop (a + 4 + n) xs))"

definition header_type :: "astate \<Rightarrow> header_t \<Rightarrow> MessageE" where
  "header_type st h =
     (if opcode h = TextMessage \<or> opcode h = BinaryMessage then opcode h else atype st)"

definition deliver :: "astate \<Rightarrow> header_t \<Rightarrow> bytes \<Rightarrow> bytes \<Rightarrow> astate \<times> wsevent list" where
  "deliver st h key payload =
     (if is_data (opcode h) then
        (let d = adata st @ mask_from (length (adata st)) key payload; ty = header_type st h in
         if FIN h = FrameFinished
         then (st\<lparr>adata := [], atype := ty, inmsg := False\<rparr>, [MessageEvent ty d])
         else (st\<lparr>adata := d, atype := ty, inmsg := True\<rparr>, []))
      else if opcode h = CloseMessage then
        (st\<lparr>adata := [], inmsg := False, closed := True\<rparr>, [CloseEvent (mask_from 0 key payload)])
      else (st, [MessageEvent (opcode h) (mask_from 0 key payload)]))"

definition prefix_events ::
  "wsevent list \<Rightarrow> (astate \<times> wsevent list \<times> bytes) option
     \<Rightarrow> (astate \<times> wsevent list \<times> bytes) option" where
  "prefix_events evs r = map_option (\<lambda>(st, evs', rest). (st, evs @ evs', rest)) r"

lemma prefix_events_simps [simp]:
  "prefix_events evs None = None"
  "prefix_events evs (Some (st, evs', rest)) = Some (st, evs @ evs', rest)"
  "prefix_events [] r = r"
  "prefix_events a (prefix_events b r) = prefix_events (a @ b) r"
  by (cases r; auto simp: prefix_events_def)+

lemma prefix_events_cong [fundef_cong]:
  "evs = evs' \<Longrightarrow> r = r' \<Longrightarrow> prefix_events evs r = prefix_events evs' r'"
  by simp

lemma take_body_length:
  "take_body h xs = Some (key, p, rest) \<Longrightarrow> length rest < length xs"
  by (auto simp: take_body_def Let_def split: if_splits)

function decode :: "astate \<Rightarrow> bytes \<Rightarrow> (astate \<times> wsevent list \<times> bytes) option" where
  "decode st [] = Some (st, [], [])"
| "decode st [b] = Some (st, [], [b])"
| "decode st (b0 # b1 # xs) =
     (let h = header_of_bytes b0 b1 in
      if accepts st h
      then (case take_body h xs of
              None \<Rightarrow> Some (st, [], b0 # b1 # xs)
            | Some (key, p, rest) \<Rightarrow>
                prefix_events (snd (deliver st h key p)) (decode (fst (deliver st h key p)) rest))
      else None)"
  by pat_completeness auto
termination
  by (relation "measure (\<lambda>(st, xs). length xs)") (auto dest!: take_body_length)

section \<open>Facts about the decoder\<close>

lemma ext_size_cases: "Payloadlen h < 126 \<or> Payloadlen h = 126 \<or> Payloadlen h = (127 :: 7 word)"
proof -
  have "unat (Payloadlen h) < 128" by (rule unat_7_less)
  then have "unat (Payloadlen h) < unat (126 :: 7 word) \<or>
      unat (Payloadlen h) = unat (126 :: 7 word) \<or> unat (Payloadlen h) = unat (127 :: 7 word)"
    by simp linarith
  then show ?thesis by (simp add: word_less_nat_alt word_unat_eq_iff)
qed

lemma decode_header:
  assumes "accepts st h"
  shows "decode st (header_bytes h @ xs) =
     (case take_body h xs of
        None \<Rightarrow> Some (st, [], header_bytes h @ xs)
      | Some (key, p, rest) \<Rightarrow>
          prefix_events (snd (deliver st h key p)) (decode (fst (deliver st h key p)) rest))"
proof -
  obtain b0 b1 where b: "header_bytes h = [b0, b1]"
    using length_header_bytes by (rule length_2_cases)
  then have "header_of_bytes b0 b1 = h"
    using header_roundtrip [of h] by simp
  with assms show ?thesis unfolding b by (simp add: Let_def split: option.splits)
qed

lemma take_body_short: "length xs < ext_size h + 4 \<Longrightarrow> take_body h xs = None"
  by (simp add: take_body_def Let_def)

lemma take_body_split:
  assumes "length ex = ext_size h" and "length key = 4"
  shows "take_body h (ex @ key @ ys) =
    (if length ys < body_len h ex then None
     else Some (key, take (body_len h ex) ys, drop (body_len h ex) ys))"
  using assms by (auto simp: take_body_def Let_def)

lemma decode_waiting:
  assumes "accepts st h" and "take_body h xs = None"
  shows "decode st (header_bytes h @ xs) = Some (st, [], header_bytes h @ xs)"
  using assms by (simp add: decode_header)

lemma decode_Some_accepts:
  "decode st (b0 # b1 # xs) \<noteq> None \<Longrightarrow> accepts st (header_of_bytes b0 b1)"
  by (simp add: Let_def split: if_splits)

section \<open>The simulation relation\<close>

definition msg_holds :: "('b \<Rightarrow> bytes) \<Rightarrow> ('b \<Rightarrow> bool) \<Rightarrow> 'b Message \<Rightarrow> bytes \<Rightarrow> bool" where
  "msg_holds cont invar m d \<longleftrightarrow>
     (case messageBuffer m of
        None \<Rightarrow> False
      | Some b \<Rightarrow> invar b \<and> cont b = d \<and> segmentOffset m = length d)"

definition payload_step :: "header_t \<Rightarrow> StepE" where
  "payload_step h =
     (if Payloadlen h = 126 then ReadExtendedPayloadDataU16
      else if Payloadlen h = 127 then ReadExtendedPayloadDataI64 else ReadPayloadData)"

definition need :: "('b, 'h) Context_ \<Rightarrow> nat" where
  "need c = unat (getRealDatalen (cheader c))"

definition in_payload :: "('b, 'h) Context_ \<Rightarrow> bool" where
  "in_payload c \<longleftrightarrow> wsStep c \<in> {ReadPayloadData, ReadExtendedPayloadDataU16, ReadExtendedPayloadDataI64}"

text \<open>\<open>typed st h c\<close>: the message types after the header \<open>h\<close> was read in decoder state
  \<open>st\<close>.  \<open>position st p c\<close>: \<open>p\<close> are the bytes of the current frame already consumed.\<close>

definition typed :: "astate \<Rightarrow> header_t \<Rightarrow> ('b, 'h) Context_ \<Rightarrow> bool" where
  "typed st h c \<longleftrightarrow> accepts st h \<and> getMessageType (dataMessage c) = header_type st h \<and>
     (is_control (opcode h) \<longrightarrow> getMessageType (controlMessage c) = opcode h)"

definition position :: "astate \<Rightarrow> bytes \<Rightarrow> ('b, 'h) Context_ \<Rightarrow> bool" where
  "position st p c \<longleftrightarrow>
     (let ext = cheader c; h = eh_header ext in
      case wsStep c of
        ReadFrameHeader \<Rightarrow>
          p = [] \<and> ext = extended_header_zero \<and> getMessageType (dataMessage c) = atype st
      | ReadExtendedPayloadlenU16 \<Rightarrow> typed st h c \<and> Payloadlen h = 126 \<and> p = header_bytes h
      | ReadExtendedPayloadlenI64 \<Rightarrow> typed st h c \<and> Payloadlen h = 127 \<and> p = header_bytes h
      | ReadMaskingkey \<Rightarrow> typed st h c \<and>
          (\<exists>ex. length ex = ext_size h \<and> body_len h ex = need c \<and> p = header_bytes h @ ex)
      | _ \<Rightarrow> typed st h c \<and> wsStep c = payload_step h \<and>
          (\<exists>ex. length ex = ext_size h \<and> body_len h ex = need c \<and>
             p = header_bytes h @ ex @ Masking_key ext) \<and> length (Masking_key ext) = 4)"

definition base ::
  "('b \<Rightarrow> bytes) \<Rightarrow> ('b \<Rightarrow> bool) \<Rightarrow> bool \<Rightarrow> astate \<Rightarrow> ('b, 'h) session \<Rightarrow> bool" where
  "base cont invar D st s \<longleftrightarrow>
     (let c = ctx s in
      handler c \<and> invar (inbuf s) \<and>
      msg_holds cont invar (dataMessage c) (adata st) \<and>
      msg_holds cont invar (controlMessage c) [] \<and>
      frameHeaders (messageHeader (controlMessage c)) = [] \<and>
      (\<forall>f \<in> set (frameHeaders (messageHeader (dataMessage c))). frameControlType f = UnControlFrame) \<and>
      (D \<and> inmsg st \<longrightarrow> frameHeaders (messageHeader (dataMessage c)) \<noteq> []) \<and>
      (\<not> inmsg st \<longrightarrow> adata st = []) \<and>
      (atype st = TextMessage \<or> atype st = BinaryMessage) \<and>
      wsState c = (if closed st then kClosed else kConnected))"

definition sim ::
  "('b \<Rightarrow> bytes) \<Rightarrow> ('b \<Rightarrow> bool) \<Rightarrow> bool \<Rightarrow> astate \<Rightarrow> bytes \<Rightarrow> ('b, 'h) session \<Rightarrow> bool" where
  "sim cont invar D st p s \<longleftrightarrow>
     base cont invar D st s \<and> position st p (ctx s) \<and> (in_payload (ctx s) \<longrightarrow> 0 < need (ctx s))"

lemma callbacks_append [simp]: "callbacks t (xs @ ys) = callbacks t xs @ callbacks t ys"
  by (simp add: callbacks_def)

lemma callbacks_Nil [simp]: "callbacks t [] = []"
  by (simp add: callbacks_def)

section \<open>Debug bookkeeping\<close>

lemma debug_addFrameHeader_ok:
  assumes "MASK (eh_header ext)"
    and "\<forall>f \<in> set (frameHeaders (messageHeader m)). frameControlType f = UnControlFrame"
    and "addFrameHeader_classify (getMessageType m) (eh_header ext) = Inr (k, r)"
    and "length (Masking_key ext) = 4"
  shows "\<exists>f. frameControlType f = k \<and> debug_addFrameHeader D ext m =
    Inr (if D then m\<lparr>messageHeader := (messageHeader m)
            \<lparr>frameHeaders := frameHeaders (messageHeader m) @ [f]\<rparr>\<rparr> else m)"
proof (cases D)
  case True
  have "existMaskingkey ext = Inr True" using assms(1) by (simp add: existMaskingkey_def)
  then have d: "dump_extended_header_info ext = Inr ()"
    by (simp add: dump_extended_header_info_def)
  obtain f where f: "frame_header_ctor k r ext = Inr f" "frameControlType f = k"
      "messageFrameType f = r" "eh_header (fh_header f) = eh_header ext"
    by (simp add: frame_header_ctor_def setMaskingkey_def set_header_def
        setExtendedPayloadlenI64_def)
  obtain g where g: "frame_header_copy f = Inr g" "frameControlType g = k"
    using f by (simp add: frame_header_copy_def setMaskingkey_def set_header_def
        setExtendedPayloadlenI64_def)
  have "testValidate f = Inr ()"
    using assms(3) f(2-4)
    by (auto simp: addFrameHeader_classify_def testValidate_def Let_def res_rules
        split: OpcodeE.splits FinE.splits)
  then have "addFrameHeader (messageHeader m) ext =
      Inr (r, (messageHeader m)\<lparr>frameHeaders := frameHeaders (messageHeader m) @ [g]\<rparr>)"
    using assms(2,3) f(1) g(1) by (simp add: addFrameHeader_def getMessageType_def)
  with True d g(2) show ?thesis
    by (auto simp: debug_addFrameHeader_def Message_addFrameHeader_def)
qed (simp add: debug_addFrameHeader_def exI [of _ "\<lparr>fh_header = ext, frameControlType = k, messageFrameType = r\<rparr>"])

section \<open>Payloads\<close>

lemma setWebsocketStep_sel [simp]:
  "wsStep (ctx (setWebsocketStep x s)) = x"
  "inbuf (setWebsocketStep x s) = inbuf s"
  "calls (setWebsocketStep x s) = calls s"
  "cheader (ctx (setWebsocketStep x s)) = cheader (ctx s)"
  by (simp_all add: setWebsocketStep_def)

lemma base_setWebsocketStep [simp]:
  "base cont invar D st (setWebsocketStep x s) \<longleftrightarrow> base cont invar D st s"
  by (simp add: base_def setWebsocketStep_def Let_def)

lemma typed_setWebsocketStep [simp]:
  "typed st h (ctx (setWebsocketStep x s)) \<longleftrightarrow> typed st h (ctx s)"
  by (simp add: typed_def setWebsocketStep_def)

lemma msg_holds_header [simp]:
  "msg_holds cont invar (m\<lparr>messageHeader := x\<rparr>) d \<longleftrightarrow> msg_holds cont invar m d"
  by (simp add: msg_holds_def split: option.splits)

section \<open>Positions inside a frame\<close>

lemma accepts_classify:
  assumes "accepts st h" and "is_data (opcode h)"
    and "atype st = TextMessage \<or> atype st = BinaryMessage"
  shows "\<exists>r. addFrameHeader_classify (header_type st h) h = Inr (UnControlFrame, r)"
  using assms
  by (auto simp: is_data_def addFrameHeader_classify_def header_type_def)

lemma accepts_classify_control:
  assumes "accepts st h" and "is_control (opcode h)"
  shows "\<exists>r. addFrameHeader_classify (opcode h) h = Inr (ControlFrame, r)"
  using assms
  by (auto simp: is_data_def is_control_def accepts_def addFrameHeader_classify_def)

definition control_of :: "header_t \<Rightarrow> FrameControlE" where
  "control_of h = (if is_control (opcode h) then ControlFrame else UnControlFrame)"

lemma control_of_accepted:
  assumes "accepts st h"
  shows "\<exists>m. get_frame_control_message_type h = Inr (control_of h, m)" "control_of h \<noteq> FrameInvalid"
  using assms
  by (auto simp: accepts_def control_of_def is_data_def is_control_def
      get_frame_control_message_type_def split: if_splits)

lemma unat_ucast_7: "unat (ucast (x :: 7 word) :: 64 word) = unat x"
  using unat_7_less [of x] by (simp add: unsigned_ucast_eq take_bit_nat_eq_self)

lemma unat_ucast_16: "unat (ucast (x :: 16 word) :: 64 word) = unat x"
  using unat_bound [of x] by (simp add: unsigned_ucast_eq take_bit_nat_eq_self)

lemma need_cases:
  assumes "wsStep c = payload_step (eh_header (cheader c))"
  shows "wsStep c = ReadPayloadData \<Longrightarrow>
      Payloadlen (eh_header (cheader c)) < 126 \<and> unat (Payloadlen (eh_header (cheader c))) = need c"
    "wsStep c = ReadExtendedPayloadDataU16 \<Longrightarrow>
      Payloadlen (eh_header (cheader c)) = 126 \<and> unat (getExtendedPayloadlenU16 (cheader c)) = need c"
    "wsStep c = ReadExtendedPayloadDataI64 \<Longrightarrow>
      Payloadlen (eh_header (cheader c)) = 127 \<and> unat (getExtendedPayloadlenI64 (cheader c)) = need c"
  using assms ext_size_cases [of "eh_header (cheader c)"]
  by (auto simp: payload_step_def need_def getRealDatalen_def getExtendedPayloadlenU16_def
      getExtendedPayloadlenI64_def unat_ucast_7 unat_ucast_16 split: if_splits)

lemma in_payload_position:
  assumes "position st p c" and "in_payload c"
  obtains ex where "typed st (eh_header (cheader c)) c" "wsStep c = payload_step (eh_header (cheader c))"
    "length ex = ext_size (eh_header (cheader c))" "body_len (eh_header (cheader c)) ex = need c"
    "p = header_bytes (eh_header (cheader c)) @ ex @ Masking_key (cheader c)"
    "length (Masking_key (cheader c)) = 4"
  using assms by (auto simp: position_def in_payload_def Let_def)

lemma decode_payload:
  assumes "position st p c" and "in_payload c"
  shows "decode st (p @ xs) =
    (if length xs < need c then Some (st, [], p @ xs)
     else let dl = deliver st (eh_header (cheader c)) (Masking_key (cheader c)) (take (need c) xs)
          in prefix_events (snd dl) (decode (fst dl) (drop (need c) xs)))"
proof -
  from assms obtain ex where e: "accepts st (eh_header (cheader c))"
      "length ex = ext_size (eh_header (cheader c))" "body_len (eh_header (cheader c)) ex = need c"
      "p = header_bytes (eh_header (cheader c)) @ ex @ Masking_key (cheader c)"
      "length (Masking_key (cheader c)) = 4"
    by (rule in_payload_position) (auto simp: typed_def)
  show ?thesis
    using decode_header [OF e(1), of "ex @ Masking_key (cheader c) @ xs"]
      take_body_split [OF e(2,5), of xs] e(3,4) by (simp add: Let_def)
qed

lemma control_of_short:
  assumes "accepts st h" and "control_of h = ControlFrame"
  shows "payload_step h = ReadPayloadData"
  using assms
  by (auto simp: accepts_def control_of_def is_control_def is_data_def payload_step_def
      split: if_splits)

section \<open>Payloads of the contract\<close>

context bytes_buffer
begin

lemma msg_holds_getMessageBuffer:
  assumes "msg_holds content invar m d"
  obtains b where "getMessageBuffer m = Inr b" "messageBuffer m = Some b" "invar b" "content b = d"
    "segmentOffset m = length d" "vreadableBytes V b = length d" "peekAll V b = d"
  using assms that
  by (auto simp: msg_holds_def getMessageBuffer_def readable peek peekAll_def split: option.splits)

lemma consume_payload_ok:
  assumes "msg_holds content invar m d" and "MASK (eh_header ext)" and "invar buf"
    and "n \<le> length (content buf)"
  shows "\<exists>m' buf'. consume_payload V ext n m buf = Inr (m', buf') \<and>
    msg_holds content invar m' (d @ mask_from (length d) (Masking_key ext) (take n (content buf))) \<and>
    messageHeader m' = messageHeader m \<and> invar buf' \<and> content buf' = drop n (content buf)"
proof -
  from assms(1) obtain b where b: "getMessageBuffer m = Inr b" "invar b" "content b = d"
      "segmentOffset m = length d"
    by (rule msg_holds_getMessageBuffer)
  let ?xs = "take n (content buf)"
  obtain b1 where b1: "vappend V b ?xs = Inr b1" "invar b1" "content b1 = d @ ?xs"
    using append [OF b(2)] b(3) by blast
  obtain buf1 where buf1: "vretrieve V buf n = Inr buf1" "invar buf1"
      "content buf1 = drop n (content buf)"
    using retrieve [OF assms(3,4)] by blast
  obtain r b2 off where u: "unMaskPayloadData V True b1 (Masking_key ext) (length d) = (r, b2, off)"
    by (cases "unMaskPayloadData V True b1 (Masking_key ext) (length d)")
  note um = unMaskPayloadData_ok [OF b1(2) _ u]
  have "consume_payload V ext n m buf =
      Inr (m\<lparr>messageBuffer := Some b2, segmentOffset := off\<rparr>, buf1)"
    using b b1(1) buf1(1) u assms(2-4) by (simp add: consume_payload_def peek)
  then show ?thesis
    using um b1(3) buf1 by (auto simp: msg_holds_def)
qed

lemma resetMessage_ok:
  assumes "msg_holds content invar m d"
  shows "msg_holds content invar (resetMessage V m) []"
    "messageHeader (resetMessage V m) = (messageHeader m)\<lparr>frameHeaders := []\<rparr>"
  using assms retrieveAll
  by (auto simp: msg_holds_def resetMessage_def message_header_reset_def Let_def
      split: option.splits)

definition completed ::
  "bool \<Rightarrow> timestamp \<Rightarrow> astate \<Rightarrow> nat \<Rightarrow> ('b, 'h) session \<Rightarrow> ('b, 'h) session \<Rightarrow> bool" where
  "completed D t st n s s' \<longleftrightarrow>
     (let ext = cheader (ctx s);
          dl = deliver st (eh_header ext) (Masking_key ext) (take n (content (inbuf s))) in
      sim content invar D (fst dl) [] s' \<and> wsStep (ctx s') = ReadFrameHeader \<and>
      calls s' = calls s @ callbacks t (snd dl) \<and>
      content (inbuf s') = drop n (content (inbuf s)))"

lemma uncontrol_payload_ok:
  assumes "base content invar D st s" and "typed st (eh_header (cheader (ctx s))) (ctx s)"
    and "is_data (opcode (eh_header (cheader (ctx s))))"
    and "length (Masking_key (cheader (ctx s))) = 4"
    and "n \<le> length (content (inbuf s))"
  shows "\<exists>s'. parse_uncontrol_payload V D t n lines s = Inr (True, s') \<and> completed D t st n s s'"
proof -
  let ?c = "ctx s" let ?ext = "cheader ?c" let ?h = "eh_header ?ext" let ?m = "dataMessage ?c"
  have acc: "accepts st ?h" "MASK ?h" and ty: "getMessageType ?m = header_type st ?h"
    using assms(2) by (auto simp: typed_def accepts_def)
  note b = assms(1) [unfolded base_def Let_def]
  have bf: "\<forall>f \<in> set (frameHeaders (messageHeader ?m)). frameControlType f = UnControlFrame"
    using b by blast
  obtain r where r: "addFrameHeader_classify (getMessageType ?m) ?h = Inr (UnControlFrame, r)"
    using accepts_classify [OF acc(1) assms(3)] b ty by auto
  obtain f where f: "frameControlType f = UnControlFrame"
      "debug_addFrameHeader D ?ext ?m = Inr (if D then ?m\<lparr>messageHeader := (messageHeader ?m)
            \<lparr>frameHeaders := frameHeaders (messageHeader ?m) @ [f]\<rparr>\<rparr> else ?m)"
    using debug_addFrameHeader_ok [OF acc(2) bf r assms(4)] by blast
  define m0 where "m0 = (if D then ?m\<lparr>messageHeader := (messageHeader ?m)
            \<lparr>frameHeaders := frameHeaders (messageHeader ?m) @ [f]\<rparr>\<rparr> else ?m)"
  have m0: "msg_holds content invar m0 (adata st)" using b by (simp add: m0_def)
  obtain m1 buf1 where m1: "consume_payload V ?ext n m0 (inbuf s) = Inr (m1, buf1)"
      "msg_holds content invar m1 (adata st @ mask_from (length (adata st)) (Masking_key ?ext)
         (take n (content (inbuf s))))"
      "messageHeader m1 = messageHeader m0" "invar buf1" "content buf1 = drop n (content (inbuf s))"
    using consume_payload_ok [OF m0 acc(2) _ assms(5)] b by blast
  have t1: "getMessageType m1 = header_type st ?h"
    using m1(3) ty by (simp add: m0_def getMessageType_def)
  have fh: "\<forall>f \<in> set (frameHeaders (messageHeader m1)). frameControlType f = UnControlFrame"
      "D \<longrightarrow> frameHeaders (messageHeader m1) \<noteq> []"
    using m1(3) b f(1) by (auto simp: m0_def)
  have at: "header_type st ?h = TextMessage \<or> header_type st ?h = BinaryMessage"
    using b by (auto simp: header_type_def)
  note s = sim_def base_def position_def in_payload_def Let_def finish_frame_def
    resetExtendedHeader_def completed_def deliver_def
  show ?thesis
  proof (cases "FIN ?h")
    case FrameContinue
    then show ?thesis
      using b f(2) m1 t1 fh at assms(3)
      by (auto simp: parse_uncontrol_payload_def s m0_def [symmetric])
  next
    case FrameFinished
    obtain b1 where b1: "getMessageBuffer m1 = Inr b1" "peekAll V b1 =
        adata st @ mask_from (length (adata st)) (Masking_key ?ext) (take n (content (inbuf s)))"
      using m1(2) by (rule msg_holds_getMessageBuffer)
    note r = resetMessage_ok [OF m1(2)]
    obtain b2 where b2: "getMessageBuffer (resetMessage V m1) = Inr b2" "vreadableBytes V b2 = 0"
      using r(1) by (rule msg_holds_getMessageBuffer) simp
    show ?thesis
      using FrameFinished b f(2) m1 t1 fh at assms(3) b1 b2 r
      by (auto simp: parse_uncontrol_payload_def s m0_def [symmetric] emit_def is_data_def
          getMessageType_def callbacks_def)
  qed
qed

lemma control_callback_ok:
  assumes "base content invar D st s0" and "is_control (opcode h)"
    and "s = s0\<lparr>ctx := (ctx s0)\<lparr>controlMessage := m\<rparr>, inbuf := buf\<rparr>"
    and "msg_holds content invar m d" and "getMessageType m = opcode h"
  shows "\<exists>s'. control_callback V t lines h s = Inr s' \<and> inbuf s' = buf \<and>
    controlMessage (ctx s') = m \<and> cheader (ctx s') = cheader (ctx s0) \<and>
    handler (ctx s') \<and>
    calls s' = calls s0 @ callbacks t
      [if opcode h = CloseMessage then CloseEvent d else MessageEvent (opcode h) d] \<and>
    (if opcode h = CloseMessage
     then wsState (ctx s') = kClosed \<and> dataMessage (ctx s') = resetMessage V (dataMessage (ctx s0))
     else wsState (ctx s') = wsState (ctx s0) \<and> dataMessage (ctx s') = dataMessage (ctx s0))"
proof -
  note b = assms(1) [unfolded base_def Let_def]
  from assms(4) obtain b1 where b1: "getMessageBuffer m = Inr b1" "peekAll V b1 = d"
    by (rule msg_holds_getMessageBuffer)
  have "msg_holds content invar (resetMessage V (dataMessage (ctx s0))) []"
    using b resetMessage_ok(1) by blast
  then obtain b2 where b2: "getMessageBuffer (resetMessage V (dataMessage (ctx s0))) = Inr b2"
      "vreadableBytes V b2 = 0"
    by (rule msg_holds_getMessageBuffer) simp
  show ?thesis
    using assms(2,3,5) b b1 b2
    by (auto simp: is_control_def control_callback_def Let_def emit_def resetDataMessage_def
        callbacks_def)
qed

lemma control_payload_ok:
  assumes "base content invar D st s" and "typed st (eh_header (cheader (ctx s))) (ctx s)"
    and "is_control (opcode (eh_header (cheader (ctx s))))"
    and "length (Masking_key (cheader (ctx s))) = 4"
    and "n \<le> length (content (inbuf s))"
  shows "\<exists>s'. parse_control_payload V D t n lines s = Inr (True, s') \<and> completed D t st n s s'"
proof -
  let ?c = "ctx s" let ?ext = "cheader ?c" let ?h = "eh_header ?ext" let ?m = "controlMessage ?c"
  let ?d = "mask_from 0 (Masking_key ?ext) (take n (content (inbuf s)))"
  have acc: "accepts st ?h" "MASK ?h" and ty: "getMessageType ?m = opcode ?h"
    using assms(2,3) by (auto simp: typed_def accepts_def)
  have nd: "\<not> is_data (opcode ?h)" and fin: "FIN ?h = FrameFinished"
    using acc(1) assms(3) by (auto simp: accepts_def is_data_def is_control_def)
  have dt: "getMessageType (dataMessage ?c) = atype st"
    using assms(2) nd by (auto simp: typed_def header_type_def is_data_def)
  note b = assms(1) [unfolded base_def Let_def]
  have bf: "\<forall>f \<in> set (frameHeaders (messageHeader ?m)). frameControlType f = UnControlFrame"
    using b by simp
  have cm: "msg_holds content invar ?m []" using b by blast
  obtain r where r: "addFrameHeader_classify (getMessageType ?m) ?h = Inr (ControlFrame, r)"
    using accepts_classify_control [OF acc(1) assms(3)] ty by auto
  obtain m0 where m0: "debug_addFrameHeader D ?ext ?m = Inr m0"
      "msg_holds content invar m0 []" "getMessageType m0 = opcode ?h"
    using debug_addFrameHeader_ok [OF acc(2) bf r assms(4), of D] cm ty
    by (cases D) (auto simp: getMessageType_def)
  obtain m1 buf1 where m1: "consume_payload V ?ext n m0 (inbuf s) = Inr (m1, buf1)"
      "msg_holds content invar m1 ?d" "messageHeader m1 = messageHeader m0" "invar buf1"
      "content buf1 = drop n (content (inbuf s))"
    using consume_payload_ok [OF m0(2) acc(2) _ assms(5)] b by auto
  have t1: "getMessageType m1 = opcode ?h"
    using m1(3) m0(3) by (simp add: getMessageType_def)
  obtain s2 where s2: "control_callback V t lines ?h
      (s\<lparr>ctx := ?c\<lparr>controlMessage := m1\<rparr>, inbuf := buf1\<rparr>) = Inr s2" "inbuf s2 = buf1"
      "controlMessage (ctx s2) = m1" "handler (ctx s2)"
      "calls s2 = calls s @ callbacks t
         [if opcode ?h = CloseMessage then CloseEvent ?d else MessageEvent (opcode ?h) ?d]"
      "if opcode ?h = CloseMessage
       then wsState (ctx s2) = kClosed \<and> dataMessage (ctx s2) = resetMessage V (dataMessage ?c)
       else wsState (ctx s2) = wsState ?c \<and> dataMessage (ctx s2) = dataMessage ?c"
    using control_callback_ok [OF assms(1,3) refl m1(2) t1] by blast
  note r1 = resetMessage_ok [OF m1(2)]
  have dm: "msg_holds content invar (dataMessage ?c) (adata st)" using b by blast
  note r2 = resetMessage_ok [OF dm]
  obtain b2 where b2: "getMessageBuffer (resetMessage V m1) = Inr b2" "vreadableBytes V b2 = 0"
    using r1(1) by (rule msg_holds_getMessageBuffer) simp
  note d = sim_def base_def position_def in_payload_def Let_def finish_frame_def
    resetExtendedHeader_def resetControlMessage_def completed_def deliver_def getMessageType_def
  have e: "parse_control_payload V D t n lines s =
      Inr (True, s2\<lparr>ctx := finish_frame (resetControlMessage V (ctx s2))\<rparr>)"
    using m0(1) m1(1) fin s2(1,3) b2
    by (simp add: parse_control_payload_def Let_def resetControlMessage_def)
  show ?thesis
    unfolding e using nd b dt m1(4,5) r1 r2 s2
    by (cases "opcode ?h = CloseMessage") (simp_all add: d)
qed

definition outcome ::
  "bool \<Rightarrow> timestamp \<Rightarrow> astate \<Rightarrow> bytes \<Rightarrow> ('b, 'h) session \<Rightarrow> bool \<Rightarrow> ('b, 'h) session \<Rightarrow> bool" where
  "outcome D t st stream s enough s' \<longleftrightarrow>
     (\<exists>st' p' evs. sim content invar D st' p' s' \<and> calls s' = calls s @ callbacks t evs \<and>
        decode st stream = prefix_events evs (decode st' (p' @ content (inbuf s'))) \<and>
        (enough \<or> decode st' (p' @ content (inbuf s')) = Some (st', [], p' @ content (inbuf s')))) \<and>
     (in_payload (ctx s') \<longrightarrow> length (content (inbuf s')) < need (ctx s'))"

lemma payload_dispatch:
  assumes "handler (ctx s)" and "invar (inbuf s)"
    and "wsStep (ctx s) = payload_step (eh_header (cheader (ctx s)))"
    and "ty = ControlFrame \<longrightarrow> wsStep (ctx s) = ReadPayloadData" and "ty \<noteq> FrameInvalid"
  shows "\<exists>u v. parse_frame_step V D t ty s =
    (if length (content (inbuf s)) < need (ctx s) then Inr (False, s)
     else if ty = ControlFrame then parse_control_payload V D t (need (ctx s)) u s
     else parse_uncontrol_payload V D t (need (ctx s)) v s)"
proof -
  have "wsStep (ctx s) \<in> {ReadPayloadData, ReadExtendedPayloadDataU16, ReadExtendedPayloadDataI64}"
    unfolding assms(3) by (simp add: payload_step_def)
  then consider "wsStep (ctx s) = ReadPayloadData" | "wsStep (ctx s) = ReadExtendedPayloadDataU16"
    | "wsStep (ctx s) = ReadExtendedPayloadDataI64" by blast
  then show ?thesis
  proof cases
    case 1
    note n = need_cases(1) [OF assms(3) 1]
    show ?thesis using 1 n assms
      by (cases ty) (auto simp: parse_frame_step_def parse_control_frame_ReadPayloadData_def
          parse_uncontrol_frame_ReadPayloadData_def Let_def readable)
  next
    case 2
    note n = need_cases(2) [OF assms(3) 2]
    show ?thesis using 2 n assms
      by (cases ty) (auto simp: parse_frame_step_def
          parse_uncontrol_frame_ReadExtendedPayloadDataU16_def Let_def readable)
  next
    case 3
    note n = need_cases(3) [OF assms(3) 3]
    show ?thesis using 3 n assms
      by (cases ty) (auto simp: parse_frame_step_def
          parse_uncontrol_frame_ReadExtendedPayloadDataI64_def Let_def readable)
  qed
qed

lemma payload_outcome:
  assumes "base content invar D st s" and "position st p (ctx s)" and "in_payload (ctx s)"
    and "ty = control_of (eh_header (cheader (ctx s)))"
  shows "if length (content (inbuf s)) < need (ctx s)
    then parse_frame_step V D t ty s = Inr (False, s) \<and>
      outcome D t st (p @ content (inbuf s)) s False s
    else \<exists>s'. parse_frame_step V D t ty s = Inr (True, s') \<and>
      outcome D t st (p @ content (inbuf s)) s True s' \<and> wsStep (ctx s') = ReadFrameHeader \<and>
      length (content (inbuf s')) + need (ctx s) = length (content (inbuf s))"
proof -
  let ?h = "eh_header (cheader (ctx s))" let ?n = "need (ctx s)" let ?x = "content (inbuf s)"
  from assms(2,3) obtain ex where e: "typed st ?h (ctx s)" "wsStep (ctx s) = payload_step ?h"
      "length (Masking_key (cheader (ctx s))) = 4"
    by (rule in_payload_position)
  have acc: "accepts st ?h" using e(1) by (simp add: typed_def)
  have hi: "handler (ctx s)" "invar (inbuf s)" using assms(1) by (auto simp: base_def Let_def)
  have ty: "ty = ControlFrame \<longrightarrow> wsStep (ctx s) = ReadPayloadData" "ty \<noteq> FrameInvalid"
    using control_of_short [OF acc] control_of_accepted(2) [OF acc] assms(4) e(2) by auto
  obtain u v where d: "parse_frame_step V D t ty s =
    (if length ?x < ?n then Inr (False, s)
     else if ty = ControlFrame then parse_control_payload V D t ?n u s
     else parse_uncontrol_payload V D t ?n v s)"
    using payload_dispatch [OF hi e(2) ty] by blast
  note dc = decode_payload [OF assms(2,3), of ?x, unfolded Let_def]
  show ?thesis
  proof (cases "length ?x < ?n")
    case True
    with assms(1,2) have "sim content invar D st p s" by (simp add: sim_def)
    then have "outcome D t st (p @ ?x) s False s"
      using True dc unfolding outcome_def by (intro conjI exI [of _ st] exI [of _ p] exI [of _ "[]"]) auto
    with True d show ?thesis by simp
  next
    case False
    have "is_control (opcode ?h) \<or> is_data (opcode ?h)"
      using acc by (auto simp: accepts_def is_data_def split: if_splits)
    then obtain s' where s': "parse_frame_step V D t ty s = Inr (True, s')" "completed D t st ?n s s'"
      using False d control_payload_ok [OF assms(1) e(1) _ e(3), of ?n t u]
        uncontrol_payload_ok [OF assms(1) e(1) _ e(3), of ?n t v] assms(4)
      by (auto simp: control_of_def split: if_splits)
    then have "outcome D t st (p @ ?x) s True s'"
      using False dc unfolding outcome_def completed_def Let_def
      by (intro conjI exI [of _ "fst (deliver st ?h (Masking_key (cheader (ctx s))) (take ?n ?x))"]
          exI [of _ "[]"] exI [of _ "snd (deliver st ?h (Masking_key (cheader (ctx s))) (take ?n ?x))"])
        (auto simp: in_payload_def)
    with False s' show ?thesis by (auto simp: completed_def Let_def)
  qed
qed

lemma outcome_wait:
  assumes "sim content invar D st p s" and "\<not> in_payload (ctx s)"
    and "decode st (p @ content (inbuf s)) = Some (st, [], p @ content (inbuf s))"
  shows "outcome D t st (p @ content (inbuf s)) s e s"
  using assms unfolding outcome_def
  by (intro conjI exI [of _ st] exI [of _ p] exI [of _ "[]"]) auto

lemma outcome_calls:
  "calls s = calls s2 \<Longrightarrow> outcome D t st x s e s' \<longleftrightarrow> outcome D t st x s2 e s'"
  by (simp add: outcome_def)

lemma outcome_True: "outcome D t st x s e s' \<Longrightarrow> outcome D t st x s True s'"
  unfolding outcome_def by blast

lemma maskingkey_outcome:
  assumes "base content invar D st s" and "position st p (ctx s)"
    and "wsStep (ctx s) = ReadMaskingkey"
  shows "\<exists>e s'. parse_frame_ReadMaskingkey V D t s = Inr (e, s') \<and>
    outcome D t st (p @ content (inbuf s)) s e s' \<and>
    length (content (inbuf s')) \<le> length (content (inbuf s)) \<and>
    (e \<longrightarrow> length (content (inbuf s')) < length (content (inbuf s)) \<and>
       wsStep (ctx s') = ReadFrameHeader) \<and>
    (in_payload (ctx s') \<longrightarrow> wsStep (ctx s') = payload_step (eh_header (cheader (ctx s))))"
proof -
  let ?c = "ctx s" let ?h = "eh_header (cheader ?c)" let ?x = "content (inbuf s)"
  obtain ex where e: "typed st ?h ?c" "length ex = ext_size ?h" "body_len ?h ex = need ?c"
      "p = header_bytes ?h @ ex"
    using assms(2,3) by (auto simp: position_def Let_def)
  have acc: "accepts st ?h" "MASK ?h" using e(1) by (auto simp: typed_def accepts_def)
  have inv: "invar (inbuf s)" using assms(1) by (simp add: base_def Let_def)
  show ?thesis
  proof (cases "length ?x < 4")
    case True
    have "take_body ?h (ex @ ?x) = None"
      using True e(2) by (simp add: take_body_short)
    then have "decode st (p @ ?x) = Some (st, [], p @ ?x)"
      using decode_waiting [OF acc(1), of "ex @ ?x"] e(4) by simp
    then have "outcome D t st (p @ ?x) s False s"
      using assms by (intro outcome_wait) (auto simp: sim_def in_payload_def)
    with True acc(2) assms(3) inv show ?thesis
      by (auto simp: parse_frame_ReadMaskingkey_def Let_def readable kMaskingkeyLen_def
          in_payload_def)
  next
    case False
    obtain buf1 where b: "vretrieve V (inbuf s) 4 = Inr buf1" "invar buf1" "content buf1 = drop 4 ?x"
      using retrieve [OF inv, of 4] False by auto
    define ext1 where "ext1 = (cheader ?c)\<lparr>Masking_key := take 4 ?x\<rparr>"
    define s2 where "s2 = setWebsocketStep (payload_step ?h)
        (s\<lparr>ctx := ?c\<lparr>cheader := ext1\<rparr>, inbuf := buf1\<rparr>)"
    note s2 = s2_def setWebsocketStep_def
    have h1: "eh_header (cheader (ctx s2)) = ?h" by (simp add: s2 ext1_def)
    have base2: "base content invar D st s2"
      using assms(1) b(2) by (simp add: base_def s2 Let_def)
    have n2: "need (ctx s2) = need ?c" by (simp add: need_def s2 ext1_def getRealDatalen_def)
    have "typed st ?h (ctx s2)" using e(1) by (simp add: typed_def s2)
    then have pos2: "position st (p @ take 4 ?x) (ctx s2)"
      using e False n2 unfolding position_def
      by (auto simp: s2 ext1_def Let_def payload_step_def)
    have pay2: "in_payload (ctx s2)" by (simp add: in_payload_def s2 payload_step_def)
    obtain m where m: "get_frame_control_message_type ?h = Inr (control_of ?h, m)"
      using control_of_accepted(1) [OF acc(1)] by blast
    have eq: "parse_frame_ReadMaskingkey V D t s = parse_frame_step V D t (control_of ?h) s2"
      using False inv acc(2) assms(3) b(1) m control_of_accepted(2) [OF acc(1)]
        ext_size_cases [of ?h]
      by (auto simp: parse_frame_ReadMaskingkey_def parse_frame_step_def Let_def readable peek
          kMaskingkeyLen_def setMaskingkey_def s2_def ext1_def payload_step_def)
    have x: "p @ ?x = (p @ take 4 ?x) @ content (inbuf s2)" "calls s = calls s2"
      "length (content (inbuf s2)) < length ?x" "wsStep (ctx s2) = payload_step ?h"
      using b(3) False by (simp_all add: s2)
    note o = payload_outcome [OF base2 pos2 pay2, of "control_of ?h" t]
    show ?thesis
    proof (cases "length (content (inbuf s2)) < need (ctx s2)")
      case True
      with o h1 x show ?thesis unfolding eq x(1) outcome_calls [OF x(2)] by auto
    next
      case False
      with o h1 obtain s' where "parse_frame_step V D t (control_of ?h) s2 = Inr (True, s')"
          "outcome D t st ((p @ take 4 ?x) @ content (inbuf s2)) s2 True s'"
          "wsStep (ctx s') = ReadFrameHeader" "length (content (inbuf s')) < length ?x"
        using x(3) by auto
      then show ?thesis unfolding eq x(1) outcome_calls [OF x(2)] by (auto simp: in_payload_def)
    qed
  qed
qed

text \<open>The extended lengths.\<close>

lemma extlenU16_outcome:
  assumes "base content invar D st s" and "position st p (ctx s)"
    and "wsStep (ctx s) = ReadExtendedPayloadlenU16"
  shows "\<exists>e s'. parse_frame_ReadExtendedPayloadlenU16 V s = Inr (e, s') \<and>
    outcome D t st (p @ content (inbuf s)) s e s' \<and> \<not> in_payload (ctx s') \<and>
    length (content (inbuf s')) \<le> length (content (inbuf s)) \<and>
    (e \<longrightarrow> length (content (inbuf s')) < length (content (inbuf s)))"
proof -
  let ?c = "ctx s" let ?h = "eh_header (cheader ?c)" let ?x = "content (inbuf s)"
  have e: "typed st ?h ?c" "Payloadlen ?h = 126" "p = header_bytes ?h"
    using assms(2,3) by (auto simp: position_def Let_def)
  have acc: "accepts st ?h" "MASK ?h" using e(1) by (auto simp: typed_def accepts_def)
  have inv: "invar (inbuf s)" using assms(1) by (simp add: base_def Let_def)
  show ?thesis
  proof (cases "length ?x < 2")
    case True
    then have "decode st (p @ ?x) = Some (st, [], p @ ?x)"
      using e by (simp add: decode_waiting [OF acc(1)] take_body_short ext_size_def)
    then have "outcome D t st (p @ ?x) s False s"
      using assms by (intro outcome_wait) (auto simp: sim_def in_payload_def)
    with True e(2) assms(3) inv show ?thesis
      by (auto simp: parse_frame_ReadExtendedPayloadlenU16_def Let_def readable
          kExtendedPayloadlenU16_def in_payload_def)
  next
    case False
    obtain buf1 where b: "vreadInt16 V (inbuf s) = Inr (load16 (take 2 ?x), buf1)" "invar buf1"
        "content buf1 = drop 2 ?x"
      using readInt16 [OF inv] False by auto
    define ext1 where
      "ext1 = setExtendedPayloadlenU16 (cheader ?c) (networkToHost16 (load16 (take 2 ?x)))"
    define s2 where "s2 = setWebsocketStep ReadMaskingkey
        (s\<lparr>ctx := ?c\<lparr>cheader := ext1\<rparr>, inbuf := buf1\<rparr>)"
    have h1: "eh_header ext1 = ?h" by (simp add: ext1_def setExtendedPayloadlenU16_def)
    have "parse_frame_ReadExtendedPayloadlenU16 V s = Inr (True, s2)"
      using False e(2) acc(2) assms(3) inv b(1)
      by (auto simp: parse_frame_ReadExtendedPayloadlenU16_def Let_def readable
          kExtendedPayloadlenU16_def s2_def ext1_def)
    moreover have "need (ctx s2) = unat (getExtendedPayloadlenU16 ext1)"
      using e(2) h1 by (simp add: need_def s2_def getRealDatalen_def getExtendedPayloadlenU16_def
          unat_ucast_16)
    then have "need (ctx s2) = be_nat (take 2 ?x)"
      using e(2) False
      by (simp add: ext1_def setExtendedPayloadlenU16_get unat_networkToHost16)
    then have "sim content invar D st (p @ take 2 ?x) s2"
      using assms(1) b(2) e h1 False
      by (auto simp: sim_def base_def position_def s2_def setWebsocketStep_def typed_def Let_def
          in_payload_def ext_size_def body_len_def intro!: exI [of _ "take 2 ?x"])
    then have "outcome D t st (p @ ?x) s True s2"
      unfolding outcome_def using b(3)
      by (intro conjI exI [of _ st] exI [of _ "p @ take 2 ?x"] exI [of _ "[]"])
        (auto simp: s2_def in_payload_def)
    moreover have "length (content (inbuf s2)) < length ?x" "\<not> in_payload (ctx s2)"
      using b(3) False by (auto simp: s2_def in_payload_def)
    ultimately show ?thesis by auto
  qed
qed

lemma extlenI64_outcome:
  assumes "base content invar D st s" and "position st p (ctx s)"
    and "wsStep (ctx s) = ReadExtendedPayloadlenI64"
  shows "\<exists>e s'. parse_frame_ReadExtendedPayloadlenI64 V s = Inr (e, s') \<and>
    outcome D t st (p @ content (inbuf s)) s e s' \<and> \<not> in_payload (ctx s') \<and>
    length (content (inbuf s')) \<le> length (content (inbuf s)) \<and>
    (e \<longrightarrow> length (content (inbuf s')) < length (content (inbuf s)))"
proof -
  let ?c = "ctx s" let ?h = "eh_header (cheader ?c)" let ?x = "content (inbuf s)"
  have e: "typed st ?h ?c" "Payloadlen ?h = 127" "p = header_bytes ?h"
    using assms(2,3) by (auto simp: position_def Let_def)
  have acc: "accepts st ?h" "MASK ?h" using e(1) by (auto simp: typed_def accepts_def)
  have inv: "invar (inbuf s)" using assms(1) by (simp add: base_def Let_def)
  show ?thesis
  proof (cases "length ?x < 8")
    case True
    then have "decode st (p @ ?x) = Some (st, [], p @ ?x)"
      using e by (simp add: decode_waiting [OF acc(1)] take_body_short ext_size_def)
    then have "outcome D t st (p @ ?x) s False s"
      using assms by (intro outcome_wait) (auto simp: sim_def in_payload_def)
    with True e(2) assms(3) inv show ?thesis
      by (auto simp: parse_frame_ReadExtendedPayloadlenI64_def Let_def readable
          kExtendedPayloadlenI64_def in_payload_def)
  next
    case False
    obtain buf1 where b: "vreadInt64 V (inbuf s) = Inr (load64 (take 8 ?x), buf1)" "invar buf1"
        "content buf1 = drop 8 ?x"
      using readInt64 [OF inv] False by auto
    define ext1 where
      "ext1 = setExtendedPayloadlenI64 (cheader ?c) (networkToHost64 (load64 (take 8 ?x)))"
    define s2 where "s2 = setWebsocketStep ReadMaskingkey
        (s\<lparr>ctx := ?c\<lparr>cheader := ext1\<rparr>, inbuf := buf1\<rparr>)"
    have h1: "eh_header ext1 = ?h" by (simp add: ext1_def setExtendedPayloadlenI64_def)
    have "parse_frame_ReadExtendedPayloadlenI64 V s = Inr (True, s2)"
      using False e(2) acc(2) assms(3) inv b(1)
      by (auto simp: parse_frame_ReadExtendedPayloadlenI64_def Let_def readable
          kExtendedPayloadlenI64_def s2_def ext1_def)
    moreover have "need (ctx s2) = be_nat (take 8 ?x)"
      using e(2) h1 False
      by (simp add: need_def s2_def getRealDatalen_def ext1_def setExtendedPayloadlenI64_def
          unat_networkToHost64)
    then have "sim content invar D st (p @ take 8 ?x) s2"
      using assms(1) b(2) e h1 False
      by (auto simp: sim_def base_def position_def s2_def setWebsocketStep_def typed_def Let_def
          in_payload_def ext_size_def body_len_def intro!: exI [of _ "take 8 ?x"])
    then have "outcome D t st (p @ ?x) s True s2"
      unfolding outcome_def using b(3)
      by (intro conjI exI [of _ st] exI [of _ "p @ take 8 ?x"] exI [of _ "[]"])
        (auto simp: s2_def in_payload_def)
    moreover have "length (content (inbuf s2)) < length ?x" "\<not> in_payload (ctx s2)"
      using b(3) False by (auto simp: s2_def in_payload_def)
    ultimately show ?thesis by auto
  qed
qed

end

end
