(* ===== verification/WS_FrameRefine.thy ===== *)
theory WS_FrameRefine
  imports WS_FrameSpec
begin

text \<open>
  \<open>parse_frame\<close> implements \<open>decode\<close>: reading a header, the body of the loop, the loop
  and sequences of calls.
\<close>

section \<open>Reading a header\<close>

lemma decode_short: "length xs < 2 \<Longrightarrow> decode st xs = Some (st, [], xs)"
  by (induction st xs rule: decode.induct) simp_all

context bytes_buffer
begin

lemma begin_message_ok:
  assumes "msg_holds content invar m []"
  shows "begin_message V n m ty = Inr (setMessageType m ty)"
  using assms by (rule msg_holds_getMessageBuffer) (simp add: begin_message_def)

lemma validate_message_frame_ok:
  assumes "base content invar D st s" and "accepts st (eh_header (cheader (ctx s)))"
    and "getMessageType (dataMessage (ctx s)) = atype st"
  shows "\<exists>c1. validate_message_frame V D (ctx s) = Inr c1 \<and>
    base content invar D st (s\<lparr>ctx := c1\<rparr>) \<and> typed st (eh_header (cheader (ctx s))) c1 \<and>
    cheader c1 = cheader (ctx s) \<and> wsStep c1 = wsStep (ctx s)"
proof -
  let ?c = "ctx s" let ?o = "opcode (eh_header (cheader ?c))"
  note b = assms(1) [unfolded base_def Let_def]
  have cm: "begin_message V n (controlMessage ?c) ty = Inr (setMessageType (controlMessage ?c) ty)"
    for n ty using b begin_message_ok by blast
  have ni: "adata st = []" "msg_holds content invar (dataMessage ?c) []" if "\<not> inmsg st"
    using b that by metis+
  note dm = begin_message_ok [OF ni(2)]
  note d = validate_message_frame_def typed_def header_type_def setMessageType_def base_def Let_def
    getMessageType_def getFrameHeaderSize_def is_control_def is_data_def accepts_def
  consider "?o = SegmentMessage" | "?o = TextMessage" | "?o = BinaryMessage" | "is_control ?o"
    using assms(2) by (auto simp: accepts_def is_data_def split: if_splits)
  then show ?thesis
  proof cases
    case 1
    then show ?thesis using assms b by (simp add: d)
  next
    case 2
    then have "\<not> inmsg st" using assms(2) by (simp add: accepts_def is_data_def)
    with 2 show ?thesis using assms b dm ni by (simp add: d)
  next
    case 3
    then have "\<not> inmsg st" using assms(2) by (simp add: accepts_def is_data_def)
    with 3 show ?thesis using assms b dm ni by (simp add: d)
  next
    case 4
    then consider "?o = CloseMessage" | "?o = PingMessage" | "?o = PongMessage"
      by (auto simp: is_control_def)
    then show ?thesis using assms b cm by cases (simp_all add: d)
  qed
qed

lemma update_step_outcome:
  assumes "base content invar D st s" and "typed st (eh_header (cheader (ctx s))) (ctx s)"
    and "cheader (ctx s) = set_header extended_header_zero h" and "wsStep (ctx s) = ReadFrameHeader"
  shows "\<exists>s'. update_frame_body_parse_step V D t s = Inr s' \<and>
    outcome D t st (header_bytes h @ content (inbuf s)) s True s' \<and>
    length (content (inbuf s')) \<le> length (content (inbuf s)) \<and>
    (in_payload (ctx s') \<longrightarrow> wsStep (ctx s') = ReadPayloadData)"
proof -
  let ?p = "header_bytes h"
  have h: "eh_header (cheader (ctx s)) = h" using assms(3) by (simp add: set_header_def)
  have m: "MASK h" using assms(2) h by (simp add: typed_def accepts_def)
  note d = update_frame_body_parse_step_def Let_def
  consider "Payloadlen h = 126" | "Payloadlen h = 127" | "Payloadlen h < 126"
    using ext_size_cases [of h] by blast
  then show ?thesis
  proof cases
    case 1
    let ?s = "setWebsocketStep ReadExtendedPayloadlenU16 s"
    have "position st ?p (ctx ?s)"
      using 1 h assms(2) by (simp add: position_def)
    with extlenU16_outcome [of D st ?s ?p t] assms(1) 1 h assms(4) show ?thesis
      by (auto simp: d outcome_calls [of ?s s] dest: outcome_True)
  next
    case 2
    let ?s = "setWebsocketStep ReadExtendedPayloadlenI64 s"
    have "position st ?p (ctx ?s)"
      using 2 h assms(2) by (simp add: position_def)
    with extlenI64_outcome [of D st ?s ?p t] assms(1) 2 h assms(4) show ?thesis
      by (auto simp: d outcome_calls [of ?s s] dest: outcome_True)
  next
    case 3
    let ?s = "setWebsocketStep ReadMaskingkey s"
    have n: "Payloadlen h \<noteq> 126" "Payloadlen h \<noteq> 127" using 3 by auto
    have "need (ctx ?s) = unat (Payloadlen h)"
      using n by (simp add: need_def getRealDatalen_def h unat_ucast_7)
    then have "position st ?p (ctx ?s)"
      using n 3 h assms(2) by (simp add: position_def ext_size_def body_len_def)
    moreover have "payload_step h = ReadPayloadData" using n by (simp add: payload_step_def)
    ultimately show ?thesis
      using maskingkey_outcome [of D st ?s ?p t] assms(1,4) n 3 h m
      by (auto simp: d outcome_calls [of ?s s] dest: outcome_True)
  qed
qed

lemma header_outcome:
  assumes "base content invar D st s" and "position st p (ctx s)"
    and "wsStep (ctx s) = ReadFrameHeader" and "decode st (p @ content (inbuf s)) \<noteq> None"
  shows "\<exists>e s'. parse_frame_ReadFrameHeader V D t s = Inr (e, s') \<and>
    outcome D t st (p @ content (inbuf s)) s e s' \<and>
    (e \<longrightarrow> length (content (inbuf s')) < length (content (inbuf s))) \<and>
    (in_payload (ctx s') \<longrightarrow> wsStep (ctx s') = ReadPayloadData)"
proof -
  let ?c = "ctx s" let ?x = "content (inbuf s)"
  have e: "p = []" "cheader ?c = extended_header_zero" "getMessageType (dataMessage ?c) = atype st"
    using assms(2,3) by (auto simp: position_def Let_def)
  have inv: "invar (inbuf s)" using assms(1) by (simp add: base_def Let_def)
  show ?thesis
  proof (cases "length ?x < 2")
    case True
    then have "decode st (p @ ?x) = Some (st, [], p @ ?x)"
      using e(1) by (simp add: decode_short)
    then have "outcome D t st (p @ ?x) s False s"
      using assms by (intro outcome_wait) (auto simp: sim_def in_payload_def)
    with True assms(3) inv show ?thesis
      by (auto simp: parse_frame_ReadFrameHeader_def Let_def readable kHeaderLen_def in_payload_def)
  next
    case False
    then have "2 \<le> length ?x" by simp
    then obtain b0 b1 xs where x: "?x = b0 # b1 # xs" by (rule length_ge_2_cases)
    define h where "h = header_of_bytes b0 b1"
    have "decode st (b0 # b1 # xs) \<noteq> None" using assms(4) e(1) x by (simp only: append_Nil not_False_eq_True)
    then have acc: "accepts st h" unfolding h_def by (rule decode_Some_accepts)
    obtain buf1 where b: "vretrieve V (inbuf s) 2 = Inr buf1" "invar buf1" "content buf1 = xs"
      using retrieve [OF inv, of 2] x by auto
    have ph: "parse_frame_header V (inbuf s) = Inr (h, buf1)"
      using b(1) x inv by (simp add: parse_frame_header_def kHeaderLen_def peek h_def)
    let ?s1 = "s\<lparr>ctx := ?c\<lparr>cheader := set_header (cheader ?c) h\<rparr>, inbuf := buf1\<rparr>"
    have "base content invar D st ?s1"
      using assms(1) b(2) by (simp add: base_def Let_def)
    with validate_message_frame_ok [of D st ?s1] acc e(3)
    obtain c1 where c1: "validate_message_frame V D (ctx ?s1) = Inr c1"
        "base content invar D st (?s1\<lparr>ctx := c1\<rparr>)" "typed st h c1"
        "cheader c1 = set_header (cheader ?c) h" "wsStep c1 = ReadFrameHeader"
      using assms(3) by (auto simp: set_header_def)
    let ?s2 = "s\<lparr>ctx := c1, inbuf := buf1\<rparr>"
    have "base content invar D st ?s2" using c1(2) by (simp add: base_def Let_def)
    with update_step_outcome [of D st ?s2 h t] c1(3-5) e(2)
    obtain s' where s': "update_frame_body_parse_step V D t ?s2 = Inr s'"
        "outcome D t st (header_bytes h @ xs) ?s2 True s'" "length (content (inbuf s')) \<le> length xs"
        "in_payload (ctx s') \<longrightarrow> wsStep (ctx s') = ReadPayloadData"
      using b(3) by (auto simp: set_header_def)
    have "parse_frame_ReadFrameHeader V D t s = Inr (True, s')"
      using False assms(3) inv ph c1(1) s'(1)
      by (simp add: parse_frame_ReadFrameHeader_def Let_def readable kHeaderLen_def)
    moreover have "header_bytes h @ xs = p @ ?x"
      using header_bytes_of_bytes x e(1) by (simp add: h_def)
    ultimately show ?thesis
      using s' x by (auto simp: outcome_calls [of ?s2 s])
  qed
qed

end

section \<open>The loop\<close>

lemma pending_stuck:
  assumes "sim cont invar D st p s"
  shows "decode st p = Some (st, [], p)"
proof -
  let ?c = "ctx s" let ?h = "eh_header (cheader ?c)"
  have pos: "position st p ?c" using assms by (simp add: sim_def)
  show ?thesis
  proof (cases "in_payload ?c")
    case True
    with assms have "0 < need ?c" by (simp add: sim_def)
    with decode_payload [OF pos True, of "[]"] show ?thesis by simp
  next
    case False
    have w: "decode st (header_bytes ?h @ ex) = Some (st, [], header_bytes ?h @ ex)"
      if "typed st ?h ?c" "length ex = ext_size ?h \<or> ex = []" for ex
      using that by (intro decode_waiting) (auto simp: typed_def take_body_short)
    from False consider "p = []" | "typed st ?h ?c" "p = header_bytes ?h"
      | ex where "typed st ?h ?c" "length ex = ext_size ?h" "p = header_bytes ?h @ ex"
      using pos by (auto simp: position_def in_payload_def Let_def split: StepE.splits)
    then show ?thesis
      using w [of "[]"] w by cases simp_all
  qed
qed

definition tyok :: "('b \<Rightarrow> bytes) \<Rightarrow> FrameControlE \<Rightarrow> ('b, 'h) session \<Rightarrow> bool" where
  "tyok cont ty s \<longleftrightarrow> ty \<noteq> FrameInvalid \<and>
     (in_payload (ctx s) \<longrightarrow> ty = control_of (eh_header (cheader (ctx s))) \<or>
        wsStep (ctx s) = ReadPayloadData \<and> length (cont (inbuf s)) < need (ctx s))"

context bytes_buffer
begin

lemma stale_outcome:
  assumes "sim content invar D st p s" and "in_payload (ctx s)" and "ty \<noteq> FrameInvalid"
    and "wsStep (ctx s) = ReadPayloadData" and "length (content (inbuf s)) < need (ctx s)"
  shows "parse_frame_step V D t ty s = Inr (False, s) \<and>
    outcome D t st (p @ content (inbuf s)) s False s"
proof -
  have b: "base content invar D st s" "position st p (ctx s)" using assms(1) by (simp_all add: sim_def)
  then have hi: "handler (ctx s)" "invar (inbuf s)" by (auto simp: base_def Let_def)
  have "wsStep (ctx s) = payload_step (eh_header (cheader (ctx s)))"
    using b(2) assms(2) by (rule in_payload_position)
  then have "parse_frame_step V D t ty s = Inr (False, s)"
    using payload_dispatch [OF hi, of ty D t] assms(3-5) by auto
  moreover have "decode st (p @ content (inbuf s)) = Some (st, [], p @ content (inbuf s))"
    using decode_payload [OF b(2) assms(2)] assms(5) by simp
  then have "outcome D t st (p @ content (inbuf s)) s False s"
    using assms(1,5) unfolding outcome_def
    by (intro conjI exI [of _ st] exI [of _ p] exI [of _ "[]"]) auto
  ultimately show ?thesis by blast
qed

lemma step_outcome:
  assumes "sim content invar D st p s" and "tyok content ty s"
    and "decode st (p @ content (inbuf s)) \<noteq> None" and "content (inbuf s) \<noteq> []"
  shows "\<exists>e s'. parse_frame_step V D t ty s = Inr (e, s') \<and>
    outcome D t st (p @ content (inbuf s)) s e s' \<and>
    (e \<longrightarrow> length (content (inbuf s')) < length (content (inbuf s)) \<and> tyok content ty s')"
proof -
  let ?c = "ctx s"
  have b: "base content invar D st s" "position st p ?c" using assms(1) by (simp_all add: sim_def)
  have ty: "ty \<noteq> FrameInvalid" using assms(2) by (simp add: tyok_def)
  have w: "in_payload (ctx s') \<longrightarrow> length (content (inbuf s')) < need (ctx s')"
    if "outcome D t st x s e s'" for x e s' using that by (simp add: outcome_def)
  consider "in_payload ?c" | "wsStep ?c = ReadFrameHeader" | "wsStep ?c = ReadExtendedPayloadlenU16"
    | "wsStep ?c = ReadExtendedPayloadlenI64" | "wsStep ?c = ReadMaskingkey"
    by (cases "wsStep ?c") (auto simp: in_payload_def)
  then show ?thesis
  proof cases
    case 1
    then have n: "0 < need ?c" using assms(1) by (simp add: sim_def)
    show ?thesis
    proof (cases "ty = control_of (eh_header (cheader ?c))")
      case True
      then show ?thesis
        using payload_outcome [OF b 1, of ty t] n ty
        by (cases "length (content (inbuf s)) < need ?c") (auto simp: tyok_def in_payload_def)
    next
      case False
      then show ?thesis
        using stale_outcome [OF assms(1) 1 ty] assms(2) 1 by (auto simp: tyok_def)
    qed
  next
    case 2
    with header_outcome [OF b 2 assms(3), of t] w ty show ?thesis
      by (fastforce simp: parse_frame_step_def tyok_def)
  next
    case 3
    with extlenU16_outcome [OF b 3, of t] ty show ?thesis
      by (auto simp: parse_frame_step_def tyok_def)
  next
    case 4
    with extlenI64_outcome [OF b 4, of t] ty show ?thesis
      by (auto simp: parse_frame_step_def tyok_def)
  next
    case 5
    with maskingkey_outcome [OF b 5, of t] ty show ?thesis
      by (auto simp: parse_frame_step_def tyok_def in_payload_def)
  qed
qed

lemma loop_refines:
  assumes "sim content invar D st p s" and "tyok content ty s"
    and "decode st (p @ content (inbuf s)) = Some (st', evs, rest)"
    and "length (content (inbuf s)) \<le> fuel"
  shows "\<exists>s' p'. parse_frame_loop V D t ty fuel True s = Inr s' \<and>
    sim content invar D st' p' s' \<and> calls s' = calls s @ callbacks t evs \<and>
    rest = p' @ content (inbuf s')"
  using assms
proof (induction fuel arbitrary: st p s evs)
  case 0
  then have "decode st p = Some (st, [], p)" by (intro pending_stuck)
  with 0 show ?case
    by (auto simp: sim_def base_def Let_def readable)
next
  case (Suc fuel)
  have inv: "invar (inbuf s)" using Suc.prems(1) by (simp add: sim_def base_def Let_def)
  show ?case
  proof (cases "content (inbuf s) = []")
    case True
    then have "decode st p = Some (st, [], p)" using Suc.prems(1) by (intro pending_stuck)
    with True Suc.prems inv show ?thesis by (auto simp: readable)
  next
    case False
    have dn: "decode st (p @ content (inbuf s)) \<noteq> None" using Suc.prems(3) by simp
    obtain e s1 where s1: "parse_frame_step V D t ty s = Inr (e, s1)"
        "outcome D t st (p @ content (inbuf s)) s e s1"
        "e \<longrightarrow> length (content (inbuf s1)) < length (content (inbuf s)) \<and> tyok content ty s1"
      using step_outcome [OF Suc.prems(1,2) dn False, of t] by blast
    obtain st1 p1 evs1 where o: "sim content invar D st1 p1 s1"
        "calls s1 = calls s @ callbacks t evs1"
        "decode st (p @ content (inbuf s)) = prefix_events evs1 (decode st1 (p1 @ content (inbuf s1)))"
        "e \<or> decode st1 (p1 @ content (inbuf s1)) = Some (st1, [], p1 @ content (inbuf s1))"
      using s1(2) unfolding outcome_def by blast
    obtain evs2 where d: "decode st1 (p1 @ content (inbuf s1)) = Some (st', evs2, rest)"
        "evs = evs1 @ evs2"
      using Suc.prems(3) o(3) by (cases "decode st1 (p1 @ content (inbuf s1))") auto
    have l: "parse_frame_loop V D t ty (Suc fuel) True s = parse_frame_loop V D t ty fuel e s1"
      using False inv s1(1) by (simp add: readable parse_frame_loop_Suc)
    show ?thesis
    proof (cases e)
      case True
      then have "length (content (inbuf s1)) \<le> fuel" using s1(3) Suc.prems(4) by linarith
      with Suc.IH [OF o(1) _ d(1)] True s1(3) o(2) d(2) l show ?thesis by auto
    next
      case False
      with o d l show ?thesis by auto
    qed
  qed
qed

text \<open>\<open>parse_frame\<close> handles what \<open>decode\<close> reads from the bytes of the pending frame and of
  the input buffer.\<close>

lemma parse_frame_refines:
  assumes "sim content invar D st p s"
    and "decode st (p @ content (inbuf s)) = Some (st', evs, rest)"
  shows "\<exists>s' p'. parse_frame V D t s = Inr s' \<and> sim content invar D st' p' s' \<and>
    calls s' = calls s @ callbacks t evs \<and> rest = p' @ content (inbuf s')"
proof -
  let ?c = "ctx s" let ?h = "eh_header (cheader ?c)"
  have b: "base content invar D st s" "position st p ?c" using assms(1) by (simp_all add: sim_def)
  have m: "msg_holds content invar (dataMessage ?c) (adata st)"
      "msg_holds content invar (controlMessage ?c) []"
      "handler ?c" "invar (inbuf s)" using b(1) by (simp_all add: base_def Let_def)
  obtain d where d: "getMessageBuffer (dataMessage ?c) = Inr d"
    using m(1) by (rule msg_holds_getMessageBuffer)
  obtain k where k: "getMessageBuffer (controlMessage ?c) = Inr k"
    using m(2) by (rule msg_holds_getMessageBuffer)
  have "\<exists>ty r. get_frame_control_message_type ?h = Inr (ty, r) \<and> tyok content ty s"
  proof (cases "wsStep ?c = ReadFrameHeader")
    case True
    with b(2) show ?thesis
      by (simp add: position_def tyok_def in_payload_def extended_header_zero_def header_zero_def
          get_frame_control_message_type_def)
  next
    case False
    with b(2) have "accepts st ?h"
      by (auto simp: position_def typed_def Let_def split: StepE.splits)
    from control_of_accepted [OF this] show ?thesis by (auto simp: tyok_def)
  qed
  then obtain ty r where ty: "get_frame_control_message_type ?h = Inr (ty, r)" "tyok content ty s"
    by blast
  from loop_refines [OF assms(1) ty(2) assms(2), of "2 * vreadableBytes V (inbuf s) + 2" t] m(4)
  show ?thesis
    using d k ty(1) m(3) by (auto simp: parse_frame_def Let_def readable)
qed

end

end
