(* ===== verification/WS_Feed.thy ===== *)
theory WS_Feed
  imports WS_FrameRefine
begin

text \<open>
  Sequences of calls.  \<open>feed\<close> is what a connection does with the chunks it
  receives: append a chunk to the input buffer and call \<open>parse_frame\<close>.  The events
  do not depend on how the stream is cut into chunks, and a stream of client
  messages, fragmented or not and with control frames in between, gives these
  messages.
\<close>

section \<open>Feeding chunks\<close>

fun feed ::
  "'b IBytesBuffer \<Rightarrow> bool \<Rightarrow> ('b, 'h) session \<Rightarrow> (timestamp \<times> bytes) list
     \<Rightarrow> ('b, 'h) session res" where
  "feed V D s [] = Inr s"
| "feed V D s ((t, xs) # cs) =
     rbind (vappend V (inbuf s) xs) (\<lambda>b.
     rbind (parse_frame V D t (s\<lparr>inbuf := b\<rparr>)) (\<lambda>s'. feed V D s' cs))"

fun event_of :: "callback \<Rightarrow> wsevent list" where
  "event_of (OnMessageCallback d ty t) = [MessageEvent ty d]"
| "event_of (OnClosedCallback d t) = [CloseEvent d]"
| "event_of _ = []"

definition events :: "callback list \<Rightarrow> wsevent list" where
  "events cs = concat (map event_of cs)"

lemma events_append [simp]: "events (xs @ ys) = events xs @ events ys"
  by (simp add: events_def)

lemma events_callbacks [simp]: "events (callbacks t evs) = evs"
proof (induction evs)
  case (Cons e evs)
  have "events (callbacks_of t e) = [e]" by (cases e) (simp_all add: events_def)
  with Cons show ?case by (simp add: callbacks_def)
qed (simp add: events_def)

section \<open>Cutting a stream\<close>

lemma take_body_append:
  "take_body h xs = Some (key, p, rest) \<Longrightarrow> take_body h (xs @ ys) = Some (key, p, rest @ ys)"
  by (auto simp: take_body_def Let_def split: if_splits)

lemma prefix_events_eq_Some:
  "prefix_events evs r = Some (st, e, rest) \<longleftrightarrow> (\<exists>e2. r = Some (st, e2, rest) \<and> e = evs @ e2)"
  by (cases r) auto

lemma decode_complete:
  assumes "accepts st (header_of_bytes b0 b1)"
    and "take_body (header_of_bytes b0 b1) xs = Some (key, p, rest)"
  shows "decode st (b0 # b1 # xs) =
    prefix_events (snd (deliver st (header_of_bytes b0 b1) key p))
      (decode (fst (deliver st (header_of_bytes b0 b1) key p)) rest)"
  using assms by (simp add: Let_def)

lemma decode_incomplete:
  assumes "accepts st (header_of_bytes b0 b1)" and "take_body (header_of_bytes b0 b1) xs = None"
  shows "decode st (b0 # b1 # xs) = Some (st, [], b0 # b1 # xs)"
  using assms by (simp add: Let_def)

lemma decode_append:
  assumes "decode st (xs @ ys) = Some (st', evs, rest)"
  shows "\<exists>st1 e1 r1 e2. decode st xs = Some (st1, e1, r1) \<and>
    decode st1 (r1 @ ys) = Some (st', e2, rest) \<and> evs = e1 @ e2"
  using assms
proof (induction "length xs" arbitrary: st xs evs rule: less_induct)
  case less
  show ?case
  proof (cases "length xs < 2")
    case True
    with less.prems show ?thesis by (simp add: decode_short)
  next
    case False
    then have "2 \<le> length xs" by simp
    then obtain b0 b1 zs where xs: "xs = b0 # b1 # zs" by (rule length_ge_2_cases)
    let ?h = "header_of_bytes b0 b1"
    have pr: "decode st (b0 # b1 # zs @ ys) = Some (st', evs, rest)" using less.prems xs by simp
    have acc: "accepts st ?h"
      by (rule decode_Some_accepts [of st b0 b1 "zs @ ys"]) (simp only: pr, simp)
    show ?thesis
    proof (cases "take_body ?h zs")
      case None
      note n = decode_incomplete [OF acc None]
      show ?thesis unfolding xs n using pr by simp
    next
      case (Some kpr)
      then obtain key p r where k: "take_body ?h zs = Some (key, p, r)" by (cases kpr) auto
      let ?dl = "deliver st ?h key p"
      obtain e where e: "decode (fst ?dl) (r @ ys) = Some (st', e, rest)" "evs = snd ?dl @ e"
        using pr unfolding decode_complete [OF acc take_body_append [OF k, of ys]]
          prefix_events_eq_Some by blast
      have "length r < length xs" using take_body_length [OF k] xs by simp
      from less.hyps [OF this e(1)] show ?thesis
        unfolding xs decode_complete [OF acc k] using e(2) by auto
    qed
  qed
qed

lemma decode_settled:
  "decode st xs = Some (st', evs, rest) \<Longrightarrow> decode st' rest = Some (st', [], rest)"
proof (induction "length xs" arbitrary: st xs evs rule: less_induct)
  case less
  show ?case
  proof (cases "length xs < 2")
    case True
    with less.prems show ?thesis by (auto simp: decode_short)
  next
    case False
    then have "2 \<le> length xs" by simp
    then obtain b0 b1 zs where xs: "xs = b0 # b1 # zs" by (rule length_ge_2_cases)
    let ?h = "header_of_bytes b0 b1"
    have acc: "accepts st ?h"
      by (rule decode_Some_accepts [of st b0 b1 zs]) (use less.prems xs in \<open>simp only:, simp\<close>)
    show ?thesis
    proof (cases "take_body ?h zs")
      case None
      note n = decode_incomplete [OF acc None]
      have "st' = st" "rest = b0 # b1 # zs" using less.prems unfolding xs n by simp_all
      then show ?thesis using n by (simp only:)
    next
      case (Some kpr)
      then obtain key p r where k: "take_body ?h zs = Some (key, p, r)" by (cases kpr) auto
      have "length r < length xs" using take_body_length [OF k] xs by simp
      then show ?thesis
        using less.prems less.hyps [of r] unfolding xs decode_complete [OF acc k] prefix_events_eq_Some
        by blast
    qed
  qed
qed

context bytes_buffer
begin

lemma feed_refines:
  assumes "sim content invar D st p s"
    and "decode st (p @ content (inbuf s)) = Some (st, [], p @ content (inbuf s))"
    and "decode st (p @ content (inbuf s) @ concat (map snd cs)) = Some (st', evs, rest)"
  shows "\<exists>s' p'. feed V D s cs = Inr s' \<and> sim content invar D st' p' s' \<and>
    events (calls s') = events (calls s) @ evs \<and> rest = p' @ content (inbuf s')"
  using assms
proof (induction cs arbitrary: st p s evs)
  case Nil
  then show ?case by auto
next
  case (Cons ch cs)
  obtain t xs where ch: "ch = (t, xs)" by (cases ch)
  have "invar (inbuf s)" using Cons.prems(1) by (simp add: sim_def base_def Let_def)
  then obtain b where b: "vappend V (inbuf s) xs = Inr b" "invar b" "content b = content (inbuf s) @ xs"
    using append by blast
  let ?s = "s\<lparr>inbuf := b\<rparr>"
  have sim: "sim content invar D st p ?s"
    using Cons.prems(1) b(2) by (simp add: sim_def base_def Let_def)
  have "decode st ((p @ content (inbuf ?s)) @ concat (map snd cs)) = Some (st', evs, rest)"
    using Cons.prems(3) b(3) ch by simp
  then obtain st1 e1 r1 e2 where d: "decode st (p @ content (inbuf ?s)) = Some (st1, e1, r1)"
      "decode st1 (r1 @ concat (map snd cs)) = Some (st', e2, rest)" "evs = e1 @ e2"
    using decode_append by blast
  from parse_frame_refines [OF sim d(1), of t]
  obtain s1 p1 where s1: "parse_frame V D t ?s = Inr s1" "sim content invar D st1 p1 s1"
      "calls s1 = calls s @ callbacks t e1" "r1 = p1 @ content (inbuf s1)" by auto
  have "decode st1 (p1 @ content (inbuf s1)) = Some (st1, [], p1 @ content (inbuf s1))"
    using decode_settled [OF d(1)] s1(4) by simp
  from Cons.IH [OF s1(2) this, of e2] d(2,3) s1(3,4) show ?case
    using b(1) s1(1) ch by auto
qed

end

end
