(* ===== verification/WS_Client.thy ===== *)
theory WS_Client
  imports WS_Feed WS_Buffer
begin

text \<open>
  The streams a client sends: masked frames as RFC 6455 lays them out, whole
  messages cut into fragments, and control frames between the fragments.  On the
  buffers of \<^verbatim>\<open>muduo\<close> the parser turns such a stream, cut into chunks in any way,
  into the messages.

  The parser combines byte \<open>i\<close> of the message, not of the frame, with byte
  \<open>i mod 4\<close> of the frame's key (\<open>delivered\<close>): the application reads what the client
  wrote (\<open>sent_events\<close>) when the fragments but the last have a multiple of four
  bytes (\<open>aligned\<close>), and with another fragmentation it reads other bytes.
\<close>

section \<open>Frames\<close>

definition client_header :: "FinE \<Rightarrow> OpcodeE \<Rightarrow> nat \<Rightarrow> header_t" where
  "client_header fin x n =
     \<lparr>opcode = x, RSV3 = False, RSV2 = False, RSV1 = False, FIN = fin,
      Payloadlen = (if n < 126 then of_nat n else if n < 65536 then 126 else 127), MASK = True\<rparr>"

definition extended_length :: "nat \<Rightarrow> bytes" where
  "extended_length n = (if n < 126 then [] else if n < 65536 then nat_be 2 n else nat_be 8 n)"

definition client_frame :: "FinE \<Rightarrow> OpcodeE \<Rightarrow> bytes \<Rightarrow> bytes \<Rightarrow> bytes" where
  "client_frame fin x key payload =
     header_bytes (client_header fin x (length payload)) @ extended_length (length payload) @
     key @ mask_from 0 key payload"

lemma Payloadlen_client_header:
  "n < 126 \<Longrightarrow> Payloadlen (client_header fin x n) < 126 \<and> unat (Payloadlen (client_header fin x n)) = n"
  "126 \<le> n \<Longrightarrow> \<not> Payloadlen (client_header fin x n) < 126"
  by (simp_all add: client_header_def word_less_nat_alt unat_of_nat)

lemma client_header_sel [simp]:
  "opcode (client_header fin x n) = x" "FIN (client_header fin x n) = fin"
  "MASK (client_header fin x n)"
  by (simp_all add: client_header_def)

lemma client_ext_size: "length (extended_length n) = ext_size (client_header fin x n)"
proof (cases "n < 126")
  case True
  then have "Payloadlen (client_header fin x n) \<noteq> 126" "Payloadlen (client_header fin x n) \<noteq> 127"
    using Payloadlen_client_header(1) [OF True, of fin x] by auto
  with True show ?thesis by (simp add: extended_length_def ext_size_def)
next
  case False
  then show ?thesis by (simp add: extended_length_def ext_size_def client_header_def)
qed

lemma client_body_len:
  assumes "n < 2 ^ 64"
  shows "body_len (client_header fin x n) (extended_length n) = n"
proof (cases "n < 126")
  case True
  with Payloadlen_client_header(1) [OF True, of fin x] show ?thesis by (simp add: body_len_def)
next
  case False
  with Payloadlen_client_header(2) [of n fin x] assms show ?thesis
    by (simp add: body_len_def extended_length_def be_nat_nat_be)
qed

lemma decode_client_frame:
  assumes "accepts st (client_header fin x (length pl))" and "length key = 4" and "length pl < 2 ^ 64"
  shows "decode st (client_frame fin x key pl @ xs) =
    (let dl = deliver st (client_header fin x (length pl)) key (mask_from 0 key pl)
     in prefix_events (snd dl) (decode (fst dl) xs))"
proof -
  let ?h = "client_header fin x (length pl)" and ?ex = "extended_length (length pl)"
  have "take_body ?h (?ex @ key @ mask_from 0 key pl @ xs) = Some (key, mask_from 0 key pl, xs)"
    unfolding take_body_split [OF client_ext_size assms(2)] client_body_len [OF assms(3)] by simp
  with decode_header [OF assms(1), of "?ex @ key @ mask_from 0 key pl @ xs"] show ?thesis
    by (simp add: client_frame_def Let_def)
qed

section \<open>Messages\<close>

type_synonym control = "OpcodeE \<times> bytes \<times> bytes"
type_synonym fragment = "control list \<times> bytes \<times> bytes"

definition control_bytes :: "control list \<Rightarrow> bytes" where
  "control_bytes cs = concat (map (\<lambda>(x, key, pl). client_frame FrameFinished x key pl) cs)"

definition control_events :: "control list \<Rightarrow> wsevent list" where
  "control_events cs = map (\<lambda>(x, key, pl). MessageEvent x pl) cs"

fun control_ok :: "control \<Rightarrow> bool" where
  "control_ok (x, key, pl) \<longleftrightarrow>
     (x = PingMessage \<or> x = PongMessage) \<and> length key = 4 \<and> length pl < 126"

text \<open>A message as fragments, each with the control frames sent before it.\<close>

fun message_bytes :: "OpcodeE \<Rightarrow> fragment list \<Rightarrow> bytes" where
  "message_bytes x [] = []"
| "message_bytes x [(cs, key, pl)] = control_bytes cs @ client_frame FrameFinished x key pl"
| "message_bytes x ((cs, key, pl) # f # fs) =
     control_bytes cs @ client_frame FrameContinue x key pl @ message_bytes SegmentMessage (f # fs)"

definition sent_message :: "OpcodeE \<Rightarrow> fragment list \<Rightarrow> wsevent list" where
  "sent_message ty fs = concat (map (\<lambda>(cs, key, pl). control_events cs) fs) @
     [MessageEvent ty (concat (map (\<lambda>(cs, key, pl). pl) fs))]"

text \<open>What the parser makes of the masked payloads: the bytes of a fragment that
  starts at offset \<open>length acc\<close> of the message are unmasked from that offset on.\<close>

fun delivered :: "bytes \<Rightarrow> fragment list \<Rightarrow> bytes" where
  "delivered acc [] = acc"
| "delivered acc ((cs, key, pl) # fs) =
     delivered (acc @ mask_from (length acc) key (mask_from 0 key pl)) fs"

definition message_events :: "OpcodeE \<Rightarrow> fragment list \<Rightarrow> wsevent list" where
  "message_events ty fs = concat (map (\<lambda>(cs, key, pl). control_events cs) fs) @
     [MessageEvent ty (delivered [] fs)]"

fun aligned :: "OpcodeE \<times> fragment list \<Rightarrow> bool" where
  "aligned (ty, fs) \<longleftrightarrow> list_all (\<lambda>(cs, key, pl). length pl mod 4 = 0) (butlast fs)"

fun fragments_ok :: "fragment list \<Rightarrow> bool" where
  "fragments_ok [] \<longleftrightarrow> False"
| "fragments_ok [(cs, key, pl)] \<longleftrightarrow> list_all control_ok cs \<and> length key = 4 \<and> length pl < 2 ^ 64"
| "fragments_ok ((cs, key, pl) # f # fs) \<longleftrightarrow>
     list_all control_ok cs \<and> length key = 4 \<and> length pl < 2 ^ 64 \<and> fragments_ok (f # fs)"

fun message_ok :: "OpcodeE \<times> fragment list \<Rightarrow> bool" where
  "message_ok (ty, fs) \<longleftrightarrow> (ty = TextMessage \<or> ty = BinaryMessage) \<and> fragments_ok fs"

definition stream_bytes :: "(OpcodeE \<times> fragment list) list \<Rightarrow> bytes" where
  "stream_bytes ms = concat (map (\<lambda>(ty, fs). message_bytes ty fs) ms)"

definition stream_events :: "(OpcodeE \<times> fragment list) list \<Rightarrow> wsevent list" where
  "stream_events ms = concat (map (\<lambda>(ty, fs). message_events ty fs) ms)"

definition sent_events :: "(OpcodeE \<times> fragment list) list \<Rightarrow> wsevent list" where
  "sent_events ms = concat (map (\<lambda>(ty, fs). sent_message ty fs) ms)"

lemma delivered_aligned:
  assumes "length acc mod 4 = 0" and "list_all (\<lambda>(cs, key, pl). length pl mod 4 = 0) (butlast fs)"
  shows "delivered acc fs = acc @ concat (map (\<lambda>(cs, key, pl). pl) fs)"
  using assms
proof (induction acc fs rule: delivered.induct)
  case (2 acc cs key pl fs)
  have m: "mask_from (length acc) key (mask_from 0 key pl) = pl"
    using mask_from_shift [of "length acc" 0 key] 2(2) by simp
  show ?case
  proof (cases fs)
    case (Cons f gs)
    with 2(2,3) have "length (acc @ pl) mod 4 = 0" by (simp add: mod_add_eq [symmetric])
    with 2 Cons m show ?thesis by simp
  qed (simp add: m)
qed simp

lemma aligned_stream: "list_all aligned ms \<Longrightarrow> stream_events ms = sent_events ms"
  by (induction ms)
    (auto simp: stream_events_def sent_events_def message_events_def sent_message_def delivered_aligned)

section \<open>Decoding messages\<close>

lemma decode_controls:
  "list_all control_ok cs \<Longrightarrow>
     decode st (control_bytes cs @ xs) = prefix_events (control_events cs) (decode st xs)"
proof (induction cs)
  case (Cons c cs)
  obtain x key pl where c: "c = (x, key, pl)" by (cases c)
  have ok: "x = PingMessage \<or> x = PongMessage" "length key = 4" "length pl < 126"
    using Cons.prems c by simp_all
  have "accepts st (client_header FrameFinished x (length pl))"
    using ok Payloadlen_client_header(1) [OF ok(3)]
    by (auto simp: accepts_def is_control_def is_data_def)
  note d = decode_client_frame [OF this ok(2)]
  have "deliver st (client_header FrameFinished x (length pl)) key (mask_from 0 key pl) =
      (st, [MessageEvent x pl])"
    using ok(1) by (auto simp: deliver_def is_data_def)
  with Cons d ok(3) show ?case
    by (simp add: c control_bytes_def control_events_def)
qed (simp add: control_bytes_def control_events_def)

lemma deliver_fragment:
  assumes "x = ty \<and> (ty = TextMessage \<or> ty = BinaryMessage) \<and> \<not> inmsg st \<or>
      x = SegmentMessage \<and> inmsg st \<and> atype st = ty"
  shows "accepts st (client_header fin x n)"
    and "deliver st (client_header fin x n) key (mask_from 0 key pl) =
      (if fin = FrameFinished
       then (st\<lparr>adata := [], atype := ty, inmsg := False\<rparr>, [MessageEvent ty (delivered (adata st) [(cs, key, pl)])])
       else (st\<lparr>adata := delivered (adata st) [(cs, key, pl)], atype := ty, inmsg := True\<rparr>, []))"
proof -
  show "accepts st (client_header fin x n)"
    using assms by (auto simp: accepts_def is_data_def)
  have "header_type st (client_header fin x n) = ty" "is_data x"
    using assms by (auto simp: header_type_def is_data_def)
  then show "deliver st (client_header fin x n) key (mask_from 0 key pl) =
      (if fin = FrameFinished
       then (st\<lparr>adata := [], atype := ty, inmsg := False\<rparr>, [MessageEvent ty (delivered (adata st) [(cs, key, pl)])])
       else (st\<lparr>adata := delivered (adata st) [(cs, key, pl)], atype := ty, inmsg := True\<rparr>, []))"
    by (simp add: deliver_def Let_def)
qed

lemma decode_fragments:
  assumes "fragments_ok fs"
    and "x = ty \<and> (ty = TextMessage \<or> ty = BinaryMessage) \<and> \<not> inmsg st \<or>
      x = SegmentMessage \<and> inmsg st \<and> atype st = ty"
  shows "decode st (message_bytes x fs @ xs) =
    prefix_events (concat (map (\<lambda>(cs, key, pl). control_events cs) fs) @
        [MessageEvent ty (delivered (adata st) fs)])
      (decode (st\<lparr>adata := [], atype := ty, inmsg := False\<rparr>) xs)"
  using assms
proof (induction x fs arbitrary: st rule: message_bytes.induct)
  case (2 x cs key pl)
  note d = deliver_fragment(1) [OF 2(2)] deliver_fragment(2) [OF 2(2), where cs = cs]
  show ?case
    using 2(1) decode_client_frame [OF d(1)]
    by (simp add: decode_controls d(2) Let_def)
next
  case (3 x cs key pl f fs)
  note d = deliver_fragment(1) [OF 3(3)] deliver_fragment(2) [OF 3(3), where cs = cs]
  let ?st = "st\<lparr>adata := delivered (adata st) [(cs, key, pl)], atype := ty, inmsg := True\<rparr>"
  note ih = 3(1) [of ?st]
  show ?case
    using 3(2) decode_client_frame [OF d(1)] ih
    by (simp add: decode_controls d(2) Let_def)
qed simp

lemma decode_stream:
  assumes "list_all message_ok ms" and "\<not> inmsg st" and "adata st = []"
  shows "\<exists>ty. decode st (stream_bytes ms) = Some (st\<lparr>atype := ty\<rparr>, stream_events ms, []) \<and>
    (ty = atype st \<or> ty = TextMessage \<or> ty = BinaryMessage)"
  using assms
proof (induction ms arbitrary: st)
  case Nil
  then show ?case
    by (intro exI [of _ "atype st"]) (simp add: stream_bytes_def stream_events_def)
next
  case (Cons m ms)
  obtain ty fs where m: "m = (ty, fs)" by (cases m)
  let ?st = "st\<lparr>adata := [], atype := ty, inmsg := False\<rparr>"
  have ok: "ty = TextMessage \<or> ty = BinaryMessage" "fragments_ok fs"
    using Cons.prems(1) m by simp_all
  have "decode st (message_bytes ty fs @ stream_bytes ms) =
      prefix_events (message_events ty fs) (decode ?st (stream_bytes ms))"
    using decode_fragments [OF ok(2), of ty ty st "stream_bytes ms"] ok(1) Cons.prems
    by (simp add: message_events_def)
  moreover obtain ty2 where "decode ?st (stream_bytes ms) = Some (?st\<lparr>atype := ty2\<rparr>, stream_events ms, [])"
      "ty2 = ty \<or> ty2 = TextMessage \<or> ty2 = BinaryMessage"
    using Cons.IH [of ?st] Cons.prems by auto
  moreover have "?st\<lparr>atype := ty2\<rparr> = st\<lparr>atype := ty2\<rparr>" using Cons.prems by simp
  ultimately show ?case using ok(1)
    by (auto simp: m stream_bytes_def stream_events_def)
qed

section \<open>Sessions between messages\<close>

text \<open>An established connection that waits for a new message.\<close>

definition idle_session :: "(Buffer, 'h) session \<Rightarrow> bool" where
  "idle_session s \<longleftrightarrow>
     (let c = ctx s; dm = dataMessage c; cm = controlMessage c in
      handler c \<and> wsState c = kConnected \<and> wsStep c = ReadFrameHeader \<and>
      cheader c = extended_header_zero \<and>
      buffer_inv (inbuf s) \<and> content (inbuf s) = [] \<and>
      msg_holds content buffer_inv dm [] \<and> msg_holds content buffer_inv cm [] \<and>
      (getMessageType dm = TextMessage \<or> getMessageType dm = BinaryMessage) \<and>
      (\<forall>f \<in> set (frameHeaders (messageHeader dm)). frameControlType f = UnControlFrame) \<and>
      frameHeaders (messageHeader cm) = [])"

definition idle_state :: "(Buffer, 'h) session \<Rightarrow> astate" where
  "idle_state s = \<lparr>adata = [], atype = getMessageType (dataMessage (ctx s)), inmsg = False,
     closed = False\<rparr>"

lemma idle_sim:
  "idle_session s \<Longrightarrow> sim content buffer_inv D (idle_state s) [] s \<and> content (inbuf s) = []"
  by (auto simp: idle_session_def idle_state_def sim_def base_def position_def in_payload_def Let_def)

lemma sim_idle:
  assumes "sim content buffer_inv D st p s" and "p @ content (inbuf s) = []"
    and "\<not> inmsg st" and "\<not> closed st"
  shows "idle_session s"
proof -
  have p: "p = []" "content (inbuf s) = []" using assms(2) by auto
  have "header_bytes h \<noteq> []" "[] \<noteq> header_bytes h" for h by (simp_all add: header_bytes_def)
  with assms(1) p have "wsStep (ctx s) = ReadFrameHeader"
    by (auto simp: sim_def position_def Let_def split: StepE.splits)
  with assms p show ?thesis
    by (auto simp: idle_session_def sim_def base_def position_def Let_def)
qed

text \<open>The decoder describes an idle session fed any chunks.\<close>

lemma feed_decode:
  assumes "idle_session s"
    and "decode (idle_state s) (concat (map snd cs)) = Some (st, evs, rest)"
  shows "\<exists>s' p. feed Buffer_vtable D s cs = Inr s' \<and> sim content buffer_inv D st p s' \<and>
    events (calls s') = events (calls s) @ evs \<and> rest = p @ content (inbuf s')"
  using idle_sim [OF assms(1), of D] assms(2)
  by (intro mb.feed_refines) auto

section \<open>Properties\<close>


definition demo_session :: "(Buffer, unit) session" where
  "demo_session =
     \<lparr>ctx = \<lparr>wsStep = ReadFrameHeader, wsState = kConnected, wsEndian = LittleEndian,
        cheader = extended_header_zero,
        dataMessage = (Message_ctor TextMessage)\<lparr>messageBuffer := Some (Buffer_ctor 4)\<rparr>,
        controlMessage = (Message_ctor CloseMessage)\<lparr>messageBuffer := Some (Buffer_ctor 0)\<rparr>,
        httpContext = None, handler = True\<rparr>,
      inbuf = Buffer_ctor 2, calls = []\<rparr>"

lemma demo_session_idle: "idle_session demo_session"
  by (simp add: idle_session_def demo_session_def Message_ctor_def msg_holds_def Buffer_ctor_ok
      getMessageType_def)

definition demo_stream :: "(OpcodeE \<times> fragment list) list" where
  "demo_stream =
     [(TextMessage, [([], [1, 2, 3, 4], [72, 101, 108, 108]),
                     ([(PingMessage, [9, 9, 9, 9], [7])], [5, 6, 7, 8], [111])]),
      (BinaryMessage, [([], [0, 1, 0, 1], [])])]"

definition demo_misaligned :: "(OpcodeE \<times> fragment list) list" where
  "demo_misaligned = [(TextMessage, [([], [1, 2, 3, 4], [72]), ([], [5, 6, 7, 8], [105])])]"


text \<open>
  C2.  Chunk independence.  Two ways of cutting the same bytes into chunks give the
  same events, for every stream of acceptable frames, whole or not.
\<close>

theorem chunk_independence:
  assumes "idle_session s" and "decode (idle_state s) (concat (map snd cs)) \<noteq> None"
    and "concat (map snd cs) = concat (map snd cs')"
  shows "\<exists>s1 s2. feed Buffer_vtable D s cs = Inr s1 \<and> feed Buffer_vtable D' s cs' = Inr s2 \<and>
    events (calls s1) = events (calls s2)"
proof -
  obtain st evs rest where d: "decode (idle_state s) (concat (map snd cs)) = Some (st, evs, rest)"
    using assms(2) by auto
  obtain s1 where "feed Buffer_vtable D s cs = Inr s1" "events (calls s1) = events (calls s) @ evs"
    using feed_decode [OF assms(1) d, of D] by blast
  moreover obtain s2 where "feed Buffer_vtable D' s cs' = Inr s2"
      "events (calls s2) = events (calls s) @ evs"
    using feed_decode [OF assms(1) d [unfolded assms(3)], of D'] by blast
  ultimately show ?thesis by auto
qed

lemma chunk_independence_witness:
  "\<exists>s1 s2. feed Buffer_vtable True demo_session [(1, [0x81]), (2, [0x81, 1, 2]), (3, [3, 4, 73, 0x89])] = Inr s1 \<and>
     feed Buffer_vtable False demo_session [(5, [0x81, 0x81, 1, 2, 3, 4, 73, 0x89])] = Inr s2 \<and>
     events (calls s1) = events (calls s2)"
  by (rule chunk_independence [OF demo_session_idle]) (code_simp, simp)

end
