(* ===== verification/WS_Pack.thy ===== *)
theory WS_Pack
  imports WS_Client
begin

text \<open>
  The frames the server sends: \<^verbatim>\<open>pack_unmask_*\<close> of \<^verbatim>\<open>websocket.cc\<close>.  \<^verbatim>\<open>char const* data\<close>
  is \<open>None\<close> for a null pointer; \<^verbatim>\<open>size_t len\<close> is a natural number.  The functions
  append to a buffer of the contract \<open>bytes_buffer\<close>.
\<close>

section \<open>Headers\<close>

definition pack_header :: "OpcodeE \<Rightarrow> FinE \<Rightarrow> nat \<Rightarrow> header_t" where
  "pack_header x fin n =
     header_zero\<lparr>opcode := x, FIN := fin, Payloadlen := of_nat n, MASK := False\<rparr>"

definition pack_unmask_uncontrol_frame_header ::
  "'b IBytesBuffer \<Rightarrow> 'b \<Rightarrow> OpcodeE \<Rightarrow> FinE \<Rightarrow> nat \<Rightarrow> (header_t \<times> 'b) res" where
  "pack_unmask_uncontrol_frame_header V buf x fin n =
     require Websocket_cc 1561 (n \<le> 127)
     (let h = pack_header x fin n in
      rbind (validate_uncontrol_frame_header h) (\<lambda>_.
      rbind (vappend V buf (header_bytes h)) (\<lambda>buf'. Inr (h, buf'))))"

definition pack_unmask_control_frame_header ::
  "'b IBytesBuffer \<Rightarrow> 'b \<Rightarrow> OpcodeE \<Rightarrow> FinE \<Rightarrow> nat \<Rightarrow> (header_t \<times> 'b) res" where
  "pack_unmask_control_frame_header V buf x fin n =
     require Websocket_cc 1590 (n \<le> 127)
     (let h = pack_header x fin n in
      rbind (validate_control_frame_header h) (\<lambda>_.
      rbind (vappend V buf (header_bytes h)) (\<lambda>buf'. Inr (h, buf'))))"

section \<open>Frames\<close>

text \<open>The lengths: \<^verbatim>\<open>(int16_t)Endian::hostToNetwork64(len)\<close> keeps the low 16 bits and
  extends their sign to the \<^verbatim>\<open>int64_t\<close> that is appended.\<close>

definition pack_Payloadlen :: "nat \<Rightarrow> nat" where
  "pack_Payloadlen len = (if len < 126 then len else if len \<le> 65535 then 126 else 127)"

definition pack_ExtendedPayloadlenU16 :: "nat \<Rightarrow> 16 word" where
  "pack_ExtendedPayloadlenU16 len =
     (if 126 \<le> len \<and> len \<le> 65535 then hostToNetwork16 (of_nat len) else 0)"

definition pack_ExtendedPayloadlenI64 :: "nat \<Rightarrow> 64 word" where
  "pack_ExtendedPayloadlenI64 len =
     (if len \<le> 65535 then 0
      else scast (ucast (hostToNetwork64 (of_nat len)) :: 16 word))"

definition append_data :: "'b IBytesBuffer \<Rightarrow> 'b \<Rightarrow> bytes option \<Rightarrow> nat \<Rightarrow> 'b res" where
  "append_data V buf data len =
     (case data of
        None \<Rightarrow> Inr buf
      | Some xs \<Rightarrow> if len > 0 then vappend V buf (take len xs) else Inr buf)"

definition pack_unmask_uncontrol_frame ::
  "'b IBytesBuffer \<Rightarrow> 'b \<Rightarrow> bytes option \<Rightarrow> nat \<Rightarrow> OpcodeE \<Rightarrow> FinE \<Rightarrow> (header_t \<times> 'b) res" where
  "pack_unmask_uncontrol_frame V buf data len x fin =
     rbind (pack_unmask_uncontrol_frame_header V buf x fin (pack_Payloadlen len)) (\<lambda>(h, buf1).
     rbind (if pack_Payloadlen len = 126 then vappend V buf1 (mem16 (pack_ExtendedPayloadlenU16 len))
            else if pack_Payloadlen len = 127 then vappend V buf1 (mem64 (pack_ExtendedPayloadlenI64 len))
            else Inr buf1) (\<lambda>buf2.
     rbind (if MASK h then vappend V buf2 [0, 0, 0, 0] else Inr buf2) (\<lambda>buf3.
     rbind (append_data V buf3 data len) (\<lambda>buf4. Inr (h, buf4)))))"

definition pack_unmask_control_frame ::
  "'b IBytesBuffer \<Rightarrow> 'b \<Rightarrow> bytes option \<Rightarrow> nat \<Rightarrow> OpcodeE \<Rightarrow> FinE \<Rightarrow> (header_t \<times> 'b) res" where
  "pack_unmask_control_frame V buf data len x fin =
     rbind (pack_unmask_control_frame_header V buf x fin (pack_Payloadlen len)) (\<lambda>(h, buf1).
     rbind (if pack_Payloadlen len = 126 then vappend V buf1 (mem16 (pack_ExtendedPayloadlenU16 len))
            else if pack_Payloadlen len = 127 then Inl (AssertFail Websocket_cc 1691)
            else Inr buf1) (\<lambda>buf2.
     rbind (if MASK h then vappend V buf2 [0, 0, 0, 0] else Inr buf2) (\<lambda>buf3.
     rbind (append_data V buf3 data len) (\<lambda>buf4. Inr (h, buf4)))))"

text \<open>The \<^verbatim>\<open>while (left > 0)\<close> loop over the chunks after the first; \<open>xs\<close> is what
  \<^verbatim>\<open>data + n\<close> points at.  It runs at most \<^verbatim>\<open>left\<close> times when \<^verbatim>\<open>chunksz > 0\<close>.\<close>

fun pack_chunk_loop ::
  "'b IBytesBuffer \<Rightarrow> nat \<Rightarrow> nat \<Rightarrow> bytes \<Rightarrow> nat \<Rightarrow> 'b \<Rightarrow> 'b res" where
  "pack_chunk_loop V chunksz fuel xs left buf =
     (if left = 0 then Inr buf
      else case fuel of
        0 \<Rightarrow> Inl OutOfFuel
      | Suc k \<Rightarrow>
          (if left > chunksz then
             rbind (pack_unmask_uncontrol_frame V buf (Some xs) chunksz SegmentMessage FrameContinue)
               (\<lambda>(_, buf'). pack_chunk_loop V chunksz k (drop chunksz xs) (left - chunksz) buf')
           else
             rbind (pack_unmask_uncontrol_frame V buf (Some xs) left SegmentMessage FrameFinished)
               (\<lambda>(_, buf'). Inr buf')))"

declare pack_chunk_loop.simps [simp del]

definition pack_unmask_data_frame_chunk ::
  "'b IBytesBuffer \<Rightarrow> 'b \<Rightarrow> bytes \<Rightarrow> nat \<Rightarrow> MessageE \<Rightarrow> nat \<Rightarrow> 'b res" where
  "pack_unmask_data_frame_chunk V buf data len ty chunksz =
     require Websocket_cc 1851 (len > chunksz)
     (require Websocket_cc 1852 (ty = TextMessage \<or> ty = BinaryMessage)
     (rbind (pack_unmask_uncontrol_frame V buf (Some data) chunksz ty FrameContinue) (\<lambda>(_, buf1).
      pack_chunk_loop V chunksz len (drop chunksz data) (len - chunksz) buf1)))"

datatype MessageT = TyTextMessage | TyBinaryMessage

definition pack_unmask_data_frame ::
  "'b IBytesBuffer \<Rightarrow> 'b \<Rightarrow> bytes \<Rightarrow> nat \<Rightarrow> MessageT \<Rightarrow> bool \<Rightarrow> 'b res" where
  "pack_unmask_data_frame V buf data len msgType chunk =
     (let ty = (if msgType = TyTextMessage then TextMessage else BinaryMessage) in
      if chunk \<and> len > 1024 then pack_unmask_data_frame_chunk V buf data len ty 1024
      else rbind (pack_unmask_uncontrol_frame V buf (Some data) len ty FrameFinished)
             (\<lambda>(_, buf'). Inr buf'))"

definition pack_unmask_close_frame ::
  "'b IBytesBuffer \<Rightarrow> 'b \<Rightarrow> bytes option \<Rightarrow> nat \<Rightarrow> 'b res" where
  "pack_unmask_close_frame V buf data len =
     rbind (pack_unmask_control_frame V buf data len CloseMessage FrameFinished) (\<lambda>(_, buf'). Inr buf')"

definition pack_unmask_ping_frame ::
  "'b IBytesBuffer \<Rightarrow> 'b \<Rightarrow> bytes option \<Rightarrow> nat \<Rightarrow> 'b res" where
  "pack_unmask_ping_frame V buf data len =
     rbind (pack_unmask_control_frame V buf data len PingMessage FrameFinished) (\<lambda>(_, buf'). Inr buf')"

definition pack_unmask_pong_frame ::
  "'b IBytesBuffer \<Rightarrow> 'b \<Rightarrow> bytes option \<Rightarrow> nat \<Rightarrow> 'b res" where
  "pack_unmask_pong_frame V buf data len =
     rbind (pack_unmask_control_frame V buf data len PongMessage FrameFinished) (\<lambda>(_, buf'). Inr buf')"

section \<open>The frames of the protocol\<close>

text \<open>\<open>server_frame\<close> lays out an unmasked frame as RFC 6455 does; \<open>read_frame\<close> reads one.\<close>

definition server_header :: "FinE \<Rightarrow> OpcodeE \<Rightarrow> nat \<Rightarrow> header_t" where
  "server_header fin x n = (client_header fin x n)\<lparr>MASK := False\<rparr>"

definition server_frame :: "FinE \<Rightarrow> OpcodeE \<Rightarrow> bytes \<Rightarrow> bytes" where
  "server_frame fin x payload =
     header_bytes (server_header fin x (length payload)) @ extended_length (length payload) @ payload"

definition read_frame :: "bytes \<Rightarrow> (FinE \<times> OpcodeE \<times> bytes \<times> bytes) option" where
  "read_frame xs =
     (if length xs < 2 then None
      else let h = header_of_bytes (xs ! 0) (xs ! 1); a = ext_size h;
               n = body_len h (take a (drop 2 xs)) in
        if MASK h \<or> length xs < 2 + a + n then None
        else Some (FIN h, opcode h, take n (drop (2 + a) xs), drop (2 + a + n) xs))"

text \<open>The fragments \<open>xs\<close> is cut into, and their frames.\<close>

function chunks :: "nat \<Rightarrow> bytes \<Rightarrow> bytes list" where
  "chunks k xs = (if k = 0 \<or> length xs \<le> k then [xs] else take k xs # chunks k (drop k xs))"
  by pat_completeness auto
termination
  by (relation "measure (\<lambda>(k, xs). length xs)") auto

declare chunks.simps [simp del]

fun fragment_frames :: "OpcodeE \<Rightarrow> bytes list \<Rightarrow> bytes" where
  "fragment_frames x [] = []"
| "fragment_frames x [p] = server_frame FrameFinished x p"
| "fragment_frames x (p # q # ps) =
     server_frame FrameContinue x p @ fragment_frames SegmentMessage (q # ps)"

section \<open>Lengths\<close>

lemma server_header_sel [simp]:
  "opcode (server_header fin x n) = x" "FIN (server_header fin x n) = fin"
  "\<not> MASK (server_header fin x n)"
  by (simp_all add: server_header_def)

lemma pack_header_server:
  "pack_header x fin (pack_Payloadlen n) = server_header fin x n"
  by (simp add: pack_header_def pack_Payloadlen_def server_header_def client_header_def
      header_zero_def)

lemma pack_U16_bytes:
  "126 \<le> n \<Longrightarrow> n \<le> 65535 \<Longrightarrow> mem16 (pack_ExtendedPayloadlenU16 n) = extended_length n"
  by (simp add: pack_ExtendedPayloadlenU16_def mem16_hostToNetwork16 extended_length_def unat_of_nat)

lemma pack_Payloadlen_cases:
  "pack_Payloadlen n = 126 \<longleftrightarrow> 126 \<le> n \<and> n \<le> 65535"
  "pack_Payloadlen n = 127 \<longleftrightarrow> 65536 \<le> n"
  "pack_Payloadlen n \<le> 127"
  by (auto simp: pack_Payloadlen_def)

lemma Payloadlen_le_126: "Payloadlen (server_header fin x n) \<le> 126 \<longleftrightarrow> n \<le> 65535"
  by (auto simp: server_header_def client_header_def word_le_nat_alt unat_of_nat)

lemma chunks_nonempty: "chunks k xs \<noteq> []"
  by (subst chunks.simps) simp

lemma concat_chunks: "concat (chunks k xs) = xs"
proof (induction k xs rule: chunks.induct)
  case (1 k xs)
  then show ?case by (cases "k = 0 \<or> length xs \<le> k") (simp_all add: chunks.simps [of k xs])
qed

lemma chunks_length: "0 < k \<Longrightarrow> p \<in> set (chunks k xs) \<Longrightarrow> length p \<le> k"
proof (induction k xs rule: chunks.induct)
  case (1 k xs)
  then show ?case
    by (cases "length xs \<le> k") (auto simp: chunks.simps [of k xs])
qed

section \<open>Packing one frame\<close>

context bytes_buffer
begin

lemma append_data_ok:
  assumes "invar b"
  shows "\<exists>b'. append_data V b (Some xs) (length xs) = Inr b' \<and> invar b' \<and> content b' = content b @ xs"
  using assms append [OF assms, of xs] by (cases xs) (auto simp: append_data_def)

lemma pack_uncontrol_ok:
  assumes "invar b" and "is_data x" and "length xs \<le> 65535"
  shows "\<exists>b'. pack_unmask_uncontrol_frame V b (Some xs) (length xs) x fin =
      Inr (server_header fin x (length xs), b') \<and> invar b' \<and>
      content b' = content b @ server_frame fin x xs"
proof -
  let ?n = "length xs" let ?h = "server_header fin x ?n"
  have v: "validate_uncontrol_frame_header ?h = Inr ()"
    using assms(2) by (auto simp: validate_uncontrol_frame_header_def is_data_def)
  obtain b1 where b1: "vappend V b (header_bytes ?h) = Inr b1" "invar b1"
      "content b1 = content b @ header_bytes ?h"
    using append [OF assms(1)] by blast
  have h: "pack_unmask_uncontrol_frame_header V b x fin (pack_Payloadlen ?n) = Inr (?h, b1)"
    using v b1(1) pack_Payloadlen_cases(3) [of ?n]
    by (simp add: pack_unmask_uncontrol_frame_header_def pack_header_server Let_def)
  obtain b2 where b2: "(if pack_Payloadlen ?n = 126 then vappend V b1 (mem16 (pack_ExtendedPayloadlenU16 ?n))
      else if pack_Payloadlen ?n = 127 then vappend V b1 (mem64 (pack_ExtendedPayloadlenI64 ?n))
      else Inr b1) = Inr b2" "invar b2" "content b2 = content b1 @ extended_length ?n"
    using append [OF b1(2), of "extended_length ?n"] b1(2) assms(3)
    by (cases "?n < 126")
      (auto simp: pack_Payloadlen_cases pack_U16_bytes extended_length_def)
  obtain b3 where "append_data V b2 (Some xs) ?n = Inr b3" "invar b3" "content b3 = content b2 @ xs"
    using append_data_ok [OF b2(2)] by blast
  with h b1 b2 show ?thesis
    by (simp add: pack_unmask_uncontrol_frame_def server_frame_def)
qed

lemma pack_control_ok:
  assumes "invar b" and "is_control x" and "length xs \<le> 65535"
  shows "\<exists>b'. pack_unmask_control_frame V b (Some xs) (length xs) x FrameFinished =
      Inr (server_header FrameFinished x (length xs), b') \<and> invar b' \<and>
      content b' = content b @ server_frame FrameFinished x xs"
proof -
  let ?n = "length xs" let ?h = "server_header FrameFinished x ?n"
  have v: "validate_control_frame_header ?h = Inr ()"
    using assms(2,3) by (auto simp: validate_control_frame_header_def is_control_def Payloadlen_le_126)
  obtain b1 where b1: "vappend V b (header_bytes ?h) = Inr b1" "invar b1"
      "content b1 = content b @ header_bytes ?h"
    using append [OF assms(1)] by blast
  have h: "pack_unmask_control_frame_header V b x FrameFinished (pack_Payloadlen ?n) = Inr (?h, b1)"
    using v b1(1) pack_Payloadlen_cases(3) [of ?n]
    by (simp add: pack_unmask_control_frame_header_def pack_header_server Let_def)
  obtain b2 where b2: "(if pack_Payloadlen ?n = 126 then vappend V b1 (mem16 (pack_ExtendedPayloadlenU16 ?n))
      else if pack_Payloadlen ?n = 127 then Inl (AssertFail Websocket_cc 1691)
      else Inr b1) = Inr b2" "invar b2" "content b2 = content b1 @ extended_length ?n"
    using append [OF b1(2), of "extended_length ?n"] b1(2) assms(3)
    by (cases "?n < 126")
      (auto simp: pack_Payloadlen_cases pack_U16_bytes extended_length_def)
  obtain b3 where "append_data V b2 (Some xs) ?n = Inr b3" "invar b3" "content b3 = content b2 @ xs"
    using append_data_ok [OF b2(2)] by blast
  with h b1 b2 show ?thesis
    by (simp add: pack_unmask_control_frame_def server_frame_def)
qed

lemma pack_control_too_long:
  assumes "is_control x" and "65536 \<le> n"
  shows "pack_unmask_control_frame V b data n x FrameFinished = Inl (AssertFail Websocket_cc 1529)"
proof -
  have "\<not> Payloadlen (server_header FrameFinished x n) \<le> 126"
    unfolding Payloadlen_le_126 using assms(2) by simp
  then show ?thesis
    using pack_Payloadlen_cases(3) [of n]
    by (simp add: pack_unmask_control_frame_def pack_unmask_control_frame_header_def Let_def
        pack_header_server validate_control_frame_header_def)
qed

text \<open>Chunks.\<close>

lemma pack_uncontrol_prefix:
  assumes "invar b" and "is_data x" and "k \<le> length xs" and "k \<le> 65535"
  shows "\<exists>h b'. pack_unmask_uncontrol_frame V b (Some xs) k x fin = Inr (h, b') \<and> invar b' \<and>
      content b' = content b @ server_frame fin x (take k xs)"
proof -
  have "append_data V b (Some (take k xs)) k = append_data V b (Some xs) k" for b
    by (simp add: append_data_def)
  then have "pack_unmask_uncontrol_frame V b (Some (take k xs)) k x fin =
      pack_unmask_uncontrol_frame V b (Some xs) k x fin"
    by (simp add: pack_unmask_uncontrol_frame_def)
  moreover have "length (take k xs) = k" using assms(3) by simp
  ultimately show ?thesis
    using pack_uncontrol_ok [OF assms(1,2), of "take k xs" fin] assms(4) by auto
qed

lemma pack_chunk_loop_ok:
  assumes "invar b" and "0 < k" and "k \<le> 65535" and "xs \<noteq> []" and "length xs \<le> fuel"
  shows "\<exists>b'. pack_chunk_loop V k fuel xs (length xs) b = Inr b' \<and> invar b' \<and>
      content b' = content b @ fragment_frames SegmentMessage (chunks k xs)"
  using assms
proof (induction fuel arbitrary: xs b)
  case (Suc fuel)
  show ?case
  proof (cases "k < length xs")
    case True
    obtain h b1 where b1: "pack_unmask_uncontrol_frame V b (Some xs) k SegmentMessage FrameContinue =
        Inr (h, b1)" "invar b1"
        "content b1 = content b @ server_frame FrameContinue SegmentMessage (take k xs)"
      using pack_uncontrol_prefix [of b SegmentMessage k xs FrameContinue] Suc.prems True
      by (auto simp: is_data_def)
    have f: "length (drop k xs) \<le> fuel" using Suc.prems(2,5) by simp
    obtain b2 where b2: "pack_chunk_loop V k fuel (drop k xs) (length (drop k xs)) b1 = Inr b2"
        "invar b2" "content b2 = content b1 @ fragment_frames SegmentMessage (chunks k (drop k xs))"
      using Suc.IH [OF b1(2) Suc.prems(2,3), of "drop k xs"] True f by auto
    obtain p ps where "chunks k (drop k xs) = p # ps"
      using chunks_nonempty [of k "drop k xs"] by (cases "chunks k (drop k xs)") auto
    moreover have "chunks k xs = take k xs # chunks k (drop k xs)"
      using True Suc.prems(2) by (subst chunks.simps) simp
    ultimately have "content b2 = content b @ fragment_frames SegmentMessage (chunks k xs)"
      using b1(3) b2(3) by simp
    moreover have "pack_chunk_loop V k (Suc fuel) xs (length xs) b = Inr b2"
      using b1(1) b2(1) True Suc.prems(4) by (subst pack_chunk_loop.simps) simp
    ultimately show ?thesis using b2(2) by blast
  next
    case False
    then have "chunks k xs = [xs]" by (subst chunks.simps) simp
    with False pack_uncontrol_prefix [of b SegmentMessage "length xs" xs FrameFinished] Suc.prems
    show ?thesis by (subst pack_chunk_loop.simps) (auto simp: is_data_def)
  qed
qed simp

lemma pack_data_frame_ok:
  assumes "invar b" and "ty = (if m = TyTextMessage then TextMessage else BinaryMessage)"
    and "chunk \<or> length xs \<le> 65535"
  shows "\<exists>b'. pack_unmask_data_frame V b xs (length xs) m chunk = Inr b' \<and> invar b' \<and>
      content b' = content b @
        fragment_frames ty (if chunk then chunks 1024 xs else [xs])"
proof (cases "chunk \<and> length xs > 1024")
  case True
  have ty: "is_data ty" "ty = TextMessage \<or> ty = BinaryMessage" using assms(2) by (auto simp: is_data_def)
  obtain h b1 where b1: "pack_unmask_uncontrol_frame V b (Some xs) 1024 ty FrameContinue = Inr (h, b1)"
      "invar b1" "content b1 = content b @ server_frame FrameContinue ty (take 1024 xs)"
    using pack_uncontrol_prefix [OF assms(1) ty(1), of 1024 xs FrameContinue] True by auto
  obtain b2 where b2: "pack_chunk_loop V 1024 (length xs) (drop 1024 xs) (length (drop 1024 xs)) b1 =
      Inr b2" "invar b2" "content b2 = content b1 @ fragment_frames SegmentMessage (chunks 1024 (drop 1024 xs))"
    using pack_chunk_loop_ok [OF b1(2), of 1024 "drop 1024 xs" "length xs"] True by auto
  obtain p ps where "chunks 1024 (drop 1024 xs) = p # ps"
    using chunks_nonempty [of 1024 "drop 1024 xs"] by (cases "chunks 1024 (drop 1024 xs)") auto
  moreover have "chunks 1024 xs = take 1024 xs # chunks 1024 (drop 1024 xs)"
    using True by (subst chunks.simps) simp
  ultimately have "content b2 = content b @ fragment_frames ty (chunks 1024 xs)"
    using b1(3) b2(3) by simp
  moreover have "pack_unmask_data_frame V b xs (length xs) m chunk = Inr b2"
    using True assms(2) ty(2) b1(1) b2(1)
    by (auto simp: pack_unmask_data_frame_def pack_unmask_data_frame_chunk_def Let_def)
  ultimately show ?thesis using True b2(2) by simp
next
  case False
  have "is_data ty" using assms(2) by (auto simp: is_data_def)
  with pack_uncontrol_ok [OF assms(1), of ty xs FrameFinished] False assms(3)
  obtain h b1 where b1: "pack_unmask_uncontrol_frame V b (Some xs) (length xs) ty FrameFinished = Inr (h, b1)"
      "invar b1" "content b1 = content b @ server_frame FrameFinished ty xs"
    by auto
  moreover have "(if chunk then chunks 1024 xs else [xs]) = [xs]"
    using False by (auto simp: chunks.simps [of 1024 xs])
  ultimately show ?thesis
    using False assms(2) by (auto simp: pack_unmask_data_frame_def Let_def)
qed

end

section \<open>Reading what was packed\<close>

lemma server_ext_size: "ext_size (server_header fin x n) = length (extended_length n)"
  using client_ext_size [of n fin x] by (simp add: server_header_def ext_size_def)

lemma server_body_len:
  "n < 2 ^ 64 \<Longrightarrow> body_len (server_header fin x n) (extended_length n) = n"
  using client_body_len [of n fin x] by (simp add: server_header_def body_len_def split: if_splits)

lemma read_server_frame:
  assumes "length p < 2 ^ 64"
  shows "read_frame (server_frame fin x p @ xs) = Some (fin, x, p, xs)"
proof -
  let ?h = "server_header fin x (length p)"
  obtain b0 b1 where b: "header_bytes ?h = [b0, b1]"
    using length_header_bytes by (rule length_2_cases)
  then have h: "header_of_bytes b0 b1 = ?h" using header_roundtrip [of ?h] by simp
  show ?thesis
    using server_body_len [OF assms, of fin x]
    by (simp add: read_frame_def server_frame_def b h server_ext_size)
qed

fun read_fragments :: "nat \<Rightarrow> bytes \<Rightarrow> (OpcodeE \<times> bytes) option" where
  "read_fragments 0 xs = None"
| "read_fragments (Suc k) xs =
     (case read_frame xs of
        None \<Rightarrow> None
      | Some (FrameFinished, x, p, rest) \<Rightarrow> Some (x, p)
      | Some (FrameContinue, x, p, rest) \<Rightarrow>
          map_option (\<lambda>(y, q). (x, p @ q)) (read_fragments k rest))"

lemma read_fragment_frames:
  assumes "ps \<noteq> []" and "\<forall>p \<in> set ps. length p < 2 ^ 64" and "length ps \<le> k"
  shows "read_fragments k (fragment_frames x ps @ xs) = Some (x, concat ps)"
  using assms
proof (induction x ps arbitrary: k rule: fragment_frames.induct)
  case (2 x p)
  then show ?case by (cases k) (simp_all add: read_server_frame)
next
  case (3 x p q ps)
  then obtain j where k: "k = Suc j" "length (q # ps) \<le> j" by (cases k) simp_all
  have "read_fragments j (fragment_frames SegmentMessage (q # ps) @ xs) =
      Some (SegmentMessage, concat (q # ps))"
    using 3 k(2) by (intro "3.IH") auto
  then show ?case using 3(3) k(1) by (simp add: read_server_frame)
qed simp

lemma length_chunks: "0 < k \<Longrightarrow> length (chunks k xs) \<le> length xs + 1"
proof (induction k xs rule: chunks.induct)
  case (1 k xs)
  show ?case
  proof (cases "length xs \<le> k")
    case True
    then show ?thesis by (subst chunks.simps) simp
  next
    case False
    with 1 have "length (chunks k (drop k xs)) \<le> length xs - k + 1" by simp
    with False 1(2) show ?thesis by (subst chunks.simps) simp
  qed
qed

lemma nat_le_add: "nat_le (m + k) n = nat_le m n @ nat_le k (n div 256 ^ m)"
  by (induction m arbitrary: n) (simp_all add: div_mult2_eq)

lemma pack_I64_zero:
  assumes "65536 \<le> n" and "n < 2 ^ 48"
  shows "pack_ExtendedPayloadlenI64 n = 0"
proof -
  let ?w = "hostToNetwork64 (of_nat n)"
  have u: "unat (of_nat n :: 64 word) = n" using assms(2) by (simp add: unat_of_nat)
  have "nat_le (6 + 2) n = nat_le 6 n @ nat_le 2 (n div 256 ^ 6)" by (rule nat_le_add)
  also have "n div 256 ^ 6 = 0" using assms(2) by simp
  finally have "mem64 ?w = 0 # 0 # rev (nat_le 6 n)"
    by (simp add: mem64_hostToNetwork64 u nat_be_def numeral_2_eq_2)
  then have "le_nat (mem64 ?w) = 65536 * le_nat (rev (nat_le 6 n))" by simp
  then have "unat ?w mod 65536 = 0"
    using unat_load64 [of "mem64 ?w"] by (simp add: load64_mem64)
  then have "(ucast ?w :: 16 word) = 0"
    by (simp add: word_unat_eq_iff unsigned_ucast_eq take_bit_eq_mod)
  then show ?thesis using assms(1) by (simp add: pack_ExtendedPayloadlenI64_def)
qed

section \<open>Properties\<close>



text \<open>
  C4.  Control frames.  Close, ping and pong with at most 125 bytes append exactly
  the control frame of RFC 6455; above 65535 bytes the assertion on line 1529 stops the
  program.
\<close>

theorem control_frames_packed:
  assumes "buffer_inv b" and "length xs < 126" and "65536 \<le> n"
  shows "(\<exists>b'. pack_unmask_close_frame Buffer_vtable b (Some xs) (length xs) = Inr b' \<and>
       buffer_inv b' \<and> content b' = content b @ server_frame FrameFinished CloseMessage xs) \<and>
    (\<exists>b'. pack_unmask_ping_frame Buffer_vtable b (Some xs) (length xs) = Inr b' \<and>
       buffer_inv b' \<and> content b' = content b @ server_frame FrameFinished PingMessage xs) \<and>
    (\<exists>b'. pack_unmask_pong_frame Buffer_vtable b (Some xs) (length xs) = Inr b' \<and>
       buffer_inv b' \<and> content b' = content b @ server_frame FrameFinished PongMessage xs) \<and>
    pack_unmask_close_frame Buffer_vtable b data n = Inl (AssertFail Websocket_cc 1529) \<and>
    pack_unmask_ping_frame Buffer_vtable b data n = Inl (AssertFail Websocket_cc 1529) \<and>
    pack_unmask_pong_frame Buffer_vtable b data n = Inl (AssertFail Websocket_cc 1529)"
proof -
  have k: "is_control CloseMessage" "is_control PingMessage" "is_control PongMessage"
    by (simp_all add: is_control_def)
  have l: "length xs \<le> 65535" using assms(2) by simp
  note ok = mb.pack_control_ok [OF assms(1) _ l]
  show ?thesis
    using ok [OF k(1)] ok [OF k(2)] ok [OF k(3)] mb.pack_control_too_long [OF _ assms(3)] k
    by (auto simp: pack_unmask_close_frame_def pack_unmask_ping_frame_def pack_unmask_pong_frame_def)
qed

lemma control_frames_packed_witness:
  "\<exists>b'. pack_unmask_ping_frame Buffer_vtable (Buffer_ctor 0) (Some [1, 2, 3]) (length [1, 2, 3 :: byte]) =
     Inr b' \<and> buffer_inv b' \<and> content b' = [0x89, 3, 1, 2, 3]"
proof -
  have f: "server_frame FrameFinished PingMessage [1, 2, 3] = [0x89, 3, 1, 2, 3]" by code_simp
  show ?thesis
    using control_frames_packed [OF Buffer_ctor_ok(1), of "[1, 2, 3]" 65536 0 None]
    by (auto simp: f Buffer_ctor_ok(2))
qed

text \<open>
  C5.  Long unchunked messages.  For 65536 to \<open>2 ^ 48 - 1\<close> bytes the 64-bit
  length on the wire is zero: the cast to \<^verbatim>\<open>int16_t\<close> keeps the two high bytes only.
  A receiver takes the frame for an empty one and reads the payload as frames.
\<close>

theorem long_frame_length_lost:
  assumes "buffer_inv b" and "65536 \<le> length xs" and "length xs < 2 ^ 48" and "is_data x"
  shows "\<exists>b'. pack_unmask_uncontrol_frame Buffer_vtable b (Some xs) (length xs) x fin =
      Inr (server_header fin x (length xs), b') \<and> buffer_inv b' \<and>
    content b' = content b @ header_bytes (server_header fin x (length xs)) @ replicate 8 0 @ xs \<and>
    read_frame (drop (length (content b)) (content b')) = Some (fin, x, [], xs)"
proof -
  let ?n = "length xs" let ?h = "server_header fin x ?n"
  obtain b1 where b1: "vappend Buffer_vtable b (header_bytes ?h) = Inr b1" "buffer_inv b1"
      "content b1 = content b @ header_bytes ?h"
    using mb.append [OF assms(1)] by blast
  obtain b2 where b2: "vappend Buffer_vtable b1 (replicate 8 0) = Inr b2" "buffer_inv b2"
      "content b2 = content b1 @ replicate 8 0"
    using mb.append [OF b1(2)] by blast
  obtain b3 where b3: "append_data Buffer_vtable b2 (Some xs) ?n = Inr b3" "buffer_inv b3"
      "content b3 = content b2 @ xs"
    using mb.append_data_ok [OF b2(2)] by blast
  have z: "mem64 (pack_ExtendedPayloadlenI64 ?n) = replicate 8 0"
    unfolding pack_I64_zero [OF assms(2,3)] by code_simp
  have v: "validate_uncontrol_frame_header ?h = Inr ()"
    using assms(4) by (auto simp: validate_uncontrol_frame_header_def is_data_def)
  have n: "pack_Payloadlen ?n = 127" using assms(2) by (simp add: pack_Payloadlen_cases)
  have p: "pack_unmask_uncontrol_frame Buffer_vtable b (Some xs) ?n x fin = Inr (?h, b3)"
    using b1(1) b2(1) b3(1) z v n pack_header_server [of x fin ?n]
    by (simp add: pack_unmask_uncontrol_frame_def pack_unmask_uncontrol_frame_header_def Let_def)
  obtain c0 c1 where c: "header_bytes ?h = [c0, c1]"
    using length_header_bytes by (rule length_2_cases)
  then have h: "header_of_bytes c0 c1 = ?h" using header_roundtrip [of ?h] by simp
  have l: "Payloadlen ?h = 127" using assms(2) by (simp add: server_header_def client_header_def)
  have "be_nat (replicate 8 0) = 0" by code_simp
  then have "read_frame (header_bytes ?h @ replicate 8 0 @ xs) = Some (fin, x, [], xs)"
    using l by (simp add: read_frame_def c h ext_size_def body_len_def)
  with p b1(3) b2(3) b3 show ?thesis by simp
qed

lemma long_frame_length_lost_witness:
  "\<exists>b'. pack_unmask_uncontrol_frame Buffer_vtable (Buffer_ctor 0) (Some (replicate 65536 7))
       (length (replicate 65536 (7 :: byte))) BinaryMessage FrameFinished =
      Inr (server_header FrameFinished BinaryMessage (length (replicate 65536 (7 :: byte))), b') \<and>
    buffer_inv b' \<and>
    content b' = content (Buffer_ctor 0) @
      header_bytes (server_header FrameFinished BinaryMessage (length (replicate 65536 (7 :: byte)))) @
      replicate 8 0 @ replicate 65536 7 \<and>
    read_frame (drop (length (content (Buffer_ctor 0))) (content b')) =
      Some (FrameFinished, BinaryMessage, [], replicate 65536 7)"
  by (rule long_frame_length_lost [OF Buffer_ctor_ok(1)]) (simp_all only: length_replicate is_data_def, simp_all)

end
