(* ===== verification/WS_Faults.thy ===== *)
theory WS_Faults
  imports WS_Pack
begin

text \<open>
  Frames on which the parser does not do what RFC 6455 asks: fragments unmasked
  at the wrong offset, and frames of a peer that stop the whole process at an
  assertion instead of closing one connection.
\<close>

section \<open>Fragments\<close>

text \<open>
  C7.  Unmasking of fragments.  A message in two fragments is delivered as the first
  payload followed by the second one unmasked from offset \<open>length p1\<close> of the key,
  where the client masked it from offset 0: unless the first fragment has a
  multiple of four bytes the bytes differ.
\<close>

theorem second_fragment_unmasked_at_offset:
  assumes "idle_session s" and "length k1 = 4" and "length k2 = 4"
    and "length p1 < 2 ^ 64" and "length p2 < 2 ^ 64"
    and "concat (map snd cs) =
      client_frame FrameContinue TextMessage k1 p1 @ client_frame FrameFinished SegmentMessage k2 p2"
  shows "\<exists>s'. feed Buffer_vtable D s cs = Inr s' \<and> events (calls s') = events (calls s) @
    [MessageEvent TextMessage (p1 @ mask_from (length p1) k2 (mask_from 0 k2 p2))]"
proof -
  let ?st = "idle_state s" let ?st1 = "?st\<lparr>adata := p1, atype := TextMessage, inmsg := True\<rparr>"
  have a: "accepts ?st (client_header FrameContinue TextMessage (length p1))"
    by (simp add: accepts_def is_data_def idle_state_def)
  have b: "accepts ?st1 (client_header FrameFinished SegmentMessage (length p2))"
    by (simp add: accepts_def)
  have d1: "deliver ?st (client_header FrameContinue TextMessage (length p1)) k1 (mask_from 0 k1 p1) = (?st1, [])"
    by (simp add: deliver_def is_data_def header_type_def idle_state_def)
  have d2: "deliver ?st1 (client_header FrameFinished SegmentMessage (length p2)) k2 (mask_from 0 k2 p2) =
      (?st1\<lparr>adata := [], inmsg := False\<rparr>,
       [MessageEvent TextMessage (p1 @ mask_from (length p1) k2 (mask_from 0 k2 p2))])"
    by (simp add: deliver_def is_data_def header_type_def)
  have "decode ?st (concat (map snd cs)) = Some (?st1\<lparr>adata := [], inmsg := False\<rparr>,
      [MessageEvent TextMessage (p1 @ mask_from (length p1) k2 (mask_from 0 k2 p2))], [])"
    unfolding assms(6) decode_client_frame [OF a assms(2,4)] Let_def d1
    using decode_client_frame [OF b assms(3,5), of "[]"] by (simp add: d2)
  from feed_decode [OF assms(1) this] show ?thesis by blast
qed

lemma second_fragment_unmasked_at_offset_witness:
  "\<exists>s'. feed Buffer_vtable False demo_session
      [(0, client_frame FrameContinue TextMessage [1, 2, 3, 4] [97] @
           client_frame FrameFinished SegmentMessage [5, 6, 7, 8] [98])] = Inr s' \<and>
    events (calls s') = [MessageEvent TextMessage [97, 97]]"
proof -
  have e: "mask_from (length [97 :: byte]) [5, 6, 7, 8] (mask_from 0 [5, 6, 7, 8] [98]) = [97]"
    by code_simp
  have "events (calls demo_session) = []" by (simp add: demo_session_def events_def)
  with second_fragment_unmasked_at_offset [OF demo_session_idle, of "[1, 2, 3, 4]" "[5, 6, 7, 8]"
      "[97]" "[98]" "[(0, client_frame FrameContinue TextMessage [1, 2, 3, 4] [97] @
           client_frame FrameFinished SegmentMessage [5, 6, 7, 8] [98])]" False] e
  show ?thesis by simp
qed

section \<open>Frames that stop the process\<close>

context bytes_buffer
begin

lemma maskingkey_type_fault:
  assumes "invar (inbuf s)" and "4 \<le> length (content (inbuf s))" and "wsStep (ctx s) = ReadMaskingkey"
    and "MASK (eh_header (cheader (ctx s)))"
    and "get_frame_control_message_type (eh_header (cheader (ctx s))) = Inl f"
  shows "parse_frame_ReadMaskingkey V D t s = Inl f"
proof -
  obtain buf1 where "vretrieve V (inbuf s) 4 = Inr buf1"
    using retrieve [OF assms(1,2)] by blast
  with assms ext_size_cases [of "eh_header (cheader (ctx s))"] show ?thesis
    by (auto simp: parse_frame_ReadMaskingkey_def Let_def readable kMaskingkeyLen_def setMaskingkey_def)
qed

lemma maskingkey_long_control_fault:
  assumes "invar (inbuf s)" and "4 \<le> length (content (inbuf s))" and "wsStep (ctx s) = ReadMaskingkey"
    and "MASK (eh_header (cheader (ctx s)))" and "handler (ctx s)"
    and "is_control (opcode (eh_header (cheader (ctx s))))"
    and "FIN (eh_header (cheader (ctx s))) = FrameFinished"
    and "Payloadlen (eh_header (cheader (ctx s))) = 126"
  shows "parse_frame_ReadMaskingkey V D t s = Inl (AssertFail Websocket_cc 3269)"
proof -
  obtain buf1 where "vretrieve V (inbuf s) 4 = Inr buf1"
    using retrieve [OF assms(1,2)] by blast
  moreover have "\<exists>m. get_frame_control_message_type (eh_header (cheader (ctx s))) = Inr (ControlFrame, m)"
    using assms(6,7) by (auto simp: is_control_def get_frame_control_message_type_def)
  ultimately show ?thesis
    using assms
    by (auto simp: parse_frame_ReadMaskingkey_def Let_def readable kMaskingkeyLen_def setMaskingkey_def
        parse_control_frame_ReadExtendedPayloadDataU16_def setWebsocketStep_def)
qed

text \<open>The header of a control frame or of a frame with a reserved opcode is read and
  the frame goes on.\<close>

lemma read_header_ok:
  assumes "base content invar D st s" and "position st [] (ctx s)" and "wsStep (ctx s) = ReadFrameHeader"
    and "content (inbuf s) = header_bytes h @ xs" and "\<not> is_data (opcode h)"
  shows "\<exists>c1 buf1. parse_frame_ReadFrameHeader V D t s =
      rmap (Pair True) (update_frame_body_parse_step V D t (s\<lparr>ctx := c1, inbuf := buf1\<rparr>)) \<and>
    cheader c1 = set_header extended_header_zero h \<and> wsStep c1 = ReadFrameHeader \<and> handler c1 \<and>
    invar buf1 \<and> content buf1 = xs"
proof -
  have b: "handler (ctx s)" "invar (inbuf s)" "msg_holds content invar (controlMessage (ctx s)) []"
    using assms(1) by (simp_all add: base_def Let_def)
  have e: "cheader (ctx s) = extended_header_zero"
    using assms(2,3) by (simp add: position_def Let_def)
  obtain b0 b1 where h: "header_bytes h = [b0, b1]"
    using length_header_bytes by (rule length_2_cases)
  then have h1: "header_of_bytes b0 b1 = h" using header_roundtrip [of h] by simp
  obtain buf1 where buf1: "vretrieve V (inbuf s) 2 = Inr buf1" "invar buf1" "content buf1 = xs"
    using retrieve [OF b(2), of 2] assms(4) h by auto
  have p: "parse_frame_header V (inbuf s) = Inr (h, buf1)"
    using buf1(1) assms(4) h h1 b(2) by (simp add: parse_frame_header_def kHeaderLen_def peek)
  let ?c = "(ctx s)\<lparr>cheader := set_header extended_header_zero h\<rparr>"
  have "\<exists>c1. validate_message_frame V D ?c = Inr c1 \<and> cheader c1 = cheader ?c \<and>
      wsStep c1 = wsStep ?c \<and> handler c1 = handler ?c"
    using assms(5) begin_message_ok [OF b(3)]
    by (cases "opcode h") (auto simp: validate_message_frame_def is_data_def set_header_def)
  then obtain c1 where "validate_message_frame V D ?c = Inr c1" "cheader c1 = cheader ?c"
      "wsStep c1 = wsStep ?c" "handler c1 = handler ?c" by blast
  then show ?thesis
    using p e assms(3,4) b h buf1
    by (intro exI [of _ c1] exI [of _ buf1])
      (simp add: parse_frame_ReadFrameHeader_def Let_def readable kHeaderLen_def)
qed

lemma parse_frame_first_step:
  assumes "base content invar D st s" and "position st [] (ctx s)" and "wsStep (ctx s) = ReadFrameHeader"
    and "content (inbuf s) \<noteq> []"
  shows "\<exists>k. parse_frame V D t s = rbind (parse_frame_ReadFrameHeader V D t s)
    (\<lambda>(e, s'). parse_frame_loop V D t UnControlFrame (Suc k) e s')"
proof -
  have b: "handler (ctx s)" "invar (inbuf s)" "msg_holds content invar (controlMessage (ctx s)) []"
      "msg_holds content invar (dataMessage (ctx s)) (adata st)"
    using assms(1) by (simp_all add: base_def Let_def)
  obtain d where d: "getMessageBuffer (dataMessage (ctx s)) = Inr d"
    using b(4) by (rule msg_holds_getMessageBuffer)
  obtain k where k: "getMessageBuffer (controlMessage (ctx s)) = Inr k"
    using b(3) by (rule msg_holds_getMessageBuffer)
  have "get_frame_control_message_type (eh_header (cheader (ctx s))) = Inr (UnControlFrame, MiddleFrame)"
    using assms(2,3) by (simp add: position_def Let_def extended_header_zero_def header_zero_def
        get_frame_control_message_type_def)
  moreover have r: "0 < vreadableBytes V (inbuf s)" using assms(4) b(2) by (simp add: readable)
  ultimately have "parse_frame V D t s = rbind (parse_frame_ReadFrameHeader V D t s)
      (\<lambda>(e, s'). parse_frame_loop V D t UnControlFrame (Suc (2 * vreadableBytes V (inbuf s))) e s')"
    using d k b(1) assms(3)
    by (simp add: parse_frame_def Let_def parse_frame_loop_Suc parse_frame_step_def)
  then show ?thesis by blast
qed

lemma short_frame_fault:
  assumes "base content invar D st s" and "position st [] (ctx s)" and "wsStep (ctx s) = ReadFrameHeader"
    and "content (inbuf s) = header_bytes h @ xs" and "\<not> is_data (opcode h)" and "4 \<le> length xs"
    and "MASK h" and "Payloadlen h < 126" and "get_frame_control_message_type h = Inl f"
  shows "parse_frame V D t s = Inl f"
proof -
  obtain c1 buf1 where c: "parse_frame_ReadFrameHeader V D t s =
      rmap (Pair True) (update_frame_body_parse_step V D t (s\<lparr>ctx := c1, inbuf := buf1\<rparr>))"
      "cheader c1 = set_header extended_header_zero h" "wsStep c1 = ReadFrameHeader"
      "invar buf1" "content buf1 = xs"
    using read_header_ok [OF assms(1-5)] by blast
  let ?s = "setWebsocketStep ReadMaskingkey (s\<lparr>ctx := c1, inbuf := buf1\<rparr>)"
  have n: "Payloadlen h \<noteq> 126" "Payloadlen h \<noteq> 127" using assms(8) by auto
  have "parse_frame_ReadMaskingkey V D t ?s = Inl f"
    using c assms by (intro maskingkey_type_fault) (simp_all add: set_header_def)
  then have "parse_frame_ReadFrameHeader V D t s = Inl f"
    unfolding c(1) using c(2,3) n assms(7,8)
    by (simp add: update_frame_body_parse_step_def Let_def set_header_def)
  moreover have "content (inbuf s) \<noteq> []" using assms(4,6) by auto
  ultimately show ?thesis
    using parse_frame_first_step [OF assms(1-3), of t] by auto
qed

lemma long_control_fault:
  assumes "base content invar D st s" and "position st [] (ctx s)" and "wsStep (ctx s) = ReadFrameHeader"
    and "content (inbuf s) = header_bytes h @ xs" and "is_control (opcode h)" and "6 \<le> length xs"
    and "MASK h" and "Payloadlen h = 126" and "FIN h = FrameFinished"
  shows "parse_frame V D t s = Inl (AssertFail Websocket_cc 3269)"
proof -
  have nd: "\<not> is_data (opcode h)" using assms(5) by (auto simp: is_control_def is_data_def)
  obtain c1 buf1 where c: "parse_frame_ReadFrameHeader V D t s =
      rmap (Pair True) (update_frame_body_parse_step V D t (s\<lparr>ctx := c1, inbuf := buf1\<rparr>))"
      "cheader c1 = set_header extended_header_zero h" "wsStep c1 = ReadFrameHeader" "handler c1"
      "invar buf1" "content buf1 = xs"
    using read_header_ok [OF assms(1-4) nd] by blast
  obtain w buf2 where b2: "vreadInt16 V buf1 = Inr (w, buf2)" "invar buf2" "content buf2 = drop 2 xs"
    using readInt16 [OF c(5)] c(6) assms(6) by auto
  define s2 where "s2 = setWebsocketStep ReadMaskingkey (s\<lparr>ctx := c1\<lparr>cheader :=
      setExtendedPayloadlenU16 (cheader c1) (networkToHost16 w), wsStep := ReadExtendedPayloadlenU16\<rparr>,
      inbuf := buf2\<rparr>)"
  have "parse_frame_ReadFrameHeader V D t s = Inr (True, s2)"
    unfolding c(1) using c(2,3,5,6) assms(6-8) b2(1)
    by (simp add: update_frame_body_parse_step_def Let_def set_header_def readable s2_def
        parse_frame_ReadExtendedPayloadlenU16_def kExtendedPayloadlenU16_def setWebsocketStep_def)
  moreover have "parse_frame_ReadMaskingkey V D t s2 = Inl (AssertFail Websocket_cc 3269)"
    using c assms b2
    by (intro maskingkey_long_control_fault)
      (simp_all add: s2_def set_header_def setExtendedPayloadlenU16_def setWebsocketStep_def)
  moreover have "0 < vreadableBytes V (inbuf s2)"
    using b2 assms(6) by (simp add: s2_def readable)
  moreover have "content (inbuf s) \<noteq> []" using assms(4,6) by auto
  ultimately show ?thesis
    using parse_frame_first_step [OF assms(1-3), of t]
    by (auto simp: parse_frame_loop_Suc parse_frame_step_def s2_def)
qed

lemma unmasked_data_fault:
  assumes "base content invar False st s" and "position st [] (ctx s)"
    and "wsStep (ctx s) = ReadFrameHeader" and "\<not> inmsg st"
    and "content (inbuf s) = header_bytes h @ xs" and "opcode h = TextMessage \<or> opcode h = BinaryMessage"
    and "\<not> MASK h" and "FIN h = FrameFinished" and "Payloadlen h < 126"
    and "unat (Payloadlen h) \<le> length xs"
  shows "parse_frame V False t s = Inl (AssertFail Websocket_cc 3219)"
proof -
  have b: "handler (ctx s)" "invar (inbuf s)" "msg_holds content invar (controlMessage (ctx s)) []"
      "msg_holds content invar (dataMessage (ctx s)) []"
    using assms(1,4) by (auto simp: base_def Let_def)
  have e: "cheader (ctx s) = extended_header_zero"
    using assms(2,3) by (simp add: position_def Let_def)
  obtain b0 b1 where h: "header_bytes h = [b0, b1]"
    using length_header_bytes by (rule length_2_cases)
  then have h1: "header_of_bytes b0 b1 = h" using header_roundtrip [of h] by simp
  obtain buf1 where buf1: "vretrieve V (inbuf s) 2 = Inr buf1" "invar buf1" "content buf1 = xs"
    using retrieve [OF b(2), of 2] assms(5) h by auto
  have p: "parse_frame_header V (inbuf s) = Inr (h, buf1)"
    using buf1(1) assms(5) h h1 b(2) by (simp add: parse_frame_header_def kHeaderLen_def peek)
  let ?n = "unat (Payloadlen h)"
  define c1 where "c1 = (ctx s)\<lparr>cheader := set_header extended_header_zero h,
      dataMessage := setMessageType (dataMessage (ctx s)) (opcode h)\<rparr>"
  have v: "validate_message_frame V False ((ctx s)\<lparr>cheader := set_header extended_header_zero h\<rparr>) = Inr c1"
    using assms(6) begin_message_ok [OF b(4)]
    by (auto simp: validate_message_frame_def c1_def set_header_def)
  define s1 where "s1 = setWebsocketStep ReadPayloadData (s\<lparr>ctx := c1, inbuf := buf1\<rparr>)"
  obtain cb where cb: "getMessageBuffer (controlMessage (ctx s)) = Inr cb" "invar cb"
    using b(3) by (rule msg_holds_getMessageBuffer)
  obtain cb1 where cb1: "vappend V cb (vpeek V buf1 ?n) = Inr cb1" using append [OF cb(2)] by blast
  obtain buf2 where buf2: "vretrieve V buf1 ?n = Inr buf2"
    using retrieve [OF buf1(2), of ?n] buf1(3) assms(10) by auto
  have n: "Payloadlen h \<noteq> 126" "Payloadlen h \<noteq> 127" using assms(9) by auto
  have "consume_payload V (cheader (ctx s1)) ?n (controlMessage (ctx s1)) buf1 =
      Inr ((controlMessage (ctx s))\<lparr>messageBuffer := Some cb1\<rparr>, buf2)"
    using cb(1) cb1 buf2 assms(7)
    by (simp add: consume_payload_def s1_def c1_def setWebsocketStep_def set_header_def
        unMaskPayloadData_def)
  then have "parse_control_payload V False t ?n (3194, 3219, 3230) s1 = Inl (AssertFail Websocket_cc 3219)"
    using assms(6,8)
    by (auto simp: parse_control_payload_def Let_def debug_addFrameHeader_def control_callback_def
        s1_def c1_def set_header_def)
  then have "parse_control_frame_ReadPayloadData V False t s1 = Inl (AssertFail Websocket_cc 3219)"
    using b(1) assms(9,10) buf1(2,3)
    by (simp add: parse_control_frame_ReadPayloadData_def Let_def s1_def readable c1_def
        setWebsocketStep_def set_header_def)
  then have "parse_frame_ReadFrameHeader V False t s = Inl (AssertFail Websocket_cc 3219)"
    using p e v assms(3,5,7,9) n b(2) h
    by (simp add: parse_frame_ReadFrameHeader_def Let_def readable kHeaderLen_def s1_def
        update_frame_body_parse_step_def set_header_def c1_def)
  moreover have "content (inbuf s) \<noteq> []" using assms(5) h by simp
  ultimately show ?thesis
    using parse_frame_first_step [OF assms(1-3), of t] by auto
qed

end

lemma feed_one:
  assumes "idle_session s"
  shows "\<exists>b. feed Buffer_vtable D s [(t, xs)] = parse_frame Buffer_vtable D t (s\<lparr>inbuf := b\<rparr>) \<and>
    base content buffer_inv D (idle_state s) (s\<lparr>inbuf := b\<rparr>) \<and>
    position (idle_state s) [] (ctx (s\<lparr>inbuf := b\<rparr>)) \<and> wsStep (ctx (s\<lparr>inbuf := b\<rparr>)) = ReadFrameHeader \<and>
    content b = xs"
proof -
  have s: "sim content buffer_inv D (idle_state s) [] s" "content (inbuf s) = []"
      "wsStep (ctx s) = ReadFrameHeader"
    using idle_sim [OF assms] assms by (auto simp: idle_session_def Let_def)
  then have "buffer_inv (inbuf s)" by (simp add: sim_def base_def Let_def)
  then obtain b where b: "vappend Buffer_vtable (inbuf s) xs = Inr b" "buffer_inv b" "content b = xs"
    using mb.append [of "inbuf s" xs] s(2) by auto
  have "rbind r (\<lambda>s'. feed Buffer_vtable D s' []) = r" for r :: "(Buffer, 'a) session res"
    by (cases r) simp_all
  with s b show ?thesis
    by (intro exI [of _ b]) (simp add: sim_def base_def Let_def)
qed





end
