(* ===== verification/WS_Http.thy ===== *)
theory WS_Http
  imports WS_Buffer
begin

text \<open>
  The HTTP request parser of the handshake: \<^verbatim>\<open>HttpRequest.h\<close>, \<^verbatim>\<open>HttpContext.h\<close> and
  \<^verbatim>\<open>HttpContext.cc\<close> of \<^verbatim>\<open>muduo\<close>, over its \<open>Buffer\<close>.  Strings are byte lists, the
  range between two pointers is the list of its bytes, \<^verbatim>\<open>std::map\<close> is a map.
  \<open>http_parse\<close> is the parser on a byte list that \<open>parseRequest\<close> implements.
\<close>

section \<open>HttpRequest\<close>

datatype Method = kInvalid | kGet | kPost | kHead | kPut | kDelete

datatype Version = kUnknown | kHttp10 | kHttp11

record HttpRequest =
  req_method :: Method
  req_version :: Version
  req_path :: bytes
  req_query :: bytes
  req_receiveTime :: timestamp
  req_headers :: "bytes \<rightharpoonup> bytes"

definition HttpRequest_ctor :: HttpRequest where
  "HttpRequest_ctor =
     \<lparr>req_method = kInvalid, req_version = kUnknown, req_path = [], req_query = [],
      req_receiveTime = 0, req_headers = (\<lambda>_. None)\<rparr>"

definition method_of :: "bytes \<Rightarrow> Method" where
  "method_of m =
     (if m = str ''GET'' then kGet
      else if m = str ''POST'' then kPost
      else if m = str ''HEAD'' then kHead
      else if m = str ''PUT'' then kPut
      else if m = str ''DELETE'' then kDelete
      else kInvalid)"

definition setMethod :: "HttpRequest \<Rightarrow> bytes \<Rightarrow> (bool \<times> HttpRequest) res" where
  "setMethod r m =
     require HttpRequest_h 69 (req_method r = kInvalid)
       (Inr (method_of m \<noteq> kInvalid, r\<lparr>req_method := method_of m\<rparr>))"

fun methodString :: "Method \<Rightarrow> bytes" where
  "methodString kGet = str ''GET''"
| "methodString kPost = str ''POST''"
| "methodString kHead = str ''HEAD''"
| "methodString kPut = str ''PUT''"
| "methodString kDelete = str ''DELETE''"
| "methodString kInvalid = str ''UNKNOWN''"

definition setPath :: "HttpRequest \<Rightarrow> bytes \<Rightarrow> HttpRequest" where
  "setPath r p = r\<lparr>req_path := p\<rparr>"

definition setQuery :: "HttpRequest \<Rightarrow> bytes \<Rightarrow> HttpRequest" where
  "setQuery r q = r\<lparr>req_query := q\<rparr>"

definition setVersion :: "HttpRequest \<Rightarrow> Version \<Rightarrow> HttpRequest" where
  "setVersion r v = r\<lparr>req_version := v\<rparr>"

definition setReceiveTime :: "HttpRequest \<Rightarrow> timestamp \<Rightarrow> HttpRequest" where
  "setReceiveTime r t = r\<lparr>req_receiveTime := t\<rparr>"

text \<open>\<^verbatim>\<open>isspace\<close> in the C locale.\<close>

definition is_space :: "byte \<Rightarrow> bool" where
  "is_space c \<longleftrightarrow> c = 32 \<or> (9 \<le> c \<and> c \<le> 13)"

text \<open>\<^verbatim>\<open>addHeader(start, colon, end)\<close>: \<open>line\<close> is the range from \<^verbatim>\<open>start\<close> to \<^verbatim>\<open>end\<close>, and
  \<^verbatim>\<open>colon\<close> points at its first colon.\<close>

definition trim_right :: "bytes \<Rightarrow> bytes" where
  "trim_right v = rev (dropWhile is_space (rev v))"

definition addHeader :: "HttpRequest \<Rightarrow> bytes \<Rightarrow> HttpRequest" where
  "addHeader r line =
     (let field = takeWhile (\<lambda>c. c \<noteq> 58) line;
          value = trim_right (dropWhile is_space (tl (dropWhile (\<lambda>c. c \<noteq> 58) line)))
      in r\<lparr>req_headers := (req_headers r)(field \<mapsto> value)\<rparr>)"

definition getHeader :: "HttpRequest \<Rightarrow> bytes \<Rightarrow> bytes" where
  "getHeader r field = (case req_headers r field of None \<Rightarrow> [] | Some v \<Rightarrow> v)"

section \<open>HttpContext\<close>

datatype ParseState = kExpectRequestLine | kExpectHeaders | kExpectBody | kGotAll

record HttpContext =
  http_state :: ParseState
  http_request :: HttpRequest

definition HttpContext_ctor :: HttpContext where
  "HttpContext_ctor = \<lparr>http_state = kExpectRequestLine, http_request = HttpRequest_ctor\<rparr>"

definition gotAll :: "HttpContext \<Rightarrow> bool" where
  "gotAll c \<longleftrightarrow> http_state c = kGotAll"

definition HttpContext_reset :: "HttpContext \<Rightarrow> HttpContext" where
  "HttpContext_reset c = \<lparr>http_state = kExpectRequestLine, http_request = HttpRequest_ctor\<rparr>"

definition set_uri :: "HttpRequest \<Rightarrow> bytes \<Rightarrow> HttpRequest" where
  "set_uri r u =
     (if dropWhile (\<lambda>c. c \<noteq> 63) u \<noteq> []
      then setQuery (setPath r (takeWhile (\<lambda>c. c \<noteq> 63) u)) (dropWhile (\<lambda>c. c \<noteq> 63) u)
      else setPath r u)"

definition processRequestLine :: "HttpRequest \<Rightarrow> bytes \<Rightarrow> (bool \<times> HttpRequest) res" where
  "processRequestLine r line =
     (let m = takeWhile (\<lambda>c. c \<noteq> 32) line; rest = dropWhile (\<lambda>c. c \<noteq> 32) line in
      if rest = [] then Inr (False, r)
      else rbind (setMethod r m) (\<lambda>(ok, r1).
        if \<not> ok then Inr (False, r1)
        else let u = takeWhile (\<lambda>c. c \<noteq> 32) (tl rest); rest2 = dropWhile (\<lambda>c. c \<noteq> 32) (tl rest) in
          if rest2 = [] then Inr (False, r1)
          else let r2 = set_uri r1 u; v = tl rest2 in
            if length v = 8 \<and> take 7 v = str ''HTTP/1.''
            then (if v ! 7 = 49 then Inr (True, setVersion r2 kHttp11)
                  else if v ! 7 = 48 then Inr (True, setVersion r2 kHttp10)
                  else Inr (False, r2))
            else Inr (False, r2)))"

text \<open>\<open>parseRequest\<close>: the loop of \<^verbatim>\<open>parseRequest\<close>.  In the states \<^verbatim>\<open>kExpectBody\<close> and \<^verbatim>\<open>kGotAll\<close>
  the loop of the source does nothing forever.\<close>

fun parseRequest_loop ::
  "nat \<Rightarrow> HttpContext \<Rightarrow> Buffer \<Rightarrow> timestamp \<Rightarrow> (bool \<times> HttpContext \<times> Buffer) res" where
  "parseRequest_loop 0 c b t = Inl OutOfFuel"
| "parseRequest_loop (Suc k) c b t =
     (case http_state c of
        kExpectRequestLine \<Rightarrow>
          (case findCRLF b of
             None \<Rightarrow> Inr (True, c, b)
           | Some crlf \<Rightarrow>
               rbind (processRequestLine (http_request c) (mem b (peek b) (crlf - peek b))) (\<lambda>(ok, r).
               if ok
               then rbind (retrieveUntil b (crlf + 2)) (\<lambda>b'.
                 parseRequest_loop k
                   (c\<lparr>http_request := setReceiveTime r t, http_state := kExpectHeaders\<rparr>) b' t)
               else Inr (False, c\<lparr>http_request := r\<rparr>, b)))
      | kExpectHeaders \<Rightarrow>
          (case findCRLF b of
             None \<Rightarrow> Inr (True, c, b)
           | Some crlf \<Rightarrow>
               (let line = mem b (peek b) (crlf - peek b) in
                if 58 \<in> set line
                then rbind (retrieveUntil b (crlf + 2)) (\<lambda>b'.
                  parseRequest_loop k
                    (c\<lparr>http_request := addHeader (http_request c) line\<rparr>) b' t)
                else rbind (retrieveUntil b (crlf + 2)) (\<lambda>b'.
                  Inr (True, c\<lparr>http_state := kGotAll\<rparr>, b'))))
      | _ \<Rightarrow> parseRequest_loop k c b t)"

definition parseRequest ::
  "HttpContext \<Rightarrow> Buffer \<Rightarrow> timestamp \<Rightarrow> (bool \<times> HttpContext \<times> Buffer) res" where
  "parseRequest c b t = parseRequest_loop (readableBytes b + 1) c b t"

section \<open>The parser on byte lists\<close>

definition next_line :: "bytes \<Rightarrow> (bytes \<times> bytes) option" where
  "next_line xs = map_option (\<lambda>k. (take k xs, drop (k + 2) xs)) (find_sub kCRLF xs)"

lemma next_line_length: "next_line xs = Some (l, rest) \<Longrightarrow> length rest < length xs"
  using find_sub_Some [of kCRLF xs] by (auto simp: next_line_def kCRLF_def)

function http_headers :: "HttpRequest \<Rightarrow> bytes \<Rightarrow> HttpRequest \<times> bool \<times> bytes" where
  "http_headers r xs =
     (case next_line xs of
        None \<Rightarrow> (r, False, xs)
      | Some (l, rest) \<Rightarrow>
          if 58 \<in> set l then http_headers (addHeader r l) rest else (r, True, rest))"
  by pat_completeness auto
termination
  by (relation "measure (\<lambda>(r, xs). length xs)") (auto dest: next_line_length)

declare http_headers.simps [simp del]

definition header_result :: "HttpRequest \<times> bool \<times> bytes \<Rightarrow> bool \<times> HttpContext \<times> bytes" where
  "header_result p = (case p of (r, done, rest) \<Rightarrow>
     (True, \<lparr>http_state = (if done then kGotAll else kExpectHeaders), http_request = r\<rparr>, rest))"

definition http_parse ::
  "HttpContext \<Rightarrow> bytes \<Rightarrow> timestamp \<Rightarrow> (bool \<times> HttpContext \<times> bytes) res" where
  "http_parse c xs t =
     (if http_state c = kExpectRequestLine then
        (case next_line xs of
           None \<Rightarrow> Inr (True, c, xs)
         | Some (l, rest) \<Rightarrow>
             rbind (processRequestLine (http_request c) l) (\<lambda>(ok, r).
             if ok then Inr (header_result (http_headers (setReceiveTime r t) rest))
             else Inr (False, c\<lparr>http_request := r\<rparr>, xs)))
      else if http_state c = kExpectHeaders then
        Inr (header_result (http_headers (http_request c) xs))
      else Inl OutOfFuel)"

section \<open>parseRequest implements the parser\<close>

lemma findCRLF_next_line:
  assumes "buffer_inv b"
  shows "findCRLF b = None \<Longrightarrow> next_line (content b) = None"
    and "findCRLF b = Some p \<Longrightarrow> \<exists>rest b'. next_line (content b) = Some (mem b (peek b) (p - peek b), rest) \<and>
      retrieveUntil b (p + 2) = Inr b' \<and> buffer_inv b' \<and> content b' = rest \<and>
      readableBytes b' < readableBytes b"
proof -
  note f = findCRLF_def find_from_peek next_line_def
  show "findCRLF b = None \<Longrightarrow> next_line (content b) = None" by (simp add: f)
  assume "findCRLF b = Some p"
  then obtain k where k: "find_sub kCRLF (content b) = Some k" "p = peek b + k" by (auto simp: f)
  have l: "k + 2 \<le> readableBytes b"
    using find_sub_Some [OF k(1)] assms by (simp add: kCRLF_def)
  obtain b' where b': "retrieveUntil b (peek b + (k + 2)) = Inr b'" "buffer_inv b'"
      "content b' = drop (k + 2) (content b)"
    using retrieveUntil_ok [OF assms l] by blast
  have "readableBytes b' < readableBytes b"
    using content_length [OF b'(2)] content_length [OF assms] b'(3) l by simp
  with b' k l show "\<exists>rest b'. next_line (content b) = Some (mem b (peek b) (p - peek b), rest) \<and>
      retrieveUntil b (p + 2) = Inr b' \<and> buffer_inv b' \<and> content b' = rest \<and>
      readableBytes b' < readableBytes b"
    by (auto simp: next_line_def mem_peek add.assoc)
qed

lemma headers_loop:
  assumes "buffer_inv b" and "http_state c = kExpectHeaders" and "readableBytes b < k"
  shows "\<exists>ok c' b'. parseRequest_loop k c b t = Inr (ok, c', b') \<and> buffer_inv b' \<and>
    header_result (http_headers (http_request c) (content b)) = (ok, c', content b')"
  using assms
proof (induction k arbitrary: c b)
  case (Suc k)
  show ?case
  proof (cases "findCRLF b")
    case None
    with Suc.prems findCRLF_next_line(1) [OF Suc.prems(1)] show ?thesis
      by (auto simp: http_headers.simps header_result_def)
  next
    case (Some p)
    let ?l = "mem b (peek b) (p - peek b)"
    obtain b' where b': "next_line (content b) = Some (?l, content b')"
        "retrieveUntil b (p + 2) = Inr b'" "buffer_inv b'" "readableBytes b' < readableBytes b"
      using findCRLF_next_line(2) [OF Suc.prems(1) Some] by blast
    show ?thesis
    proof (cases "58 \<in> set ?l")
      case True
      have "readableBytes b' < k" using b'(4) Suc.prems(3) by simp
      with Suc.IH [of b' "c\<lparr>http_request := addHeader (http_request c) ?l\<rparr>"] b' Some True Suc.prems
      show ?thesis by (simp add: http_headers.simps [of _ "content b"] Let_def)
    next
      case False
      with b' Some Suc.prems show ?thesis
        by (auto simp: http_headers.simps [of _ "content b"] Let_def header_result_def)
    qed
  qed
qed simp

lemma parseRequest_refines:
  assumes "buffer_inv b" and "http_state c = kExpectRequestLine \<or> http_state c = kExpectHeaders"
  shows "case http_parse c (content b) t of
      Inl f \<Rightarrow> parseRequest c b t = Inl f
    | Inr (ok, c', rest) \<Rightarrow>
        \<exists>b'. parseRequest c b t = Inr (ok, c', b') \<and> buffer_inv b' \<and> content b' = rest"
proof (cases "http_state c = kExpectHeaders")
  case True
  with headers_loop [OF assms(1) True, of "readableBytes b + 1" t] show ?thesis
    by (auto simp: http_parse_def parseRequest_def simp del: parseRequest_loop.simps split: prod.splits)
next
  case False
  with assms(2) have st: "http_state c = kExpectRequestLine" by blast
  show ?thesis
  proof (cases "findCRLF b")
    case None
    with st findCRLF_next_line(1) [OF assms(1)] assms(1) show ?thesis
      by (simp add: http_parse_def parseRequest_def)
  next
    case (Some p)
    let ?l = "mem b (peek b) (p - peek b)"
    obtain b' where b': "next_line (content b) = Some (?l, content b')"
        "retrieveUntil b (p + 2) = Inr b'" "buffer_inv b'" "readableBytes b' < readableBytes b"
      using findCRLF_next_line(2) [OF assms(1) Some] by blast
    show ?thesis
    proof (cases "processRequestLine (http_request c) ?l")
      case (Inl f)
      with st Some b' show ?thesis by (simp add: http_parse_def parseRequest_def)
    next
      case (Inr okr)
      obtain ok r where okr: "okr = (ok, r)" by (cases okr)
      let ?c = "c\<lparr>http_request := setReceiveTime r t, http_state := kExpectHeaders\<rparr>"
      show ?thesis
      proof (cases ok)
        case True
        have "http_state ?c = kExpectHeaders" by simp
        from headers_loop [OF b'(3) this b'(4), of t]
        show ?thesis using st Some b' Inr okr True
          by (auto simp: http_parse_def parseRequest_def)
      next
        case False
        with st Some b' Inr okr assms(1) show ?thesis by (simp add: http_parse_def parseRequest_def)
      qed
    qed
  qed
qed

section \<open>Writing a request\<close>

definition header_line :: "bytes \<times> bytes \<Rightarrow> bytes" where
  "header_line h = fst h @ [58, 32] @ snd h @ kCRLF"

definition request_bytes ::
  "Method \<Rightarrow> bytes \<Rightarrow> bytes \<Rightarrow> Version \<Rightarrow> (bytes \<times> bytes) list \<Rightarrow> bytes" where
  "request_bytes m path query v hs =
     methodString m @ [32] @ path @ query @ [32] @ str ''HTTP/1.'' @
     [if v = kHttp11 then 49 else 48] @ kCRLF @ concat (map header_line hs) @ kCRLF"

definition header_ok :: "bytes \<times> bytes \<Rightarrow> bool" where
  "header_ok h \<longleftrightarrow> 58 \<notin> set (fst h) \<and> 13 \<notin> set (fst h) \<and> 13 \<notin> set (snd h) \<and>
     (snd h \<noteq> [] \<longrightarrow> \<not> is_space (hd (snd h)) \<and> \<not> is_space (last (snd h)))"

definition uri_ok :: "bytes \<Rightarrow> bytes \<Rightarrow> bool" where
  "uri_ok path query \<longleftrightarrow> set path \<inter> {13, 32, 63} = {} \<and> set query \<inter> {13, 32} = {} \<and>
     (query \<noteq> [] \<longrightarrow> hd query = 63)"

lemma find_CRLF: "13 \<notin> set l \<Longrightarrow> find_sub kCRLF (l @ kCRLF @ rest) = Some (length l)"
  by (induction l) (auto simp: kCRLF_def)

lemma next_line_CRLF: "13 \<notin> set l \<Longrightarrow> next_line (l @ kCRLF @ rest) = Some (l, rest)"
  unfolding next_line_def find_CRLF by (simp add: kCRLF_def)

lemma takeWhile_stop: "x \<notin> set xs \<Longrightarrow> takeWhile (\<lambda>c. c \<noteq> x) (xs @ x # ys) = xs"
  by (induction xs) auto

lemma dropWhile_stop: "x \<notin> set xs \<Longrightarrow> dropWhile (\<lambda>c. c \<noteq> x) (xs @ x # ys) = x # ys"
  by (induction xs) auto

lemma trim_right_id: "xs = [] \<or> \<not> is_space (last xs) \<Longrightarrow> trim_right xs = xs"
  by (cases xs rule: rev_cases) (auto simp: trim_right_def)

lemma addHeader_line:
  assumes "header_ok h"
  shows "addHeader r (fst h @ [58, 32] @ snd h) = r\<lparr>req_headers := (req_headers r)(fst h \<mapsto> snd h)\<rparr>"
proof -
  have "dropWhile is_space (32 # snd h) = snd h"
    using assms by (cases "snd h") (auto simp: header_ok_def is_space_def)
  moreover have "trim_right (snd h) = snd h"
    using assms by (intro trim_right_id) (auto simp: header_ok_def)
  ultimately show ?thesis
    using assms by (simp add: addHeader_def takeWhile_stop dropWhile_stop header_ok_def)
qed

lemma http_headers_lines:
  "list_all header_ok hs \<Longrightarrow> http_headers r (concat (map header_line hs) @ kCRLF @ rest) =
     (r\<lparr>req_headers := req_headers r ++ map_of (rev hs)\<rparr>, True, rest)"
proof (induction hs arbitrary: r)
  case Nil
  then show ?case
    using next_line_CRLF [of "[]" rest] by (subst http_headers.simps) simp
next
  case (Cons h hs)
  have ok: "header_ok h" using Cons.prems by simp
  then have "13 \<notin> set (fst h @ [58, 32] @ snd h)" by (auto simp: header_ok_def)
  from next_line_CRLF [OF this]
  have n: "next_line (concat (map header_line (h # hs)) @ kCRLF @ rest) =
      Some (fst h @ [58, 32] @ snd h, concat (map header_line hs) @ kCRLF @ rest)"
    by (simp add: header_line_def)
  have m: "(req_headers r)(fst h \<mapsto> snd h) ++ map_of (rev hs) = req_headers r ++ map_of (rev (h # hs))"
    by (cases h) simp
  have "http_headers r (concat (map header_line (h # hs)) @ kCRLF @ rest) =
      http_headers (r\<lparr>req_headers := (req_headers r)(fst h \<mapsto> snd h)\<rparr>)
        (concat (map header_line hs) @ kCRLF @ rest)"
    by (subst http_headers.simps, subst n) (simp add: addHeader_line [OF ok, simplified])
  also have "\<dots> = (r\<lparr>req_headers := req_headers r ++ map_of (rev (h # hs))\<rparr>, True, rest)"
    using Cons.IH Cons.prems m by simp
  finally show ?case .
qed

lemma method_of_methodString: "m \<noteq> kInvalid \<Longrightarrow> method_of (methodString m) = m"
  by (cases m) (simp_all add: method_of_def str_def)

lemma methodString_chars: "32 \<notin> set (methodString m)" "13 \<notin> set (methodString m)"
  by (cases m; simp add: str_def)+

lemma set_uri_ok:
  assumes "uri_ok path query"
  shows "set_uri r (path @ query) =
    r\<lparr>req_path := path, req_query := (if query = [] then req_query r else query)\<rparr>"
proof (cases query)
  case Nil
  have "63 \<notin> set path" using assms by (auto simp: uri_ok_def)
  then have "dropWhile (\<lambda>c. c \<noteq> 63) path = []" by (auto simp: dropWhile_eq_Nil_conv)
  with Nil show ?thesis by (simp add: set_uri_def setPath_def)
next
  case (Cons q qs)
  then have "q = 63" "63 \<notin> set path" using assms by (auto simp: uri_ok_def)
  with Cons show ?thesis
    by (simp add: set_uri_def setPath_def setQuery_def takeWhile_stop dropWhile_stop)
qed

definition request_line :: "Method \<Rightarrow> bytes \<Rightarrow> bytes \<Rightarrow> Version \<Rightarrow> bytes" where
  "request_line m path query v = methodString m @ 32 # (path @ query) @ 32 #
     (str ''HTTP/1.'' @ [if v = kHttp11 then 49 else 48])"

lemma request_line_ok:
  assumes "m \<noteq> kInvalid" and "v \<noteq> kUnknown" and "uri_ok path query" and "req_method r = kInvalid"
  shows "processRequestLine r (request_line m path query v) =
    Inr (True, r\<lparr>req_method := m, req_path := path,
      req_query := (if query = [] then req_query r else query), req_version := v\<rparr>)"
proof -
  have u: "32 \<notin> set (path @ query)" using assms(3) by (auto simp: uri_ok_def)
  let ?v = "str ''HTTP/1.'' @ [if v = kHttp11 then 49 else 48]"
  have v: "length ?v = 8" "take 7 ?v = str ''HTTP/1.''" "?v ! 7 = (if v = kHttp11 then 49 else 48)"
    by (simp_all add: str_def)
  show ?thesis
    unfolding processRequestLine_def request_line_def Let_def
      takeWhile_stop [OF methodString_chars(1)] dropWhile_stop [OF methodString_chars(1)]
      list.sel takeWhile_stop [OF u] dropWhile_stop [OF u] v
    using assms(1,2,4) set_uri_ok [OF assms(3)]
    by (cases v) (simp_all add: setMethod_def method_of_methodString setVersion_def)
qed

lemma request_bytes_line:
  "request_bytes m path query v hs =
     request_line m path query v @ kCRLF @ concat (map header_line hs) @ kCRLF"
  by (simp add: request_bytes_def request_line_def)

lemma request_line_no_CR:
  "uri_ok path query \<Longrightarrow> 13 \<notin> set (request_line m path query v)"
  using methodString_chars(2) [of m] by (auto simp: request_line_def uri_ok_def str_def)

lemma http_parse_request:
  assumes "m \<noteq> kInvalid" and "v \<noteq> kUnknown" and "uri_ok path query" and "list_all header_ok hs"
  shows "http_parse HttpContext_ctor (request_bytes m path query v hs @ rest) t =
    Inr (True, \<lparr>http_state = kGotAll, http_request =
      \<lparr>req_method = m, req_version = v, req_path = path, req_query = query, req_receiveTime = t,
       req_headers = map_of (rev hs)\<rparr>\<rparr>, rest)"
proof -
  have n: "next_line (request_bytes m path query v hs @ rest) =
      Some (request_line m path query v, concat (map header_line hs) @ kCRLF @ rest)"
    using next_line_CRLF [OF request_line_no_CR [OF assms(3)]] by (simp add: request_bytes_line)
  have "req_method HttpRequest_ctor = kInvalid" by (simp add: HttpRequest_ctor_def)
  note p = request_line_ok [OF assms(1-3) this]
  have c: "http_state HttpContext_ctor = kExpectRequestLine"
      "http_request HttpContext_ctor = HttpRequest_ctor"
    by (simp_all add: HttpContext_ctor_def)
  show ?thesis
    unfolding http_parse_def n
    by (simp add: c p http_headers_lines [OF assms(4)] setReceiveTime_def header_result_def)
      (simp add: HttpRequest_ctor_def)
qed

lemma if_not_Inl: "x \<noteq> Inl f \<Longrightarrow> y \<noteq> Inl f \<Longrightarrow> (if c then x else y) \<noteq> Inl f"
  by simp

lemma processRequestLine_returns: "processRequestLine r l \<noteq> Inl OutOfFuel"
proof (cases "req_method r = kInvalid")
  case True
  then have m: "setMethod r x = Inr (method_of x \<noteq> kInvalid, r\<lparr>req_method := method_of x\<rparr>)" for x
    by (simp add: setMethod_def require_def)
  show ?thesis
    unfolding processRequestLine_def Let_def m rbind_simps prod.case
    by (intro if_not_Inl) (rule Inr_not_Inl)+
next
  case False
  then have m: "setMethod r x = Inl (AssertFail HttpRequest_h 69)" for x
    by (simp add: setMethod_def require_def)
  show ?thesis
    unfolding processRequestLine_def Let_def m rbind_simps
    by (intro if_not_Inl) simp_all
qed

lemma http_parse_returns:
  assumes "http_state c = kExpectRequestLine \<or> http_state c = kExpectHeaders"
  shows "http_parse c xs t \<noteq> Inl OutOfFuel"
proof (cases "http_state c = kExpectHeaders")
  case False
  with assms have st: "http_state c = kExpectRequestLine" by blast
  show ?thesis
  proof (cases "next_line xs")
    case (Some lr)
    obtain l rest where "lr = (l, rest)" by (cases lr)
    with Some st processRequestLine_returns [of "http_request c" l] show ?thesis
      by (cases "processRequestLine (http_request c) l") (auto simp: http_parse_def split: if_splits)
  qed (simp add: http_parse_def st)
qed (simp add: http_parse_def)

section \<open>Properties\<close>

text \<open>
  C11.  Parsing a request.  On a buffer that starts with a well formed request the
  parser consumes exactly the request, reaches \<^verbatim>\<open>kGotAll\<close>, and has recorded the
  method, the path, the query, the version and the headers, the last of two headers with
  one name.
\<close>

theorem http_request_roundtrip:
  assumes "buffer_inv b" and "content b = request_bytes m path query v hs @ rest"
    and "m \<noteq> kInvalid" and "v \<noteq> kUnknown" and "uri_ok path query" and "list_all header_ok hs"
  shows "\<exists>c b'. parseRequest HttpContext_ctor b t = Inr (True, c, b') \<and> gotAll c \<and>
    buffer_inv b' \<and> content b' = rest \<and>
    http_request c = \<lparr>req_method = m, req_version = v, req_path = path, req_query = query,
      req_receiveTime = t, req_headers = map_of (rev hs)\<rparr>"
  using parseRequest_refines [OF assms(1), of HttpContext_ctor t]
    http_parse_request [OF assms(3-6), of rest t] assms(2)
  by (auto simp: HttpContext_ctor_def gotAll_def)

definition demo_request :: bytes where
  "demo_request = request_bytes kGet [47, 99] [63, 97] kHttp11 [([72], [120]), ([72], [121])]"

definition demo_request_buffer :: Buffer where
  "demo_request_buffer = \<lparr>vec = replicate 8 0 @ demo_request, readerIndex = 8,
     writerIndex = 8 + length demo_request\<rparr>"

lemma http_request_roundtrip_witness:
  "\<exists>c b'. parseRequest HttpContext_ctor demo_request_buffer 5 = Inr (True, c, b') \<and> gotAll c \<and>
     buffer_inv b' \<and> content b' = [] \<and>
     http_request c = \<lparr>req_method = kGet, req_version = kHttp11, req_path = [47, 99],
       req_query = [63, 97], req_receiveTime = 5,
       req_headers = map_of (rev [([72], [120]), ([72], [121])])\<rparr>"
proof (rule http_request_roundtrip)
  show "buffer_inv demo_request_buffer"
    by (simp add: demo_request_buffer_def buffer_inv_def kCheapPrepend_def)
  show "content demo_request_buffer =
      request_bytes kGet [47, 99] [63, 97] kHttp11 [([72], [120]), ([72], [121])] @ []"
    by (simp add: demo_request_buffer_def content_def demo_request_def)
qed (simp_all add: uri_ok_def header_ok_def is_space_def)

lemma parseRequest_stuck:
  assumes "http_state c = kExpectBody \<or> http_state c = kGotAll"
  shows "parseRequest_loop k c b t = Inl OutOfFuel"
proof (induction k)
  case (Suc k)
  from assms show ?case
  proof
    assume "http_state c = kExpectBody"
    then show ?thesis by (simp only: parseRequest_loop.simps ParseState.case Suc.IH)
  next
    assume "http_state c = kGotAll"
    then show ?thesis by (simp only: parseRequest_loop.simps ParseState.case Suc.IH)
  qed
qed (simp only: parseRequest_loop.simps)

text \<open>
  C12.  Termination of the request parser.  While it expects the request line or
  headers, \<open>parseRequest\<close> returns or stops at an assertion on every buffer; called again
  after a complete request it loops forever, for no number of iterations is enough.
\<close>

theorem parseRequest_returns:
  assumes "buffer_inv b"
  shows "if http_state c = kExpectRequestLine \<or> http_state c = kExpectHeaders
    then parseRequest c b t \<noteq> Inl OutOfFuel
    else \<forall>k. parseRequest_loop k c b t = Inl OutOfFuel"
proof (cases "http_state c = kExpectRequestLine \<or> http_state c = kExpectHeaders")
  case True
  then have nf: "http_parse c (content b) t \<noteq> Inl OutOfFuel" by (rule http_parse_returns)
  have "parseRequest c b t \<noteq> Inl OutOfFuel"
  proof (cases "http_parse c (content b) t")
    case (Inl f)
    with nf parseRequest_refines [OF assms True, of t] show ?thesis by simp
  next
    case (Inr r)
    with parseRequest_refines [OF assms True, of t] show ?thesis by (cases r) auto
  qed
  with True show ?thesis by (simp only: if_True not_False_eq_True)
next
  case False
  then have "http_state c = kExpectBody \<or> http_state c = kGotAll" by (cases "http_state c") auto
  then have "\<forall>k. parseRequest_loop k c b t = Inl OutOfFuel" using parseRequest_stuck by blast
  with False show ?thesis by (simp only: if_False simp_thms)
qed

lemma parseRequest_returns_witness:
  "(\<forall>k. parseRequest_loop k \<lparr>http_state = kGotAll, http_request = HttpRequest_ctor\<rparr>
      (Buffer_ctor 4) 0 = Inl OutOfFuel) \<and>
   parseRequest HttpContext_ctor (Buffer_ctor 4) 0 \<noteq> Inl OutOfFuel"
proof
  show "\<forall>k. parseRequest_loop k \<lparr>http_state = kGotAll, http_request = HttpRequest_ctor\<rparr>
      (Buffer_ctor 4) 0 = Inl OutOfFuel"
    using parseRequest_returns [OF Buffer_ctor_ok(1) [of 4],
      where c = "\<lparr>http_state = kGotAll, http_request = HttpRequest_ctor\<rparr>" and t = 0]
    by (simp only: HttpContext.simps ParseState.simps simp_thms if_False)
  show "parseRequest HttpContext_ctor (Buffer_ctor 4) 0 \<noteq> Inl OutOfFuel"
    using parseRequest_returns [OF Buffer_ctor_ok(1) [of 4], where c = HttpContext_ctor and t = 0]
    by (simp only: HttpContext_ctor_def HttpContext.simps simp_thms if_True not_False_eq_True)
qed

end
