(* ===== verification/WS_Base64.thy ===== *)
theory WS_Base64
  imports WS_Prelude
begin

text \<open>
  \<^verbatim>\<open>libwebsocket/private/base64.cc\<close>.  The loops of \<^verbatim>\<open>Encode\<close> and \<^verbatim>\<open>Decode\<close> fill an array
  of three or four characters; the model carries the filled part of the array
  and \<^verbatim>\<open>ret\<close>.  \<open>encode_groups\<close> is the reference definition, group by group.
\<close>

section \<open>Encoding and decoding\<close>

definition base64_chars :: bytes where
  "base64_chars = str ''ABCDEFGHIJKLMNOPQRSTUVWXYZabcdefghijklmnopqrstuvwxyz0123456789+/''"

definition is_base64 :: "byte \<Rightarrow> bool" where
  "is_base64 c \<longleftrightarrow>
     (48 \<le> c \<and> c \<le> 57) \<or> (65 \<le> c \<and> c \<le> 90) \<or> (97 \<le> c \<and> c \<le> 122) \<or> c = 43 \<or> c = 47"

text \<open>\<^verbatim>\<open>char_array_4\<close> from \<^verbatim>\<open>char_array_3\<close>, and back.\<close>

definition char_array_4 :: "byte \<Rightarrow> byte \<Rightarrow> byte \<Rightarrow> bytes" where
  "char_array_4 a b c =
     [drop_bit 2 (a AND 0xFC),
      push_bit 4 (a AND 0x03) + drop_bit 4 (b AND 0xF0),
      push_bit 2 (b AND 0x0F) + drop_bit 6 (c AND 0xC0),
      c AND 0x3F]"

definition char_array_3 :: "byte \<Rightarrow> byte \<Rightarrow> byte \<Rightarrow> byte \<Rightarrow> bytes" where
  "char_array_3 p q r s =
     [push_bit 2 p + drop_bit 4 (q AND 0x30),
      push_bit 4 (q AND 0x0F) + drop_bit 2 (r AND 0x3C),
      push_bit 6 (r AND 0x03) + s]"

definition encode_char :: "byte \<Rightarrow> byte" where
  "encode_char x = base64_chars ! unat x"

text \<open>\<^verbatim>\<open>base64_chars.find(c)\<close>, stored into an \<^verbatim>\<open>unsigned char\<close>: \<^verbatim>\<open>npos\<close> becomes 255.\<close>

fun find_index :: "byte \<Rightarrow> bytes \<Rightarrow> nat option" where
  "find_index c [] = None"
| "find_index c (x # xs) = (if x = c then Some 0 else map_option Suc (find_index c xs))"

definition decode_char :: "byte \<Rightarrow> byte" where
  "decode_char c = (case find_index c base64_chars of None \<Rightarrow> 255 | Some i \<Rightarrow> of_nat i)"

fun Encode_loop :: "bytes \<Rightarrow> bytes \<Rightarrow> bytes \<Rightarrow> bytes \<times> bytes" where
  "Encode_loop [] arr ret = (arr, ret)"
| "Encode_loop (x # xs) arr ret =
     (let arr' = arr @ [x] in
      if length arr' = 3
      then Encode_loop xs [] (ret @ map encode_char (char_array_4 (arr' ! 0) (arr' ! 1) (arr' ! 2)))
      else Encode_loop xs arr' ret)"

definition Encode :: "bytes \<Rightarrow> bytes" where
  "Encode bytes_to_encode =
     (case Encode_loop bytes_to_encode [] [] of
        (arr, ret) \<Rightarrow>
          if arr = [] then ret
          else (let i = length arr; a = arr @ replicate (3 - i) 0 in
            ret @ map encode_char (take (i + 1) (char_array_4 (a ! 0) (a ! 1) (a ! 2))) @
            replicate (3 - i) 61))"

fun Decode_loop :: "bytes \<Rightarrow> bytes \<Rightarrow> bytes \<Rightarrow> bytes \<times> bytes" where
  "Decode_loop [] arr ret = (arr, ret)"
| "Decode_loop (x # xs) arr ret =
     (if x \<noteq> 61 \<and> is_base64 x
      then (let arr' = arr @ [x] in
        if length arr' = 4
        then (let d = map decode_char arr' in
          Decode_loop xs [] (ret @ char_array_3 (d ! 0) (d ! 1) (d ! 2) (d ! 3)))
        else Decode_loop xs arr' ret)
      else (arr, ret))"

definition Decode :: "bytes \<Rightarrow> bytes" where
  "Decode encoded_string =
     (case Decode_loop encoded_string [] [] of
        (arr, ret) \<Rightarrow>
          if arr = [] then ret
          else (let i = length arr; d = map decode_char (arr @ replicate (4 - i) 0) in
            ret @ take (i - 1) (char_array_3 (d ! 0) (d ! 1) (d ! 2) (d ! 3))))"

section \<open>The reference definition\<close>

fun encode_groups :: "bytes \<Rightarrow> bytes" where
  "encode_groups (a # b # c # xs) = map encode_char (char_array_4 a b c) @ encode_groups xs"
| "encode_groups [a, b] = map encode_char (take 3 (char_array_4 a b 0)) @ [61]"
| "encode_groups [a] = map encode_char (take 2 (char_array_4 a 0 0)) @ [61, 61]"
| "encode_groups [] = []"

lemma Encode_loop_groups:
  "Encode_loop xs [] ret = (arr, r) \<Longrightarrow>
     (if arr = [] then r
      else (let i = length arr; a = arr @ replicate (3 - i) 0 in
        r @ map encode_char (take (i + 1) (char_array_4 (a ! 0) (a ! 1) (a ! 2))) @
        replicate (3 - i) 61)) = ret @ encode_groups xs"
proof (induction xs arbitrary: ret rule: encode_groups.induct)
  case (2 a b)
  then have "arr = [a, b]" "r = ret" by auto
  then show ?case by (simp add: numeral_2_eq_2 numeral_3_eq_3)
next
  case (3 a)
  then have "arr = [a]" "r = ret" by auto
  then show ?case by (simp add: numeral_2_eq_2)
qed (auto simp: Let_def)

lemma Encode_groups: "Encode xs = encode_groups xs"
  using Encode_loop_groups [of xs "[]"] by (auto simp: Encode_def split: prod.splits)

section \<open>Six bits at a time\<close>

lemma byte_masks:
  "(0xFC :: byte) = NOT (mask 2)" "(0x03 :: byte) = mask 2" "(0xF0 :: byte) = NOT (mask 4)"
  "(0x0F :: byte) = mask 4" "(0xC0 :: byte) = NOT (mask 6)" "(0x3F :: byte) = mask 6"
  "(0x30 :: byte) = push_bit 4 (mask 2)" "(0x3C :: byte) = push_bit 2 (mask 4)"
  by (simp_all add: mask_eq_exp_minus_1)

lemma drop_bit_high: "drop_bit n (x AND NOT (mask n)) = drop_bit n (x :: 'a::len word)"
  by (rule bit_word_eqI) (auto simp: bit_simps dest: bit_imp_le_length)

lemma drop_bit_mid: "drop_bit n (x AND push_bit n (mask m)) = take_bit m (drop_bit n (x :: 'a::len word))"
  by (rule bit_word_eqI) (auto simp: bit_simps dest: bit_imp_le_length)

lemma unat_drop_byte: "unat (drop_bit n (x :: byte)) = unat x div 2 ^ n"
  by (subst unsigned_drop_bit_eq) (simp add: drop_bit_eq_div take_bit_nat_eq_self byte_cases_256)

lemma unat_take_byte: "unat (take_bit n (x :: byte)) = unat x mod 2 ^ n"
  by (subst unsigned_take_bit_eq) (simp add: take_bit_eq_mod)

lemma unat_push_byte: "unat (x :: byte) * 2 ^ n < 256 \<Longrightarrow> unat (push_bit n x) = unat x * 2 ^ n"
  by (subst unsigned_push_bit_eq) (simp add: push_bit_eq_mult take_bit_eq_mod)

lemma unat_add_byte: "unat (x :: byte) + unat y < 256 \<Longrightarrow> unat (x + y) = unat x + unat y"
  by (simp add: unat_word_ariths)

text \<open>The four sextets as numbers.\<close>

lemma char_array_4_unat:
  "map unat (char_array_4 a b c) =
     [unat a div 4, unat a mod 4 * 16 + unat b div 16, unat b mod 16 * 4 + unat c div 64,
      unat c mod 64]"
proof -
  have b: "unat a < 256" "unat b < 256" "unat c < 256" by (rule byte_cases_256)+
  have m: "unat a mod 4 \<le> 3" "unat b mod 16 \<le> 15" "unat b div 16 \<le> 15" "unat c div 64 \<le> 3"
    using b by auto
  show ?thesis
    unfolding char_array_4_def byte_masks drop_bit_high take_bit_eq_mask [symmetric]
    using m by (simp add: unat_add_byte unat_drop_byte unat_take_byte unat_push_byte)
qed

lemma char_array_3_unat:
  assumes "unat p < 64" "unat q < 64" "unat r < 64" "unat s < 64"
  shows "map unat (char_array_3 p q r s) =
     [unat p * 4 + unat q div 16, unat q mod 16 * 16 + unat r div 4, unat r mod 4 * 64 + unat s]"
proof -
  have m: "unat q div 16 < 4" "unat r div 4 < 16" "unat q mod 16 \<le> 15" "unat r mod 4 \<le> 3"
    using assms by auto
  show ?thesis
    unfolding char_array_3_def byte_masks drop_bit_mid take_bit_eq_mask [symmetric]
    using m assms by (simp add: unat_add_byte unat_drop_byte unat_take_byte unat_push_byte)
qed

lemma bytes_eqI: "map unat xs = map unat ys \<Longrightarrow> xs = (ys :: bytes)"
proof (induction xs arbitrary: ys)
  case (Cons x xs)
  then show ?case by (cases ys) (auto simp: word_unat_eq_iff)
qed simp

lemma group_roundtrip:
  assumes "char_array_4 a b c = [p, q, r, s]"
  shows "char_array_3 p q r s = [a, b, c]"
    and "unat p < 64" "unat q < 64" "unat r < 64" "unat s < 64"
proof -
  note u = char_array_4_unat [of a b c, unfolded assms]
  have b: "unat a < 256" "unat b < 256" "unat c < 256" by (rule byte_cases_256)+
  then show s: "unat p < 64" "unat q < 64" "unat r < 64" "unat s < 64"
    using u by auto
  show "char_array_3 p q r s = [a, b, c]"
    by (rule bytes_eqI, subst char_array_3_unat [OF s]) (use u b in auto)
qed

text \<open>The alphabet.\<close>

lemma base64_chars_list: "base64_chars = map of_nat ([65..<91] @ [97..<123] @ [48..<58] @ [43, 47])"
  by (simp add: base64_chars_def str_def upt_rec)

lemma base64_codes: "k \<in> set ([65..<91] @ [97..<123] @ [48..<58] @ [43, 47]) \<Longrightarrow>
    65 \<le> k \<and> k \<le> 90 \<or> 97 \<le> k \<and> k \<le> 122 \<or> 48 \<le> k \<and> k \<le> 57 \<or> k = 43 \<or> k = (47 :: nat)"
  by (auto simp del: upt_rec_numeral)

lemma base64_chars_distinct: "distinct base64_chars"
proof -
  have "inj_on (of_nat :: nat \<Rightarrow> byte) (set ([65..<91] @ [97..<123] @ [48..<58] @ [43, 47]))"
  proof (rule inj_onI)
    fix k l
    assume "k \<in> set ([65..<91] @ [97..<123] @ [48..<58] @ [43, 47])"
      and "l \<in> set ([65..<91] @ [97..<123] @ [48..<58] @ [43, 47])"
      and e: "(of_nat k :: byte) = of_nat l"
    then have "k < 256" "l < 256" by (auto dest!: base64_codes simp del: upt_rec_numeral set_append)
    with e show "k = l" by (simp add: word_unat_eq_iff unat_of_nat)
  qed
  moreover have "distinct ([65..<91] @ [97..<123] @ [48..<58] @ [43, 47 :: nat])"
    by (auto simp del: upt_rec_numeral)
  ultimately show ?thesis unfolding base64_chars_list distinct_map by blast
qed

lemma base64_chars_ok: "c \<in> set base64_chars \<Longrightarrow> is_base64 c \<and> c \<noteq> 61"
proof -
  assume "c \<in> set base64_chars"
  then obtain k where k: "k \<in> set ([65..<91] @ [97..<123] @ [48..<58] @ [43, 47])" "c = of_nat k"
    unfolding base64_chars_list set_map by blast
  note b = base64_codes [OF k(1)]
  then have "unat c = k" using k(2) by (auto simp: unat_of_nat)
  with b show ?thesis
    by (auto simp: is_base64_def word_le_nat_alt word_unat_eq_iff)
qed

lemma base64_chars_length: "length base64_chars = 64"
  by (simp add: base64_chars_list del: upt_rec_numeral)

lemma find_index_nth: "distinct xs \<Longrightarrow> i < length xs \<Longrightarrow> find_index (xs ! i) xs = Some i"
proof (induction xs arbitrary: i)
  case (Cons x xs)
  then show ?case by (cases i) auto
qed simp

lemma encode_char_ok:
  assumes "unat x < 64"
  shows "decode_char (encode_char x) = x" "is_base64 (encode_char x)" "encode_char x \<noteq> 61"
proof -
  have l: "unat x < length base64_chars" using assms by (simp add: base64_chars_length)
  then show "decode_char (encode_char x) = x"
    by (simp add: decode_char_def encode_char_def find_index_nth [OF base64_chars_distinct l])
  show "is_base64 (encode_char x)" "encode_char x \<noteq> 61"
    using base64_chars_ok [OF nth_mem [OF l]] by (simp_all add: encode_char_def)
qed

section \<open>The round trip\<close>

lemma Decode_loop_group:
  assumes "unat p < 64" "unat q < 64" "unat r < 64" "unat s < 64"
  shows "Decode_loop (map encode_char [p, q, r, s] @ xs) [] ret =
    Decode_loop xs [] (ret @ char_array_3 p q r s)"
  using assms by (simp add: encode_char_ok)

lemma Decode_loop_groups:
  "Decode_loop (encode_groups xs) [] ret = (arr, ra) \<Longrightarrow>
     (if arr = [] then ra
      else (let i = length arr; d = map decode_char (arr @ replicate (4 - i) 0) in
        ra @ take (i - 1) (char_array_3 (d ! 0) (d ! 1) (d ! 2) (d ! 3)))) = ret @ xs"
proof (induction xs arbitrary: ret rule: encode_groups.induct)
  case (1 a b c xs)
  obtain p q r s where g: "char_array_4 a b c = [p, q, r, s]" by (simp add: char_array_4_def)
  note r = group_roundtrip [OF g]
  have "Decode_loop (encode_groups (a # b # c # xs)) [] ret =
      Decode_loop (encode_groups xs) [] (ret @ [a, b, c])"
    using Decode_loop_group [OF r(2-5), of "encode_groups xs" ret] by (simp only: encode_groups.simps g r(1))
  with 1 show ?case by (simp only: append_assoc append.simps)
next
  case (2 a b)
  obtain p q r s where g: "char_array_4 a b 0 = [p, q, r, s]" by (simp add: char_array_4_def)
  note r = group_roundtrip [OF g]
  let ?x = "decode_char 0"
  have "take 2 (char_array_3 p q r ?x) = take 2 (char_array_3 p q r s)"
    by (simp add: char_array_3_def)
  then have "take 2 (char_array_3 p q r ?x) = [a, b]" using r(1) by simp
  moreover have "Decode_loop (encode_groups [a, b]) [] ret = (map encode_char [p, q, r], ret)"
    using r(2-4) by (simp add: g encode_char_ok numeral_3_eq_3)
  moreover have "arr = map encode_char [p, q, r]" "ra = ret" using 2 calculation(2) by simp_all
  ultimately show ?case by (simp add: encode_char_ok r(2-4) numeral_2_eq_2)
next
  case (3 a)
  obtain p q r s where g: "char_array_4 a 0 0 = [p, q, r, s]" by (simp add: char_array_4_def)
  note r = group_roundtrip [OF g]
  let ?x = "decode_char 0"
  have "take 1 (char_array_3 p q ?x ?x) = take 1 (char_array_3 p q r s)"
    by (simp add: char_array_3_def)
  then have "take 1 (char_array_3 p q ?x ?x) = [a]" using r(1) by simp
  moreover have "Decode_loop (encode_groups [a]) [] ret = (map encode_char [p, q], ret)"
    using r(2,3) by (simp add: g encode_char_ok numeral_2_eq_2)
  moreover have "arr = map encode_char [p, q]" "ra = ret" using 3 calculation(2) by simp_all
  ultimately show ?case by (simp add: encode_char_ok r(2,3) numeral_2_eq_2)
qed simp

lemma Encode_length: "length (Encode xs) = 4 * ((length xs + 2) div 3)"
  unfolding Encode_groups
proof (induction xs rule: encode_groups.induct)
  case (1 a b c xs)
  have "length (a # b # c # xs) + 2 = (length xs + 2) + 3" by simp
  then have "(length (a # b # c # xs) + 2) div 3 = (length xs + 2) div 3 + 1"
    by (simp only: div_add_self2)
  with 1 show ?case by (simp add: char_array_4_def)
qed (simp_all add: char_array_4_def)

section \<open>The encoding of RFC 4648\<close>

text \<open>
  Three bytes are a number of 24 bits, written with four digits to the base 64; the digits are the letters in upper
  and lower case, the decimal digits, \<^verbatim>\<open>+\<close> and \<^verbatim>\<open>/\<close>.  The last one or two bytes are filled up with zero bits, and
  the missing digits are written \<^verbatim>\<open>=\<close>.
\<close>

definition rfc_digit :: "nat \<Rightarrow> byte" where
  "rfc_digit k =
     of_nat (if k < 26 then 65 + k else if k < 52 then 97 + (k - 26) else if k < 62 then 48 + (k - 52)
       else if k = 62 then 43 else 47)"

definition rfc_digits :: "byte \<Rightarrow> byte \<Rightarrow> byte \<Rightarrow> bytes" where
  "rfc_digits a b c =
     (let n = 65536 * unat a + 256 * unat b + unat c
      in map rfc_digit [n div 262144, n div 4096 mod 64, n div 64 mod 64, n mod 64])"

fun rfc_base64 :: "bytes \<Rightarrow> bytes" where
  "rfc_base64 (a # b # c # xs) = rfc_digits a b c @ rfc_base64 xs"
| "rfc_base64 [a, b] = take 3 (rfc_digits a b 0) @ str ''=''"
| "rfc_base64 [a] = take 2 (rfc_digits a 0 0) @ str ''==''"
| "rfc_base64 [] = []"

lemma encode_char_digit: "unat x < 64 \<Longrightarrow> encode_char x = rfc_digit (unat x)"
  unfolding encode_char_def base64_chars_list rfc_digit_def
  by (auto simp: nth_append nth_Cons' simp del: upt_rec_numeral)

lemma div_mod_unique:
  "(n::nat) = k * q + r \<Longrightarrow> r < k \<Longrightarrow> n div k = q" "(n::nat) = k * q + r \<Longrightarrow> r < k \<Longrightarrow> n mod k = r"
  by simp_all

lemma char_array_4_digits: "map encode_char (char_array_4 a b c) = rfc_digits a b c"
proof -
  have b: "unat a < 256" "unat b < 256" "unat c < 256" by (rule byte_cases_256)+
  note u = char_array_4_unat [of a b c]
  have "\<forall>x \<in> set (char_array_4 a b c). unat x < 64"
  proof -
    have "unat ` set (char_array_4 a b c) = set (map unat (char_array_4 a b c))" by simp
    also have "\<dots> \<subseteq> {..<64}" unfolding u using b by auto
    finally show ?thesis by auto
  qed
  then have "map encode_char (char_array_4 a b c) = map rfc_digit (map unat (char_array_4 a b c))"
    by (simp add: encode_char_digit)
  moreover define n where "n = 65536 * unat a + 256 * unat b + unat c"
  have "n div 262144 = unat a div 4" "n div 4096 mod 64 = unat a mod 4 * 16 + unat b div 16"
    "n div 64 mod 64 = unat b mod 16 * 4 + unat c div 64" "n mod 64 = unat c mod 64"
  proof -
    define p q s t u v where "p = unat a div 4" and "q = unat a mod 4" and "s = unat b div 16" and "t = unat b mod 16"
      and "u = unat c div 64" and "v = unat c mod 64"
    have abc: "unat a = 4 * p + q" "unat b = 16 * s + t" "unat c = 64 * u + v"
      by (simp_all add: p_def q_def s_def t_def u_def v_def)
    have l: "q < 4" "s < 16" "t < 16" "u < 4" "v < 64"
      using b by (simp_all add: q_def s_def t_def u_def v_def less_mult_imp_div_less)
    have n: "n = 262144 * p + (65536 * q + 4096 * s + 256 * t + 64 * u + v)"
        "n = 4096 * (64 * p + (16 * q + s)) + (256 * t + 64 * u + v)"
        "n = 64 * (64 * (64 * p + (16 * q + s)) + (4 * t + u)) + v"
      unfolding n_def abc by simp_all
    show "n div 262144 = unat a div 4" unfolding p_def [symmetric] using l by (intro div_mod_unique(1) [OF n(1)]) simp
    have "n div 4096 = 64 * p + (16 * q + s)" using l by (intro div_mod_unique(1) [OF n(2)]) simp
    from div_mod_unique(2) [OF this] l show "n div 4096 mod 64 = unat a mod 4 * 16 + unat b div 16"
      unfolding q_def [symmetric] s_def [symmetric] by simp
    have "n div 64 = 64 * (64 * p + (16 * q + s)) + (4 * t + u)" using l by (intro div_mod_unique(1) [OF n(3)]) simp
    from div_mod_unique(2) [OF this] l show "n div 64 mod 64 = unat b mod 16 * 4 + unat c div 64"
      unfolding t_def [symmetric] u_def [symmetric] by simp
    show "n mod 64 = unat c mod 64"
      unfolding v_def [symmetric] using l by (intro div_mod_unique(2) [OF n(3)]) simp
  qed
  ultimately show ?thesis unfolding u rfc_digits_def n_def [symmetric] Let_def by simp
qed

lemma Encode_rfc: "Encode xs = rfc_base64 xs"
  unfolding Encode_groups
  by (induction xs rule: rfc_base64.induct)
    (simp_all add: char_array_4_digits take_map [symmetric] str_def)

section \<open>Properties\<close>

text \<open>
  C10.  Base64.  Decoding what was encoded gives the bytes back, and the encoding
  of \<open>n\<close> bytes has \<open>4 * \<lceil>n / 3\<rceil>\<close> characters.
\<close>

theorem Decode_Encode:
  "Decode (Encode xs) = xs \<and> length (Encode xs) = 4 * ((length xs + 2) div 3)"
proof -
  obtain arr r where e: "Decode_loop (encode_groups xs) [] [] = (arr, r)" by fastforce
  have "Decode (Encode xs) = xs"
    using Decode_loop_groups [OF e] by (simp only: Decode_def Encode_groups e prod.case append_Nil)
  with Encode_length show ?thesis by blast
qed

end
