(* ===== verification/WS_Date.thy ===== *)
theory WS_Date
  imports WS_Prelude "HOL-Library.Signed_Division"
begin

text \<open>
  Calendar arithmetic: \<^verbatim>\<open>muduo::Date\<close> (\<^verbatim>\<open>muduo/base/Date.h\<close>, \<^verbatim>\<open>Date.cc\<close>).  A C++ \<^verbatim>\<open>int\<close> is
  an integer, and \<open>sdiv\<close>, \<open>smod\<close> are its truncating division and remainder.  Overflow of signed
  arithmetic has no meaning in the language, so \<open>getJulianDayNumber\<close> and \<open>getYearMonthDay\<close> are what the code
  computes where every value of \<open>getJulianDayNumber_ints\<close>, \<open>getYearMonthDay_ints\<close>, the value of each
  subexpression in the order of the code, fits in 32 bits.  The
  reference is the Gregorian calendar given by the length of its months
  (\<open>valid_date\<close>) and the day after a day (\<open>next_day\<close>).
\<close>

section \<open>Date\<close>

record YearMonthDay =
  ymd_year :: int
  ymd_month :: int
  ymd_day :: int

definition getJulianDayNumber :: "int \<Rightarrow> int \<Rightarrow> int \<Rightarrow> int" where
  "getJulianDayNumber year month day =
     (let a = (14 - month) sdiv 12;
          y = year + 4800 - a;
          m = month + 12 * a - 3
      in day + (153 * m + 2) sdiv 5 + y * 365 + y sdiv 4 - y sdiv 100 + y sdiv 400 - 32045)"

definition getYearMonthDay :: "int \<Rightarrow> YearMonthDay" where
  "getYearMonthDay julianDayNumber =
     (let a = julianDayNumber + 32044;
          b = (4 * a + 3) sdiv 146097;
          c = a - (b * 146097) sdiv 4;
          d = (4 * c + 3) sdiv 1461;
          e = c - (1461 * d) sdiv 4;
          m = (5 * e + 2) sdiv 153
      in \<lparr>ymd_year = b * 100 + d - 4800 + m sdiv 10,
          ymd_month = m + 3 - 12 * (m sdiv 10),
          ymd_day = e - (153 * m + 2) sdiv 5 + 1\<rparr>)"

definition is_int32 :: "int \<Rightarrow> bool" where
  "is_int32 x \<longleftrightarrow> - (2 ^ 31) \<le> x \<and> x < 2 ^ 31"

definition getJulianDayNumber_ints :: "int \<Rightarrow> int \<Rightarrow> int \<Rightarrow> int list" where
  "getJulianDayNumber_ints year month day =
     (let a = (14 - month) sdiv 12;
          y = year + 4800 - a;
          m = month + 12 * a - 3;
          s1 = day + (153 * m + 2) sdiv 5;
          s2 = s1 + y * 365;
          s3 = s2 + y sdiv 4;
          s4 = s3 - y sdiv 100;
          s5 = s4 + y sdiv 400
      in [14 - month, a, year + 4800, y, 12 * a, month + 12 * a, m,
          153 * m, 153 * m + 2, (153 * m + 2) sdiv 5, s1, y * 365, s2, y sdiv 4, s3, y sdiv 100, s4,
          y sdiv 400, s5, s5 - 32045])"

definition getYearMonthDay_ints :: "int \<Rightarrow> int list" where
  "getYearMonthDay_ints julianDayNumber =
     (let a = julianDayNumber + 32044;
          b = (4 * a + 3) sdiv 146097;
          c = a - (b * 146097) sdiv 4;
          d = (4 * c + 3) sdiv 1461;
          e = c - (1461 * d) sdiv 4;
          m = (5 * e + 2) sdiv 153
      in [a, 4 * a, 4 * a + 3, b, b * 146097, (b * 146097) sdiv 4, c, 4 * c, 4 * c + 3, d,
          1461 * d, (1461 * d) sdiv 4, e, 5 * e, 5 * e + 2, m,
          153 * m, 153 * m + 2, (153 * m + 2) sdiv 5, e - (153 * m + 2) sdiv 5, e - (153 * m + 2) sdiv 5 + 1,
          m + 3, m sdiv 10, 12 * (m sdiv 10), m + 3 - 12 * (m sdiv 10),
          b * 100, b * 100 + d, b * 100 + d - 4800, b * 100 + d - 4800 + m sdiv 10])"

definition kJulianDayOf1970_01_01 :: int where
  "kJulianDayOf1970_01_01 = getJulianDayNumber 1970 1 1"

text \<open>A \<^verbatim>\<open>Date\<close> is its Julian day number.\<close>

record Date =
  julianDayNumber :: int

definition Date_invalid :: Date where
  "Date_invalid = \<lparr>julianDayNumber = 0\<rparr>"

definition Date_of_ymd :: "int \<Rightarrow> int \<Rightarrow> int \<Rightarrow> Date" where
  "Date_of_ymd y m d = \<lparr>julianDayNumber = getJulianDayNumber y m d\<rparr>"

definition Date_valid :: "Date \<Rightarrow> bool" where
  "Date_valid x \<longleftrightarrow> julianDayNumber x > 0"

definition yearMonthDay :: "Date \<Rightarrow> YearMonthDay" where
  "yearMonthDay x = getYearMonthDay (julianDayNumber x)"

definition weekDay :: "Date \<Rightarrow> int" where
  "weekDay x = (julianDayNumber x + 1) smod 7"

definition Date_less :: "Date \<Rightarrow> Date \<Rightarrow> bool" where
  "Date_less x y \<longleftrightarrow> julianDayNumber x < julianDayNumber y"

section \<open>The Gregorian calendar\<close>

definition is_leap :: "int \<Rightarrow> bool" where
  "is_leap y \<longleftrightarrow> y mod 4 = 0 \<and> (y mod 100 \<noteq> 0 \<or> y mod 400 = 0)"

definition days_in_month :: "int \<Rightarrow> int \<Rightarrow> int" where
  "days_in_month y m =
     (if m = 2 then (if is_leap y then 29 else 28)
      else if m = 4 \<or> m = 6 \<or> m = 9 \<or> m = 11 then 30 else 31)"

definition valid_date :: "int \<Rightarrow> int \<Rightarrow> int \<Rightarrow> bool" where
  "valid_date y m d \<longleftrightarrow> 1 \<le> m \<and> m \<le> 12 \<and> 1 \<le> d \<and> d \<le> days_in_month y m"

definition next_day :: "int \<times> int \<times> int \<Rightarrow> int \<times> int \<times> int" where
  "next_day = (\<lambda>(y, m, d).
     if d < days_in_month y m then (y, m, d + 1)
     else if m < 12 then (y, m + 1, 1) else (y + 1, 1, 1))"

lemma sdiv_nonneg [simp]: "0 \<le> a \<Longrightarrow> 0 < b \<Longrightarrow> a sdiv b = a div (b::int)"
  by (cases "a = 0") (simp_all add: signed_divide_int_def)

lemma smod_nonneg [simp]: "0 \<le> a \<Longrightarrow> 0 < b \<Longrightarrow> a smod b = a mod (b::int)"
  by (cases "a = 0") (simp_all add: signed_modulo_int_def)

text \<open>
  Years that start in March: \<open>Y\<close> is the year counted from March of year -4800,
  \<open>M\<close> its month from 0, and \<open>E\<close> the day in that year from 0.
\<close>

definition march_year :: "int \<Rightarrow> int \<Rightarrow> int" where
  "march_year y m = y + 4800 - (if m \<le> 2 then 1 else 0)"

definition march_month :: "int \<Rightarrow> int" where
  "march_month m = (if m \<le> 2 then m + 9 else m - 3)"

lemma march_bounds:
  assumes "1 \<le> m" "m \<le> 12"
  shows "0 \<le> march_month m" "march_month m \<le> 11" "(14 - m) sdiv 12 = (if m \<le> 2 then 1 else 0)"
proof -
  show "0 \<le> march_month m" "march_month m \<le> 11" using assms by (simp_all add: march_month_def)
  have "0 \<le> 14 - m" using assms by simp
  then have "(14 - m) sdiv 12 = (14 - m) div 12" by simp
  also have "\<dots> = (if m \<le> 2 then 1 else 0)" using assms by presburger
  finally show "(14 - m) sdiv 12 = (if m \<le> 2 then 1 else 0)" .
qed

definition march_day :: "int \<Rightarrow> int \<Rightarrow> int" where
  "march_day m d = d - 1 + (153 * march_month m + 2) div 5"

definition leap_days :: "int \<Rightarrow> int" where
  "leap_days Y = Y div 4 - Y div 100 + Y div 400"

lemma julian_march:
  assumes "1 \<le> m" "m \<le> 12" "-4799 \<le> y"
  shows "getJulianDayNumber y m d + 32044 = march_day m d + 365 * march_year y m + leap_days (march_year y m)"
proof -
  let ?a = "(if m \<le> 2 then 1 else 0) :: int"
  have Y: "y + 4800 - ?a = march_year y m" "0 \<le> march_year y m"
    using assms by (simp_all add: march_year_def)
  have M: "m + 12 * ?a - 3 = march_month m" by (simp add: march_month_def)
  show ?thesis
    unfolding getJulianDayNumber_def Let_def march_bounds(3) [OF assms(1,2)] Y(1) M march_day_def leap_days_def
    using Y(2) march_bounds(1) [OF assms(1,2)] by simp
qed

lemma months: "1 \<le> m \<Longrightarrow> m \<le> (12::int) \<Longrightarrow>
    m = 1 \<or> m = 2 \<or> m = 3 \<or> m = 4 \<or> m = 5 \<or> m = 6 \<or> m = 7 \<or> m = 8 \<or> m = 9 \<or> m = 10 \<or> m = 11 \<or> m = 12"
  by arith

lemma march_day_month:
  assumes "valid_date y m d"
  shows "(5 * march_day m d + 2) div 153 = march_month m"
proof -
  have "1 \<le> m" "m \<le> 12" "1 \<le> d" "d \<le> days_in_month y m" using assms by (simp_all add: valid_date_def)
  moreover have "days_in_month y m \<le>
      (if m = 2 then 29 else if m = 4 \<or> m = 6 \<or> m = 9 \<or> m = 11 then 30 else 31)"
    by (simp add: days_in_month_def)
  ultimately have "0 \<le> 5 * march_day m d + 2 - 153 * march_month m"
      "5 * march_day m d + 2 - 153 * march_month m < 153"
    using months [of m] by (auto simp: march_day_def march_month_def)
  then show ?thesis
    by (intro int_div_pos_eq [where r = "5 * march_day m d + 2 - 153 * march_month m"]) auto
qed

lemma days_in_month_le:
  "days_in_month y m \<le>
     (if m = 2 then 29 else if m = 4 \<or> m = 6 \<or> m = 9 \<or> m = 11 then 30 else 31)"
  "1 \<le> days_in_month y m" "d = 29 \<Longrightarrow> m = 2 \<Longrightarrow> d \<le> days_in_month y m \<Longrightarrow> is_leap y"
  by (simp_all add: days_in_month_def split: if_splits)

lemma is_leap_shift: "is_leap (y + 4800) = is_leap y"
proof -
  have "(4::int) dvd 4800" "(100::int) dvd 4800" "(400::int) dvd 4800" by simp_all
  then show ?thesis unfolding is_leap_def mod_eq_0_iff_dvd by (simp only: dvd_add_left_iff)
qed

lemma march_day_bounds:
  assumes "valid_date y m d"
  shows "0 \<le> march_day m d" "march_day m d \<le> 365"
    "march_day m d = 365 \<Longrightarrow> is_leap (march_year y m + 1)"
proof -
  have v: "1 \<le> m" "m \<le> 12" "1 \<le> d" "d \<le> days_in_month y m" using assms by (simp_all add: valid_date_def)
  then show "0 \<le> march_day m d" using march_bounds(1) [OF v(1,2)] by (simp add: march_day_def)
  have d: "d \<le> (if m = 2 then 29 else if m = 4 \<or> m = 6 \<or> m = 9 \<or> m = 11 then 30 else 31)"
    using v(4) days_in_month_le(1) [of y m] by (rule order_trans)
  show "march_day m d \<le> 365"
    using d months [OF v(1,2)] by (auto simp: march_day_def march_month_def)
  assume e: "march_day m d = 365"
  have m: "m = 2" "d = 29"
    using d months [OF v(1,2)] e by (auto simp: march_day_def march_month_def)
  with v(4) have "is_leap y" using days_in_month_le(3) by blast
  moreover have "march_year y m + 1 = y + 4800" using m by (simp add: march_year_def)
  ultimately show "is_leap (march_year y m + 1)" by (simp only: is_leap_shift)
qed

text \<open>The decomposition into centuries, years of a century and days.\<close>

lemma century_parts:
  fixes b s :: int
  assumes b: "b = 4 * q + r" "0 \<le> r" "r \<le> 3" and s: "s = 4 * u + v" "0 \<le> v" "v \<le> 3" "0 \<le> s" "s \<le> 99"
    and E: "0 \<le> E" "E \<le> 365" "E = 365 \<Longrightarrow> v = 3 \<and> (s \<noteq> 99 \<or> r = 3)"
  shows "(4 * (36524 * b + q + (E + 365 * s + u)) + 3) div 146097 = b" "(146097 * b) div 4 = 36524 * b + q"
    "(4 * (E + 365 * s + u) + 3) div 1461 = s" "(1461 * s) div 4 = 365 * s + u"
proof -
  have u: "0 \<le> u" "u \<le> 24" using s by arith+
  have c: "4 * (E + 365 * s + u) + 3 - r < 146097"
  proof (cases "E = 365 \<and> s = 99")
    case True
    with E(3) have "r = 3" by blast
    with True u show ?thesis by simp
  next
    case False
    with E(2) s(5) have "E \<le> 364 \<or> s \<le> 98" by arith
    with E(2) s(5) u b(2) show ?thesis by auto
  qed
  show "(4 * (36524 * b + q + (E + 365 * s + u)) + 3) div 146097 = b"
    using b c E(1) s(4) u by (intro int_div_pos_eq [where r = "4 * (E + 365 * s + u) + 3 - r"]) auto
  show "(146097 * b) div 4 = 36524 * b + q"
    using b by (intro int_div_pos_eq [where r = r]) auto
  have d: "4 * E + 3 - v < 1461"
  proof (cases "E = 365")
    case True
    with E(3) show ?thesis by simp
  qed (use E(2) s(2) in simp)
  show "(4 * (E + 365 * s + u) + 3) div 1461 = s"
    using s d E(1) by (intro int_div_pos_eq [where r = "4 * E + 3 - v"]) auto
  show "(1461 * s) div 4 = 365 * s + u"
    using s by (intro int_div_pos_eq [where r = v]) auto
qed

lemma leap_parts:
  fixes b s :: int
  assumes b: "b = 4 * q + r" "0 \<le> r" "r \<le> 3" and s: "s = 4 * u + v" "0 \<le> v" "v \<le> 3"
    and l: "is_leap (100 * b + s + 1)"
  shows "v = 3 \<and> (s \<noteq> 99 \<or> r = 3)"
proof -
  from l have m4: "4 dvd 100 * b + s + 1" and m400: "\<not> 100 dvd 100 * b + s + 1 \<or> 400 dvd 100 * b + s + 1"
    by (simp_all add: is_leap_def mod_eq_0_iff_dvd)
  from m4 obtain k where "100 * b + s + 1 = 4 * k" by (rule dvdE)
  with s(1) have "v + 1 = 4 * (k - 25 * b - u)" by simp
  with s have "v = 3" by arith
  moreover have "r = 3" if "s = 99"
  proof -
    have y: "100 * b + s + 1 = 100 * (b + 1)" using that by simp
    with m400 have "400 dvd 100 * (b + 1)" by simp
    then obtain k where "100 * (b + 1) = 400 * k" by (rule dvdE)
    with b(1) have "r + 1 = 4 * (k - q)" by simp
    with b show ?thesis by arith
  qed
  ultimately show ?thesis by blast
qed

lemma getYearMonthDay_Julian:
  assumes "valid_date y m d" and "-4799 \<le> y"
  shows "getYearMonthDay (getJulianDayNumber y m d) = \<lparr>ymd_year = y, ymd_month = m, ymd_day = d\<rparr>"
proof -
  have v: "1 \<le> m" "m \<le> 12" using assms(1) by (simp_all add: valid_date_def)
  define Y M E where "Y = march_year y m" and "M = march_month m" and "E = march_day m d"
  define b s where "b = Y div 100" and "s = Y mod 100"
  define q r u w where "q = b div 4" and "r = b mod 4" and "u = s div 4" and "w = s mod 4"
  have Y0: "0 \<le> Y" using assms(2) by (simp add: Y_def march_year_def)
  have Y: "Y = 100 * b + s" "0 \<le> b" "0 \<le> s" "s \<le> 99"
    using Y0 by (simp_all add: b_def s_def pos_imp_zdiv_nonneg_iff)
  have B: "b = 4 * q + r" "0 \<le> r" "r \<le> 3" "0 \<le> q" using Y(2) by (simp_all add: q_def r_def pos_imp_zdiv_nonneg_iff)
  have S: "s = 4 * u + w" "0 \<le> w" "w \<le> 3" "0 \<le> u" using Y(3) by (simp_all add: u_def w_def pos_imp_zdiv_nonneg_iff)
  have E: "0 \<le> E" "E \<le> 365" "E = 365 \<Longrightarrow> w = 3 \<and> (s \<noteq> 99 \<or> r = 3)"
    using march_day_bounds [OF assms(1)] leap_parts [OF B(1-3) S(1-3)]
    by (simp_all add: E_def Y_def [symmetric] Y(1))
  note parts = century_parts [OF B(1-3) S(1-3) Y(3,4) E]
  have div4: "Y div 4 = 25 * b + u" unfolding Y(1) using S by (intro int_div_pos_eq [where r = w]) auto
  have div400: "Y div 400 = q"
    unfolding Y(1) using B S Y(3,4) by (intro int_div_pos_eq [where r = "100 * r + s"]) auto
  have "getJulianDayNumber y m d + 32044 = E + 365 * Y + (Y div 4 - Y div 100 + Y div 400)"
    using julian_march [OF v assms(2), of d] by (simp only: E_def Y_def leap_days_def)
  also have "\<dots> = 36524 * b + q + (E + 365 * s + u)"
    unfolding div4 div400 b_def [symmetric] unfolding Y(1) by simp
  finally have A: "getJulianDayNumber y m d + 32044 = 36524 * b + q + (E + 365 * s + u)" .
  have M: "0 \<le> M" "M \<le> 11" "(5 * E + 2) div 153 = M"
    using march_bounds [OF v] march_day_month [OF assms(1)] by (simp_all only: M_def E_def)
  have M10: "M div 10 = (if m \<le> 2 then 1 else 0)" using months [OF v] by (auto simp: M_def march_month_def)
  have nn: "0 \<le> 4 * (36524 * b + q + (E + 365 * s + u)) + 3" "0 \<le> 146097 * b"
      "0 \<le> 4 * (E + 365 * s + u) + 3" "0 \<le> 1461 * s" "0 \<le> 5 * E + 2" "0 \<le> 153 * M + 2"
    using B(4) S(4) Y(2,3) E(1) M(1) by simp_all
  have p1: "(4 * (36524 * b + q + (E + 365 * s + u)) + 3) sdiv 146097 = b"
    using nn(1) by (rule trans [OF sdiv_nonneg parts(1)]) simp
  have p2: "(b * 146097) sdiv 4 = 36524 * b + q"
    unfolding mult.commute [of b] using nn(2) by (rule trans [OF sdiv_nonneg parts(2)]) simp
  have p3: "36524 * b + q + (E + 365 * s + u) - (36524 * b + q) = E + 365 * s + u" by simp
  have p4: "(4 * (E + 365 * s + u) + 3) sdiv 1461 = s"
    using nn(3) by (rule trans [OF sdiv_nonneg parts(3)]) simp
  have p5: "E + 365 * s + u - (1461 * s) sdiv 4 = E"
    using trans [OF sdiv_nonneg [OF nn(4)] parts(4)] by simp
  have p6: "(5 * E + 2) sdiv 153 = M" using nn(5) by (rule trans [OF sdiv_nonneg M(3)]) simp
  have p7: "M sdiv 10 = (if m \<le> 2 then 1 else 0)" using M(1) by (rule trans [OF sdiv_nonneg M10]) simp
  have "b * 100 + s - 4800 + (if m \<le> 2 then 1 else 0) = y"
    using Y(1) by (simp add: Y_def march_year_def)
  moreover have "M + 3 - 12 * (if m \<le> 2 then 1 else 0) = m" by (simp add: M_def march_month_def)
  moreover have "E - (153 * M + 2) sdiv 5 + 1 = d" using M(1) by (simp add: E_def march_day_def M_def)
  ultimately show ?thesis
    unfolding getYearMonthDay_def Let_def A p1 p2 p3 p4 p5 p6 p7 by (simp only:)
qed

text \<open>The calendar is one day after the other: the next day has the next number.\<close>

lemma next_day_valid:
  assumes "valid_date y m d" "next_day (y, m, d) = (y', m', d')"
  shows "valid_date y' m' d'"
proof -
  have "1 \<le> days_in_month a b" for a b by (simp add: days_in_month_def)
  with assms show ?thesis by (auto simp: next_day_def valid_date_def split: if_splits)
qed

lemma div_step:
  fixes Y :: int
  assumes "0 < n"
  shows "(Y + 1) div n = Y div n + (if (Y + 1) mod n = 0 then 1 else 0)"
proof -
  define q r where "q = Y div n" and "r = Y mod n"
  have Y: "Y = n * q + r" by (simp add: q_def r_def)
  have r: "0 \<le> r" "r < n" using assms by (simp_all add: r_def)
  show ?thesis
  proof (cases "r + 1 = n")
    case True
    then have "Y + 1 = n * (q + 1)" using Y by (simp add: algebra_simps)
    then show ?thesis using assms by (simp add: q_def)
  next
    case False
    have "(Y + 1) div n = q" "(Y + 1) mod n = r + 1"
      using Y r False by (auto intro: int_div_pos_eq [where r = "r + 1"] int_mod_pos_eq [where q = q])
    with r show ?thesis by (simp add: q_def)
  qed
qed

lemma leap_arith:
  "(p400 \<Longrightarrow> p100) \<Longrightarrow> (p100 \<Longrightarrow> p4) \<Longrightarrow>
   (a::int) + (if p4 then 1 else 0) - (b + (if p100 then 1 else 0)) + (c + (if p400 then 1 else 0)) =
     a - b + c + (if p4 \<and> (\<not> p100 \<or> p400) then 1 else 0)"
  by (cases p4; cases p100; cases p400) simp_all

lemma leap_step:
  fixes Y :: int
  shows "leap_days (Y + 1) = leap_days Y + (if is_leap (Y + 1) then 1 else 0)"
proof -
  have "(100::int) dvd 400" "(4::int) dvd 100" by simp_all
  then have "(Y + 1) mod 400 = 0 \<Longrightarrow> (Y + 1) mod 100 = 0" "(Y + 1) mod 100 = 0 \<Longrightarrow> (Y + 1) mod 4 = 0"
    unfolding mod_eq_0_iff_dvd by (blast intro: dvd_trans)+
  then show ?thesis
    unfolding leap_days_def is_leap_def div_step [of 4 Y, simplified] div_step [of 100 Y, simplified] div_step [of 400 Y, simplified]
    by (rule leap_arith)
qed

lemma Julian_next_day:
  assumes "valid_date y m d" and "-4799 \<le> y" and "next_day (y, m, d) = (y', m', d')"
  shows "getJulianDayNumber y' m' d' = getJulianDayNumber y m d + 1"
proof -
  have v: "1 \<le> m" "m \<le> 12" "d \<le> days_in_month y m" using assms(1) by (simp_all add: valid_date_def)
  have d12: "days_in_month y 12 = 31" by (simp add: days_in_month_def)
  consider "d < days_in_month y m" | "d = days_in_month y m" "m = 2" | "d = days_in_month y m" "m \<noteq> 2" "m < 12"
    | "d = 31" "m = 12"
    using v d12 by (cases "d < days_in_month y m"; cases "m = 2"; cases "m = 12") auto
  then show ?thesis
  proof cases
    case 1
    with assms(3) show ?thesis by (auto simp: next_day_def getJulianDayNumber_def Let_def)
  next
    case 2
    let ?Y = "march_year y 2"
    have "?Y + 1 = y + 4800" by (simp add: march_year_def)
    then have l: "is_leap (?Y + 1) \<longleftrightarrow> is_leap y" by (simp only: is_leap_shift)
    have Y3: "march_year y 3 = ?Y + 1" by (simp add: march_year_def)
    have n: "y' = y" "m' = 3" "d' = 1" using 2 assms(3) by (auto simp: next_day_def)
    have d: "d = (if is_leap y then 29 else 28)" using 2 by (simp add: days_in_month_def)
    have "getJulianDayNumber y 3 1 + 32044 = 365 * (?Y + 1) + leap_days (?Y + 1)"
      using julian_march [of 3 y 1] assms(2) by (simp add: march_month_def march_day_def Y3)
    also have "\<dots> = 365 * ?Y + 365 + (if is_leap y then 1 else 0) + leap_days ?Y"
      unfolding leap_step l by simp
    also have "\<dots> = getJulianDayNumber y 2 d + 1 + 32044"
      using julian_march [of 2 y d] assms(2) by (simp add: march_month_def march_day_def d split: if_splits)
    finally show ?thesis by (simp add: n 2(2))
  next
    case 3
    with assms(3) have n: "y' = y" "m' = m + 1" "d' = 1" by (auto simp: next_day_def)
    have "march_year y (m + 1) = march_year y m" using 3(2) v(1) by (auto simp: march_year_def)
    moreover have "days_in_month y m = (if m = 4 \<or> m = 6 \<or> m = 9 \<or> m = 11 then 30 else 31)"
      using 3(2) by (simp add: days_in_month_def)
    then have "march_day (m + 1) 1 = march_day m d + 1"
      using 3 months [OF v(1,2)] by (auto simp: march_month_def march_day_def)
    ultimately show ?thesis
      using n julian_march [OF v(1,2) assms(2), of d] julian_march [of "m + 1" y 1] 3(3) v(1) assms(2) by simp
  next
    case 4
    with assms(3) have n: "y' = y + 1" "m' = 1" "d' = 1" by (auto simp: next_day_def d12)
    have "march_year (y + 1) 1 = march_year y 12" by (simp add: march_year_def)
    with n 4 julian_march [of 12 y 31] julian_march [of 1 "y + 1" 1] assms(2) show ?thesis
      by (simp add: march_month_def march_day_def)
  qed
qed


lemma next_day_year: "next_day (y, m, d) = (y', m', d') \<Longrightarrow> y \<le> y'"
  by (auto simp: next_day_def split: if_splits)

lemma Julian_surj:
  assumes "-31738 \<le> j"
  shows "\<exists>y m d. valid_date y m d \<and> -4799 \<le> y \<and> getJulianDayNumber y m d = j"
  using assms
proof (induction j rule: int_ge_induct)
  case base
  have "valid_date (-4799) 1 1 \<and> getJulianDayNumber (-4799) 1 1 = -31738"
    by (simp add: valid_date_def days_in_month_def getJulianDayNumber_def)
  then show ?case by blast
next
  case (step j)
  then obtain y m d where v: "valid_date y m d" "-4799 \<le> y" "getJulianDayNumber y m d = j" by blast
  obtain y' m' d' where n: "next_day (y, m, d) = (y', m', d')" by (cases "next_day (y, m, d)")
  from Julian_next_day [OF v(1,2) n] next_day_valid [OF v(1) n] next_day_year [OF n] v
  show ?case by (metis order_trans)
qed

lemma getYearMonthDay_valid:
  assumes "-31738 \<le> j" and "getYearMonthDay j = \<lparr>ymd_year = y, ymd_month = m, ymd_day = d\<rparr>"
  shows "valid_date y m d" "-4799 \<le> y" "getJulianDayNumber y m d = j"
proof -
  obtain y' m' d' where v: "valid_date y' m' d'" "-4799 \<le> y'" "getJulianDayNumber y' m' d' = j"
    using Julian_surj [OF assms(1)] by blast
  with getYearMonthDay_Julian [OF v(1,2)] assms(2) have "y' = y" "m' = m" "d' = d" by simp_all
  with v show "valid_date y m d" "-4799 \<le> y" "getJulianDayNumber y m d = j" by simp_all
qed

lemma kJulianDayOf1970_01_01_value [simp]: "kJulianDayOf1970_01_01 = 2440588"
  by (simp add: kJulianDayOf1970_01_01_def getJulianDayNumber_def)

text \<open>No subexpression overflows in the years -4799 to 1465000 and for the numbers up to 536838867,
  the last one for which \<open>4 * a + 3\<close> fits.\<close>

lemma is_int32_range: "is_int32 x \<longleftrightarrow> -2147483648 \<le> x \<and> x \<le> 2147483647"
  by (auto simp: is_int32_def)

lemma div_bounds: "0 < n \<Longrightarrow> n * (a div n) \<le> a \<and> a < n * (a div n) + (n::int)"
  using pos_mod_bound [of n a] pos_mod_sign [of n a] mult_div_mod_eq [of n a] by linarith

lemma div_nonneg: "0 \<le> a \<Longrightarrow> 0 < n \<Longrightarrow> 0 \<le> a div (n::int)"
  by (simp add: pos_imp_zdiv_nonneg_iff)

lemma Julian_ge:
  assumes "valid_date y m d" and "-4799 \<le> y"
  shows "-31738 \<le> getJulianDayNumber y m d"
proof -
  have v: "1 \<le> m" "m \<le> 12" using assms(1) by (simp_all add: valid_date_def)
  define Y where "Y = march_year y m"
  have Y: "0 \<le> Y" "m \<le> 2 \<or> 1 \<le> Y" using assms(2) by (simp_all add: Y_def march_year_def)
  have "0 \<le> leap_days Y"
    using Y(1) div_bounds [of 4 Y] div_bounds [of 100 Y] div_nonneg [of Y 400] unfolding leap_days_def by linarith
  moreover have "306 \<le> march_day m d \<or> 1 \<le> Y \<and> 0 \<le> march_day m d"
    using Y(2) months [OF v] march_day_bounds(1) [OF assms(1)] assms(1)
    by (auto simp: march_day_def march_month_def valid_date_def)
  ultimately show ?thesis
    using julian_march [OF v assms(2), of d] Y(1) unfolding Y_def by linarith
qed

lemma getJulianDayNumber_fits:
  assumes "valid_date y m d" and "-4799 \<le> y" and "y \<le> 1465000"
  shows "list_all is_int32 (getJulianDayNumber_ints y m d)" "getJulianDayNumber y m d < 536838867"
proof -
  have v: "1 \<le> m" "m \<le> 12" "1 \<le> d" "d \<le> 31"
    using assms(1) days_in_month_le(1) [of y m] by (auto simp: valid_date_def split: if_splits)
  let ?a = "(if m \<le> 2 then 1 else 0) :: int"
  define Y M where "Y = march_year y m" and "M = march_month m"
  have Y: "y + 4800 - ?a = Y" "0 \<le> Y" "Y \<le> 1469800" using assms(2,3) by (simp_all add: Y_def march_year_def)
  have M: "m + 12 * ?a - 3 = M" "0 \<le> M" "M \<le> 11"
    using march_bounds(1,2) [OF v(1,2)] by (simp_all add: M_def march_month_def)
  define p q4 q100 q400 where "p = (153 * M + 2) div 5" and "q4 = Y div 4" and "q100 = Y div 100" and "q400 = Y div 400"
  have n: "(153 * M + 2) sdiv 5 = p" "Y sdiv 4 = q4" "Y sdiv 100 = q100" "Y sdiv 400 = q400"
    using Y(2) M(2) by (simp_all add: p_def q4_def q100_def q400_def)
  have b: "0 \<le> p" "5 * p \<le> 153 * M + 2" "0 \<le> q4" "4 * q4 \<le> Y" "0 \<le> q100" "100 * q100 \<le> Y" "0 \<le> q400" "400 * q400 \<le> Y"
    using Y(2) M(2) div_bounds [of 5 "153 * M + 2"] div_bounds [of 4 Y] div_bounds [of 100 Y] div_bounds [of 400 Y]
    by (simp_all add: p_def q4_def q100_def q400_def div_nonneg)
  have a: "0 \<le> ?a" "?a \<le> 1" by simp_all
  have "list_all is_int32 [14 - m, ?a, y + 4800, Y, 12 * ?a, m + 12 * ?a, M, 153 * M, 153 * M + 2, p, d + p, Y * 365,
      d + p + Y * 365, q4, d + p + Y * 365 + q4, q100, d + p + Y * 365 + q4 - q100, q400,
      d + p + Y * 365 + q4 - q100 + q400, d + p + Y * 365 + q4 - q100 + q400 - 32045]"
    unfolding list.pred_inject is_int32_range
    using v Y(2,3) M(2,3) b a assms(2,3) by (intro conjI) simp_all
  then show "list_all is_int32 (getJulianDayNumber_ints y m d)"
    unfolding getJulianDayNumber_ints_def Let_def march_bounds(3) [OF v(1,2)] Y(1) M(1) n .
  have "d + p + Y * 365 + q4 - q100 + q400 - 32045 < 536838867"
    using v Y(2,3) M(2,3) b by linarith
  then show "getJulianDayNumber y m d < 536838867"
    unfolding getJulianDayNumber_def Let_def march_bounds(3) [OF v(1,2)] Y(1) M(1) n .
qed

lemma getYearMonthDay_fits:
  assumes "-31738 \<le> j" and "j \<le> 536838867"
  shows "list_all is_int32 (getYearMonthDay_ints j)"
proof -
  define a where "a = j + 32044"
  define b where "b = (4 * a + 3) div 146097"
  define c where "c = a - (b * 146097) div 4"
  define d where "d = (4 * c + 3) div 1461"
  define e where "e = c - (1461 * d) div 4"
  define m where "m = (5 * e + 2) div 153"
  define x y z w where "x = (b * 146097) div 4" and "y = (1461 * d) div 4" and "z = (153 * m + 2) div 5" and "w = m div 10"
  have a: "0 \<le> a" "a \<le> 536870911" using assms by (simp_all add: a_def)
  have b: "0 \<le> b" "146097 * b \<le> 4 * a + 3" "4 * a + 3 < 146097 * b + 146097"
    using div_bounds [of 146097 "4 * a + 3"] a by (simp_all add: b_def div_nonneg)
  have x: "4 * x \<le> b * 146097" "b * 146097 < 4 * x + 4" "0 \<le> x"
    using div_bounds [of 4 "b * 146097"] b by (simp_all add: x_def div_nonneg)
  have c: "c = a - x" "0 \<le> c" "c \<le> 36525" using b x by (simp_all add: c_def x_def [symmetric])
  have d: "0 \<le> d" "1461 * d \<le> 4 * c + 3" "4 * c + 3 < 1461 * d + 1461"
    using div_bounds [of 1461 "4 * c + 3"] c by (simp_all add: d_def div_nonneg)
  have y: "4 * y \<le> 1461 * d" "1461 * d < 4 * y + 4" "0 \<le> y"
    using div_bounds [of 4 "1461 * d"] d by (simp_all add: y_def div_nonneg)
  have e: "e = c - y" "0 \<le> e" "e \<le> 366" using d y by (simp_all add: e_def y_def [symmetric])
  have m: "0 \<le> m" "153 * m \<le> 5 * e + 2"
    using div_bounds [of 153 "5 * e + 2"] e by (simp_all add: m_def div_nonneg)
  have z: "0 \<le> z" "5 * z \<le> 153 * m + 2" and w: "0 \<le> w" "10 * w \<le> m"
    using div_bounds [of 5 "153 * m + 2"] div_bounds [of 10 m] m by (simp_all add: z_def w_def div_nonneg)
  have "list_all is_int32 [a, 4 * a, 4 * a + 3, b, b * 146097, x, c, 4 * c, 4 * c + 3, d, 1461 * d, y, e, 5 * e, 5 * e + 2, m,
      153 * m, 153 * m + 2, z, e - z, e - z + 1, m + 3, w, 12 * w, m + 3 - 12 * w,
      b * 100, b * 100 + d, b * 100 + d - 4800, b * 100 + d - 4800 + w]"
    unfolding list.pred_inject is_int32_range
    using a b x(1,3) c(2,3) d(1,2) y(1,3) e(2,3) m z w by (intro conjI) simp_all
  moreover have "(4 * a + 3) sdiv 146097 = b" unfolding b_def by (rule sdiv_nonneg) (use a in simp_all)
  moreover have "(b * 146097) sdiv 4 = x" unfolding x_def by (rule sdiv_nonneg) (use b(1) in simp_all)
  moreover have "(4 * c + 3) sdiv 1461 = d" unfolding d_def by (rule sdiv_nonneg) (use c(2) in simp_all)
  moreover have "(1461 * d) sdiv 4 = y" unfolding y_def by (rule sdiv_nonneg) (use d(1) in simp_all)
  moreover have "(5 * e + 2) sdiv 153 = m" unfolding m_def by (rule sdiv_nonneg) (use e(2) in simp_all)
  moreover have "(153 * m + 2) sdiv 5 = z" "m sdiv 10 = w"
    unfolding z_def w_def by (rule sdiv_nonneg, use m(1) in simp, simp)+
  ultimately show ?thesis
    unfolding getYearMonthDay_ints_def Let_def a_def [symmetric]
    by (simp only: c(1) [symmetric] e(1) [symmetric])
qed

section \<open>Properties\<close>

text \<open>
  C13.  Dates.  From the year -4799 to the year 1465000, the Julian day number counts the days of the Gregorian
  calendar: the day after a date has the next number, \<open>getYearMonthDay\<close> gives the date
  of a number back, and every number from -31738 to 536838867 is that of a date of the calendar.  In these ranges
  no subexpression of the two functions overflows a 32-bit \<^verbatim>\<open>int\<close>, and the ranges are as large as they can
  be for the numbers: the next one overflows.
\<close>

theorem Julian_days_count_dates:
  assumes "valid_date y m d" and "-4799 \<le> y" and "y \<le> 1465000" and "-31738 \<le> j" and "j \<le> 536838867"
  shows "getYearMonthDay (getJulianDayNumber y m d) = \<lparr>ymd_year = y, ymd_month = m, ymd_day = d\<rparr> \<and>
    list_all is_int32 (getJulianDayNumber_ints y m d) \<and>
    list_all is_int32 (getYearMonthDay_ints (getJulianDayNumber y m d)) \<and>
    (case next_day (y, m, d) of (y', m', d') \<Rightarrow>
       valid_date y' m' d' \<and> getJulianDayNumber y' m' d' = getJulianDayNumber y m d + 1) \<and>
    (let e = getYearMonthDay j in
       list_all is_int32 (getYearMonthDay_ints j) \<and>
       valid_date (ymd_year e) (ymd_month e) (ymd_day e) \<and>
       getJulianDayNumber (ymd_year e) (ymd_month e) (ymd_day e) = j) \<and>
    \<not> list_all is_int32 (getYearMonthDay_ints 536838868)"
proof -
  obtain y' m' d' where n: "next_day (y, m, d) = (y', m', d')" by (cases "next_day (y, m, d)")
  have "getYearMonthDay j = \<lparr>ymd_year = ymd_year (getYearMonthDay j),
      ymd_month = ymd_month (getYearMonthDay j), ymd_day = ymd_day (getYearMonthDay j)\<rparr>" by simp
  note e = getYearMonthDay_valid [OF assms(4) this]
  have "-31738 \<le> getJulianDayNumber y m d"
    by (rule Julian_ge [OF assms(1,2)])
  note fits = getJulianDayNumber_fits [OF assms(1-3)] getYearMonthDay_fits [OF this] getYearMonthDay_fits [OF assms(4,5)]
  have "\<not> list_all is_int32 (getYearMonthDay_ints 536838868)"
    by code_simp
  then show ?thesis
    using getYearMonthDay_Julian [OF assms(1,2)] Julian_next_day [OF assms(1,2) n] next_day_valid [OF assms(1) n] n e fits
    by (simp add: Let_def)
qed

lemma Julian_days_count_dates_witness:
  "getYearMonthDay (getJulianDayNumber 2020 2 29) = \<lparr>ymd_year = 2020, ymd_month = 2, ymd_day = 29\<rparr> \<and>
    list_all is_int32 (getJulianDayNumber_ints 2020 2 29) \<and>
    list_all is_int32 (getYearMonthDay_ints (getJulianDayNumber 2020 2 29)) \<and>
    (case next_day (2020, 2, 29) of (y', m', d') \<Rightarrow>
       valid_date y' m' d' \<and> getJulianDayNumber y' m' d' = getJulianDayNumber 2020 2 29 + 1) \<and>
    (let e = getYearMonthDay 2440588 in
       list_all is_int32 (getYearMonthDay_ints 2440588) \<and>
       valid_date (ymd_year e) (ymd_month e) (ymd_day e) \<and>
       getJulianDayNumber (ymd_year e) (ymd_month e) (ymd_day e) = 2440588) \<and>
    \<not> list_all is_int32 (getYearMonthDay_ints 536838868)"
  by (rule Julian_days_count_dates) (simp_all add: valid_date_def days_in_month_def is_leap_def)

end
