(* ===== verification/WS_TimeZone.thy ===== *)
theory WS_TimeZone
  imports WS_Date
begin

text \<open>
  Broken-down time: \<^verbatim>\<open>muduo::TimeZone\<close> (\<^verbatim>\<open>muduo/base/TimeZone.cc\<close>) and the C library's \<^verbatim>\<open>gmtime_r\<close>
  and \<^verbatim>\<open>timegm\<close> on which it and the date of an HTTP response rest.  \<open>gmtime\<close> walks the
  calendar of \<open>WS_Date\<close> day by day from 1 January 1970, a Thursday; the
  arithmetic of \<^verbatim>\<open>TimeZone::toUtcTime\<close> is shown to agree with it.
\<close>

section \<open>The C library\<close>

record tm =
  tm_sec :: int
  tm_min :: int
  tm_hour :: int
  tm_mday :: int
  tm_mon :: int
  tm_year :: int
  tm_wday :: int
  tm_yday :: int
  tm_isdst :: int
  tm_gmtoff :: int
  tm_zone :: bytes

definition prev_day :: "int \<times> int \<times> int \<Rightarrow> int \<times> int \<times> int" where
  "prev_day = (\<lambda>(y, m, d).
     if 1 < d then (y, m, d - 1)
     else if 1 < m then (y, m - 1, days_in_month y (m - 1)) else (y - 1, 12, 31))"

definition epoch_date :: "int \<Rightarrow> int \<times> int \<times> int" where
  "epoch_date z =
     (if 0 \<le> z then (next_day ^^ nat z) (1970, 1, 1) else (prev_day ^^ nat (- z)) (1970, 1, 1))"

definition day_of_year :: "int \<times> int \<times> int \<Rightarrow> int" where
  "day_of_year = (\<lambda>(y, m, d). (\<Sum>i \<leftarrow> [1..m - 1]. days_in_month y i) + (d - 1))"

definition gmtime :: "int \<Rightarrow> tm" where
  "gmtime t =
     (let z = t div 86400; s = t mod 86400; (y, m, d) = epoch_date z in
      \<lparr>tm_sec = s mod 60, tm_min = s div 60 mod 60, tm_hour = s div 3600,
       tm_mday = d, tm_mon = m - 1, tm_year = y - 1900,
       tm_wday = (z + 4) mod 7, tm_yday = day_of_year (y, m, d),
       tm_isdst = 0, tm_gmtoff = 0, tm_zone = str ''GMT''\<rparr>)"

section \<open>The conversions of TimeZone\<close>

text \<open>\<^verbatim>\<open>static_cast<int>\<close> of a 64-bit value.\<close>

definition to_int32 :: "int \<Rightarrow> int" where
  "to_int32 x = signed_take_bit 31 x"

definition kSecondsPerDay :: int where
  "kSecondsPerDay = 24 * 60 * 60"

definition fillHMS :: "int \<Rightarrow> tm \<Rightarrow> tm" where
  "fillHMS seconds utc =
     (let minutes = seconds div 60 in
      utc\<lparr>tm_sec := seconds mod 60, tm_min := minutes mod 60, tm_hour := minutes div 60\<rparr>)"

definition tm_zero :: tm where
  "tm_zero =
     \<lparr>tm_sec = 0, tm_min = 0, tm_hour = 0, tm_mday = 0, tm_mon = 0, tm_year = 0, tm_wday = 0,
      tm_yday = 0, tm_isdst = 0, tm_gmtoff = 0, tm_zone = []\<rparr>"

definition toUtcTime :: "int \<Rightarrow> bool \<Rightarrow> tm" where
  "toUtcTime secondsSinceEpoch yday =
     (let seconds = to_int32 (secondsSinceEpoch smod kSecondsPerDay);
          days = to_int32 (secondsSinceEpoch sdiv kSecondsPerDay);
          (seconds, days) = (if seconds < 0 then (seconds + kSecondsPerDay, days - 1) else (seconds, days));
          utc = fillHMS seconds (tm_zero\<lparr>tm_zone := str ''GMT''\<rparr>);
          date = \<lparr>julianDayNumber = days + kJulianDayOf1970_01_01\<rparr>;
          ymd = yearMonthDay date;
          utc = utc\<lparr>tm_year := ymd_year ymd - 1900, tm_mon := ymd_month ymd - 1,
                    tm_mday := ymd_day ymd, tm_wday := weekDay date\<rparr>
      in if yday
         then utc\<lparr>tm_yday := julianDayNumber date - julianDayNumber (Date_of_ymd (ymd_year ymd) 1 1)\<rparr>
         else utc)"

definition fromUtcTime :: "int \<Rightarrow> int \<Rightarrow> int \<Rightarrow> int \<Rightarrow> int \<Rightarrow> int \<Rightarrow> int" where
  "fromUtcTime year month day hour minute seconds =
     (let date = Date_of_ymd year month day;
          secondsInDay = hour * 3600 + minute * 60 + seconds;
          days = julianDayNumber date - kJulianDayOf1970_01_01
      in days * kSecondsPerDay + secondsInDay)"

definition fromUtcTime_tm :: "tm \<Rightarrow> int" where
  "fromUtcTime_tm utc =
     fromUtcTime (tm_year utc + 1900) (tm_mon utc + 1) (tm_mday utc) (tm_hour utc) (tm_min utc) (tm_sec utc)"

section \<open>Days since the epoch\<close>

lemma prev_day_valid: "valid_date y m d \<Longrightarrow> prev_day (y, m, d) = (y', m', d') \<Longrightarrow> valid_date y' m' d'"
  using days_in_month_le(2) [of y "m - 1"]
  by (auto simp: prev_day_def valid_date_def days_in_month_def [of _ 12] split: if_splits)

lemma next_prev_day: "valid_date y m d \<Longrightarrow> next_day (prev_day (y, m, d)) = (y, m, d)"
  by (auto simp: prev_day_def next_day_def valid_date_def days_in_month_def [of _ 12] split: if_splits)

lemma prev_day_year: "prev_day (y, m, d) = (y', m', d') \<Longrightarrow> y - 1 \<le> y'"
  by (auto simp: prev_day_def split: if_splits)

lemma Julian_prev_day:
  assumes "valid_date y m d" and "-4799 < y" and "prev_day (y, m, d) = (y', m', d')"
  shows "getJulianDayNumber y' m' d' = getJulianDayNumber y m d - 1"
  using Julian_next_day [OF prev_day_valid [OF assms(1,3)], of y m d]
    next_prev_day [OF assms(1)] assms(2,3) prev_day_year [OF assms(3)] by simp

definition epoch_ok :: "int \<Rightarrow> int \<times> int \<times> int \<Rightarrow> bool" where
  "epoch_ok z = (\<lambda>(y, m, d). valid_date y m d \<and> -4799 \<le> y \<and> getJulianDayNumber y m d = z + 2440588)"

lemma epoch_start: "epoch_ok 0 (1970, 1, 1)"
  by (simp add: epoch_ok_def valid_date_def days_in_month_def getJulianDayNumber_def)

lemma epoch_forward: "epoch_ok (int n) ((next_day ^^ n) (1970, 1, 1))"
proof (induction n)
  case (Suc n)
  obtain y m d where e: "(next_day ^^ n) (1970, 1, 1) = (y, m, d)" by (metis prod_cases3)
  obtain y' m' d' where n: "next_day (y, m, d) = (y', m', d')" by (metis prod_cases3)
  from Suc e have "valid_date y m d" "-4799 \<le> y" "getJulianDayNumber y m d = int n + 2440588"
    by (simp_all add: epoch_ok_def)
  with Julian_next_day [OF this(1,2) n] next_day_valid [OF this(1) n] next_day_year [OF n] e n
  show ?case by (simp add: epoch_ok_def)
qed (use epoch_start in simp)

text \<open>Backwards the walk stays in the years after -4799 for more than 2.4 million days.\<close>

lemma Julian_year_pos:
  assumes "valid_date y m d" and "-4799 \<le> y" and "-31372 \<le> getJulianDayNumber y m d"
  shows "-4799 < y"
proof (rule ccontr)
  assume "\<not> -4799 < y"
  with assms(2) have y: "y = -4799" by simp
  have v: "1 \<le> m" "m \<le> 12" using assms(1) by (simp_all add: valid_date_def)
  have "march_day m d + 365 * march_year y m + leap_days (march_year y m) =
      getJulianDayNumber y m d + 32044"
    using julian_march [OF v assms(2), of d] by simp
  moreover have "march_year y m = (if m \<le> 2 then 0 else 1)" using y by (simp add: march_year_def)
  moreover have "m > 2 \<Longrightarrow> march_day m d \<le> 305"
    using assms(1) months [OF v] days_in_month_le(1) [of y m]
    by (auto simp: valid_date_def march_day_def march_month_def)
  moreover have "march_day m d \<le> 365" using march_day_bounds [OF assms(1)] by simp
  ultimately show False using assms(3) by (auto simp: leap_days_def split: if_splits)
qed

lemma epoch_backward: "n \<le> 2471960 \<Longrightarrow> epoch_ok (- int n) ((prev_day ^^ n) (1970, 1, 1))"
proof (induction n)
  case (Suc n)
  obtain y m d where e: "(prev_day ^^ n) (1970, 1, 1) = (y, m, d)" by (metis prod_cases3)
  obtain y' m' d' where n: "prev_day (y, m, d) = (y', m', d')" by (metis prod_cases3)
  from Suc e have v: "valid_date y m d" "-4799 \<le> y" "getJulianDayNumber y m d = - int n + 2440588"
    by (simp_all add: epoch_ok_def)
  then have "-4799 < y" using Suc.prems by (intro Julian_year_pos [OF v(1,2)]) simp
  with Julian_prev_day [OF v(1) this n] prev_day_valid [OF v(1) n] prev_day_year [OF n] e n v
  show ?case by (simp add: epoch_ok_def)
qed (use epoch_start in simp)

lemma epoch_date_ok: "-2471960 \<le> z \<Longrightarrow> epoch_ok z (epoch_date z)"
  using epoch_forward [of "nat z"] epoch_backward [of "nat (- z)"] by (auto simp: epoch_date_def)


lemma Julian_day_shift: "getJulianDayNumber y m d = getJulianDayNumber y m 1 + (d - 1)"
  by (simp add: getJulianDayNumber_def Let_def)

lemma Julian_month_start:
  assumes "-4799 \<le> y" and "1 \<le> m" and "m \<le> 12"
  shows "getJulianDayNumber y m 1 = getJulianDayNumber y 1 1 + (\<Sum>i \<leftarrow> [1..m - 1]. days_in_month y i)"
  using assms(2,3)
proof (induction m rule: int_ge_induct)
  case (step m)
  have n: "next_day (y, m, days_in_month y m) = (y, m + 1, 1)" using step by (simp add: next_day_def)
  have "valid_date y m (days_in_month y m)" using step days_in_month_le(2) [of y m] by (simp add: valid_date_def)
  from Julian_next_day [OF this assms(1) n] Julian_day_shift [of y m "days_in_month y m"]
  have "getJulianDayNumber y (m + 1) 1 = getJulianDayNumber y m 1 + days_in_month y m" by simp
  with step show ?case by (simp add: upto_rec2)
qed simp

lemma Julian_day_of_year:
  assumes "valid_date y m d" and "-4799 \<le> y"
  shows "getJulianDayNumber y m d - getJulianDayNumber y 1 1 = day_of_year (y, m, d)"
  using Julian_month_start [of y m] Julian_day_shift [of y m d] assms
  by (simp add: day_of_year_def valid_date_def)

lemma smod_adjust:
  fixes t n :: int
  assumes "0 < n"
  shows "(if t smod n < 0 then (t smod n + n, t sdiv n - 1) else (t smod n, t sdiv n)) = (t mod n, t div n)"
proof (cases "0 \<le> t")
  case True
  with assms show ?thesis by (simp add: not_less)
next
  case False
  define q r where "q = (- t) div n" and "r = (- t) mod n"
  have t: "t = - (n * q + r)" by (simp add: q_def r_def)
  have r: "0 \<le> r" "r < n" using assms by (simp_all add: r_def)
  have s: "t sdiv n = - q" "t smod n = - r"
    using False assms by (simp_all add: signed_divide_int_def signed_modulo_int_def q_def r_def)
  show ?thesis
  proof (cases "r = 0")
    case True
    then have "t div n = - q" "t mod n = 0"
      using t assms by (auto intro!: int_div_pos_eq [where r = 0] int_mod_pos_eq [where q = "- q"])
    with s True show ?thesis by simp
  next
    case False
    have e: "t = n * (- q - 1) + (n - r)" "0 \<le> n - r" "n - r < n"
      using t r False by (simp_all add: algebra_simps)
    have "t div n = - q - 1" "t mod n = n - r"
      by (rule int_div_pos_eq [OF e], rule int_mod_pos_eq [OF e])
    with s r False show ?thesis by simp
  qed
qed

lemma to_int32_id: "-(2 ^ 31) \<le> x \<Longrightarrow> x < 2 ^ 31 \<Longrightarrow> to_int32 x = x"
  by (simp add: to_int32_def signed_take_bit_int_eq_self_iff)

lemma epoch_ymd:
  assumes "-2471960 \<le> z" and "epoch_date z = (y, m, d)"
  shows "getYearMonthDay (z + 2440588) = \<lparr>ymd_year = y, ymd_month = m, ymd_day = d\<rparr>"
    "valid_date y m d" "-4799 \<le> y" "getJulianDayNumber y m d = z + 2440588"
  using epoch_date_ok [OF assms(1)] assms(2) getYearMonthDay_Julian [of y m d]
  by (auto simp: epoch_ok_def)

section \<open>Zones\<close>

record Transition =
  gmttime :: int
  localtime :: int
  localtimeIdx :: nat

record Localtime =
  gmtOffset :: int
  isDst :: bool
  arrbIdx :: nat

record TZData =
  transitions :: "Transition list"
  localtimes :: "Localtime list"
  abbrev :: bytes

definition TZData_empty :: TZData where
  "TZData_empty = \<lparr>transitions = [], localtimes = [], abbrev = []\<rparr>"

text \<open>\<open>Comp\<close>: \<^verbatim>\<open>compareGmt\<close> chooses the time of a transition that is compared.\<close>

definition Comp_key :: "bool \<Rightarrow> Transition \<Rightarrow> int" where
  "Comp_key compareGmt x = (if compareGmt then gmttime x else localtime x)"

definition Comp_less :: "bool \<Rightarrow> Transition \<Rightarrow> Transition \<Rightarrow> bool" where
  "Comp_less gmt lhs rhs \<longleftrightarrow> Comp_key gmt lhs < Comp_key gmt rhs"

definition Comp_equal :: "bool \<Rightarrow> Transition \<Rightarrow> Transition \<Rightarrow> bool" where
  "Comp_equal gmt lhs rhs \<longleftrightarrow> Comp_key gmt lhs = Comp_key gmt rhs"

text \<open>\<^verbatim>\<open>std::lower_bound\<close> on the \<open>len\<close> elements from index \<open>first\<close>: the halving of the library.\<close>

function lower_bound :: "('a \<Rightarrow> bool) \<Rightarrow> 'a list \<Rightarrow> nat \<Rightarrow> nat \<Rightarrow> nat" where
  "lower_bound before xs first len =
     (if len = 0 then first
      else let half = len div 2; middle = first + half in
        if before (xs ! middle) then lower_bound before xs (middle + 1) (len - half - 1)
        else lower_bound before xs first half)"
  by pat_completeness auto
termination
  by (relation "measure (\<lambda>(_, _, _, len). len)") auto

declare lower_bound.simps [simp del]

definition vector_at :: "nat \<Rightarrow> 'a list \<Rightarrow> nat \<Rightarrow> 'a res" where
  "vector_at line xs i = (if i < length xs then Inr (xs ! i) else Inl (Undefined TimeZone_cc line))"

definition findLocaltime :: "TZData \<Rightarrow> Transition \<Rightarrow> bool \<Rightarrow> Localtime res" where
  "findLocaltime data sentry gmt =
     (let ts = transitions data in
      if ts = [] \<or> Comp_less gmt sentry (hd ts) then vector_at 230 (localtimes data) 0
      else let i = lower_bound (\<lambda>x. Comp_less gmt x sentry) ts 0 (length ts) in
        if i \<noteq> length ts
        then (if \<not> Comp_equal gmt sentry (ts ! i)
              then require TimeZone_cc 242 (i \<noteq> 0)
                     (vector_at 245 (localtimes data) (localtimeIdx (ts ! (i - 1))))
              else vector_at 245 (localtimes data) (localtimeIdx (ts ! i)))
        else vector_at 250 (localtimes data) (localtimeIdx (last ts)))"

section \<open>Zone files\<close>

text \<open>
  \<^verbatim>\<open>File\<close> reads the bytes that are left of the file.  A short read throws
  \<^verbatim>\<open>logic_error\<close>, here \<open>Throw\<close> with its message; a negative size makes an array of
  negative length.  \<open>Throw\<close> also stands for the \<^verbatim>\<open>length_error\<close>, a
  \<^verbatim>\<open>logic_error\<close>, of \<^verbatim>\<open>reserve\<close> with a negative count.
\<close>

datatype 'a reading = Read 'a bytes | Throw bytes | Bad fault

definition readBytes :: "int \<Rightarrow> bytes \<Rightarrow> bytes reading" where
  "readBytes n f =
     (if n < 0 then Bad (Undefined TimeZone_cc 124)
      else if length f < nat n then Throw (str ''no enough data'')
      else Read (take (nat n) f) (drop (nat n) f))"

fun be32_int :: "bytes \<Rightarrow> int" where
  "be32_int [a, b, c, d] =
     signed_take_bit 31 (uint a * 2 ^ 24 + uint b * 2 ^ 16 + uint c * 2 ^ 8 + uint d)"
| "be32_int _ = 0"

definition File_readInt32 :: "bytes \<Rightarrow> int reading" where
  "File_readInt32 f =
     (if length f < 4 then Throw (str ''bad int32_t data'')
      else Read (be32_int (take 4 f)) (drop 4 f))"

definition readUInt8 :: "bytes \<Rightarrow> nat reading" where
  "readUInt8 f =
     (case f of [] \<Rightarrow> Throw (str ''bad uint8_t data'') | x # xs \<Rightarrow> Read (unat x) xs)"

fun then_read :: "'a reading \<Rightarrow> ('a \<Rightarrow> bytes \<Rightarrow> 'b reading) \<Rightarrow> 'b reading" where
  "then_read (Read x f) k = k x f"
| "then_read (Throw e) k = Throw e"
| "then_read (Bad e) k = Bad e"

fun read_many :: "nat \<Rightarrow> (bytes \<Rightarrow> 'a reading) \<Rightarrow> bytes \<Rightarrow> 'a list reading" where
  "read_many 0 r f = Read [] f"
| "read_many (Suc n) r f =
     then_read (r f) (\<lambda>x f. then_read (read_many n r f) (\<lambda>xs f. Read (x # xs) f))"

text \<open>The header with its six counts, the transition times and their types.\<close>

definition read_head :: "bytes \<Rightarrow> (int \<times> int \<times> int list \<times> nat list) reading" where
  "read_head f =
     then_read (readBytes 4 f) (\<lambda>head f.
     if head \<noteq> str ''TZif'' then Throw (str ''bad head'')
     else then_read (readBytes 1 f) (\<lambda>_ f.
       then_read (readBytes 15 f) (\<lambda>_ f.
       then_read (File_readInt32 f) (\<lambda>isgmtcnt f.
       then_read (File_readInt32 f) (\<lambda>isstdcnt f.
       then_read (File_readInt32 f) (\<lambda>leapcnt f.
       then_read (File_readInt32 f) (\<lambda>timecnt f.
       then_read (File_readInt32 f) (\<lambda>typecnt f.
       then_read (File_readInt32 f) (\<lambda>charcnt f.
       if timecnt < 0 then Throw (str ''vector::reserve'')
       else then_read (read_many (nat timecnt) File_readInt32 f) (\<lambda>tts f.
         then_read (read_many (nat timecnt) readUInt8 f) (\<lambda>lcs f.
         Read (typecnt, charcnt, tts, lcs) f)))))))))))"

definition read_Localtime :: "bytes \<Rightarrow> Localtime reading" where
  "read_Localtime f =
     then_read (File_readInt32 f) (\<lambda>gmtoff f.
     then_read (readUInt8 f) (\<lambda>isdst f.
     then_read (readUInt8 f) (\<lambda>abbrind f.
     Read \<lparr>gmtOffset = gmtoff, isDst = isdst \<noteq> 0, arrbIdx = abbrind\<rparr> f)))"

text \<open>The types are pushed one by one: a short file leaves those that were whole.\<close>

fun read_types :: "nat \<Rightarrow> TZData \<Rightarrow> bytes \<Rightarrow> TZData \<times> unit reading" where
  "read_types 0 data f = (data, Read () f)"
| "read_types (Suc n) data f =
     (case read_Localtime f of
        Read x f \<Rightarrow> read_types n (data\<lparr>localtimes := localtimes data @ [x]\<rparr>) f
      | Throw e \<Rightarrow> (data, Throw e)
      | Bad e \<Rightarrow> (data, Bad e))"

fun push_transitions :: "int list \<Rightarrow> nat list \<Rightarrow> TZData \<Rightarrow> TZData res" where
  "push_transitions (t # ts) (i # is) data =
     rbind (vector_at 199 (localtimes data) i) (\<lambda>l.
     push_transitions ts is (data\<lparr>transitions := transitions data @
       [\<lparr>gmttime = t, localtime = t + gmtOffset l, localtimeIdx = i\<rparr>]\<rparr>))"
| "push_transitions _ _ data = Inr data"

text \<open>\<^verbatim>\<open>readTimeZoneFile\<close>: \<open>None\<close> is a file that does not open.  The function returns true whatever
  happens, so only the data are the result.\<close>

definition readTimeZoneFile :: "bytes option \<Rightarrow> TZData \<Rightarrow> TZData res" where
  "readTimeZoneFile zonefile data =
     (case zonefile of
        None \<Rightarrow> Inr data
      | Some f \<Rightarrow>
          (case read_head f of
             Throw e \<Rightarrow> Inr data
           | Bad e \<Rightarrow> Inl e
           | Read (typecnt, charcnt, tts, lcs) f \<Rightarrow>
               (case read_types (nat typecnt) data f of
                  (data, Throw e) \<Rightarrow> Inr data
                | (data, Bad e) \<Rightarrow> Inl e
                | (data, Read _ f) \<Rightarrow>
                    rbind (push_transitions tts lcs data) (\<lambda>data.
                    case readBytes charcnt f of
                      Throw e \<Rightarrow> Inr data
                    | Bad e \<Rightarrow> Inl e
                    | Read s f \<Rightarrow> Inr (data\<lparr>abbrev := s\<rparr>)))))"

definition TimeZone_file :: "bytes option \<Rightarrow> TZData option res" where
  "TimeZone_file zonefile = rmap Some (readTimeZoneFile zonefile TZData_empty)"

text \<open>The zone is null for the default constructor.\<close>

type_synonym TimeZone = "TZData option"

definition TimeZone_fixed :: "int \<Rightarrow> bytes \<Rightarrow> TimeZone" where
  "TimeZone_fixed eastOfUtc name =
     Some (TZData_empty\<lparr>localtimes := [\<lparr>gmtOffset = eastOfUtc, isDst = False, arrbIdx = 0\<rparr>],
                        abbrev := name\<rparr>)"

definition c_string_at :: "bytes \<Rightarrow> nat \<Rightarrow> bytes" where
  "c_string_at s i = takeWhile (\<lambda>c. c \<noteq> 0) (drop i s)"

definition toLocalTime :: "TimeZone \<Rightarrow> int \<Rightarrow> tm res" where
  "toLocalTime zone seconds =
     (case zone of
        None \<Rightarrow> Inl (AssertFail TimeZone_cc 281)
      | Some data \<Rightarrow>
          rbind (findLocaltime data \<lparr>gmttime = seconds, localtime = 0, localtimeIdx = 0\<rparr> True) (\<lambda>local.
          if length (abbrev data) < arrbIdx local then Inl (Undefined TimeZone_cc 293)
          else Inr ((gmtime (seconds + gmtOffset local))
                 \<lparr>tm_isdst := (if isDst local then 1 else 0), tm_gmtoff := gmtOffset local,
                  tm_zone := c_string_at (abbrev data) (arrbIdx local)\<rparr>)))"

text \<open>\<^verbatim>\<open>timegm\<close> of the C library: the seconds of a broken-down UTC time, months carried into years.\<close>

definition timegm :: "tm \<Rightarrow> int" where
  "timegm x =
     (let y = tm_year x + 1900 + tm_mon x div 12; m = tm_mon x mod 12 + 1;
          before = (\<lambda>y. 365 * y + leap_days y)
      in (before (y - 1) - before 1969 + day_of_year (y, m, tm_mday x)) * 86400 +
         tm_hour x * 3600 + tm_min x * 60 + tm_sec x)"

definition fromLocalTime :: "TimeZone \<Rightarrow> tm \<Rightarrow> int res" where
  "fromLocalTime zone localTm =
     (case zone of
        None \<Rightarrow> Inl (AssertFail TimeZone_cc 301)
      | Some data \<Rightarrow>
          (let seconds = timegm localTm in
           rbind (findLocaltime data \<lparr>gmttime = 0, localtime = seconds, localtimeIdx = 0\<rparr> False) (\<lambda>local.
           if tm_isdst localTm \<noteq> 0
           then rbind (toLocalTime zone (seconds - gmtOffset local)) (\<lambda>tryTm.
             if tm_isdst tryTm = 0 \<and> tm_hour tryTm = tm_hour localTm \<and> tm_min tryTm = tm_min localTm
             then Inr (seconds - 3600 - gmtOffset local)
             else Inr (seconds - gmtOffset local))
           else Inr (seconds - gmtOffset local))))"

section \<open>Searching the transitions\<close>

definition splits_at :: "('a \<Rightarrow> bool) \<Rightarrow> 'a list \<Rightarrow> nat \<Rightarrow> bool" where
  "splits_at before xs r \<longleftrightarrow>
     r \<le> length xs \<and> (\<forall>i < r. before (xs ! i)) \<and> (\<forall>i. r \<le> i \<and> i < length xs \<longrightarrow> \<not> before (xs ! i))"

lemma lower_bound_splits:
  assumes part: "\<And>i j. i < j \<Longrightarrow> j < length xs \<Longrightarrow> before (xs ! j) \<Longrightarrow> before (xs ! i)"
  shows "first + len \<le> length xs \<Longrightarrow> (\<And>i. i < first \<Longrightarrow> before (xs ! i)) \<Longrightarrow>
    (\<And>i. first + len \<le> i \<Longrightarrow> i < length xs \<Longrightarrow> \<not> before (xs ! i)) \<Longrightarrow>
    splits_at before xs (lower_bound before xs first len)"
proof (induction len arbitrary: first rule: less_induct)
  case (less len)
  show ?case
  proof (cases "len = 0")
    case True
    with less.prems show ?thesis by (subst lower_bound.simps) (simp add: splits_at_def)
  next
    case False
    let ?half = "len div 2" let ?mid = "first + ?half"
    have m: "?half < len" "?mid < length xs" using False less.prems(1) by simp_all
    show ?thesis
    proof (cases "before (xs ! ?mid)")
      case True
      have "splits_at before xs (lower_bound before xs (?mid + 1) (len - ?half - 1))"
      proof (rule less.IH)
        show "before (xs ! i)" if "i < ?mid + 1" for i
          using part [of i ?mid] True m(2) that by (cases "i = ?mid") simp_all
      qed (use less.prems m in auto)
      with True False show ?thesis by (subst lower_bound.simps) (simp add: Let_def)
    next
      case 2: False
      have "splits_at before xs (lower_bound before xs first ?half)"
      proof (rule less.IH)
        show "\<not> before (xs ! i)" if "first + ?half \<le> i" "i < length xs" for i
          using part [of ?mid i] 2 that by (cases "i = ?mid") auto
      qed (use less.prems m in auto)
      with 2 False show ?thesis by (subst lower_bound.simps) (simp add: Let_def)
    qed
  qed
qed

lemma lower_bound_sorted:
  assumes "sorted_wrt (<) (map (Comp_key gmt) ts)"
  shows "splits_at (\<lambda>x. Comp_less gmt x s) ts (lower_bound (\<lambda>x. Comp_less gmt x s) ts 0 (length ts))"
proof (rule lower_bound_splits)
  fix i j assume "i < j" "j < length ts" "Comp_less gmt (ts ! j) s"
  with assms show "Comp_less gmt (ts ! i) s"
    using sorted_wrt_nth_less [OF assms, of i j] by (simp add: Comp_less_def)
qed auto

lemma findLocaltime_sorted:
  assumes s: "sorted_wrt (<) (map (Comp_key gmt) (transitions data))"
    and idx: "\<And>x. x \<in> set (transitions data) \<Longrightarrow> localtimeIdx x < length (localtimes data)"
    and "i < length (transitions data)"
    and le: "Comp_key gmt (transitions data ! i) \<le> Comp_key gmt sentry"
    and lt: "i + 1 < length (transitions data) \<Longrightarrow>
      Comp_key gmt sentry < Comp_key gmt (transitions data ! (i + 1))"
  shows "findLocaltime data sentry gmt = Inr (localtimes data ! localtimeIdx (transitions data ! i))"
proof -
  let ?ts = "transitions data" let ?k = "Comp_key gmt"
  let ?r = "lower_bound (\<lambda>x. Comp_less gmt x sentry) ?ts 0 (length ?ts)"
  have mono: "?k (?ts ! a) < ?k (?ts ! b)" if "a < b" "b < length ?ts" for a b
    using sorted_wrt_nth_less [OF s, of a b] that by simp
  have ne: "?ts \<noteq> []" and hd: "\<not> Comp_less gmt sentry (hd ?ts)"
  proof -
    show ne: "?ts \<noteq> []" using assms(3) by auto
    show "\<not> Comp_less gmt sentry (hd ?ts)"
      using mono [of 0 i] le assms(3) by (cases "i = 0") (auto simp: Comp_less_def hd_conv_nth ne)
  qed
  have sp: "splits_at (\<lambda>x. Comp_less gmt x sentry) ?ts ?r" by (rule lower_bound_sorted [OF s])
  have below: "Comp_less gmt (?ts ! j) sentry" if "j < ?r" for j using sp that by (simp add: splits_at_def)
  have above: "\<not> Comp_less gmt (?ts ! j) sentry" if "?r \<le> j" "j < length ?ts" for j
    using sp that by (simp add: splits_at_def)
  have r1: "?r \<le> i + 1"
  proof (rule ccontr)
    assume "\<not> ?r \<le> i + 1"
    with sp have "i + 1 < length ?ts" "Comp_less gmt (?ts ! (i + 1)) sentry" by (auto simp: splits_at_def)
    with lt show False by (simp add: Comp_less_def)
  qed
  have v: "vector_at l (localtimes data) (localtimeIdx (?ts ! i)) =
      Inr (localtimes data ! localtimeIdx (?ts ! i))" for l
    using idx [of "?ts ! i"] assms(3) by (simp add: vector_at_def)
  show ?thesis
  proof (cases "?k (?ts ! i) = ?k sentry")
    case True
    have "\<not> i < ?r" using below [of i] True by (auto simp: Comp_less_def)
    moreover have "\<not> ?r < i"
      using above [of ?r] mono [of ?r i] True assms(3) by (auto simp: Comp_less_def)
    ultimately have "?r = i" by simp
    with True v assms(3) ne hd show ?thesis by (simp add: findLocaltime_def Let_def Comp_equal_def)
  next
    case False
    then have "Comp_less gmt (?ts ! i) sentry" using le by (simp add: Comp_less_def)
    with sp assms(3) have "\<not> ?r \<le> i" by (auto simp: splits_at_def)
    with r1 have r: "?r = i + 1" by simp
    show ?thesis
    proof (cases "i + 1 = length ?ts")
      case True
      then have "last ?ts = ?ts ! i" using ne by (simp add: last_conv_nth flip: True)
      with True r v ne hd show ?thesis by (simp add: findLocaltime_def Let_def)
    next
      case 3: False
      with lt assms(3) have "\<not> Comp_equal gmt sentry (?ts ! (i + 1))" by (simp add: Comp_equal_def)
      with 3 r v ne hd assms(3) show ?thesis by (simp add: findLocaltime_def Let_def)
    qed
  qed
qed

section \<open>Local time and back\<close>

lemma leap_days_shift: "leap_days (Y + 4800) = leap_days Y + 1164"
proof -
  have a: "(Y + 4800) div 4 = 1200 + Y div 4" using div_mult_self1 [of 4 Y 1200] by simp
  have b: "(Y + 4800) div 100 = 48 + Y div 100" using div_mult_self1 [of 100 Y 48] by simp
  have c: "(Y + 4800) div 400 = 12 + Y div 400" using div_mult_self1 [of 400 Y 12] by simp
  show ?thesis unfolding leap_days_def a b c by simp
qed

lemma Julian_year_start:
  assumes "-4799 \<le> y"
  shows "getJulianDayNumber y 1 1 = 365 * (y - 1) + leap_days (y - 1) + 1721426"
proof -
  have "march_year y 1 = y - 1 + 4800" by (simp add: march_year_def)
  with julian_march [of 1 y 1] assms leap_days_shift [of "y - 1"] show ?thesis
    by (simp add: march_day_def march_month_def)
qed

lemma timegm_gmtime:
  assumes "-210866803200 \<le> t"
  shows "timegm ((gmtime t)\<lparr>tm_isdst := a, tm_gmtoff := b, tm_zone := c\<rparr>) = t"
proof -
  define z s where "z = t div 86400" and "s = t mod 86400"
  have t: "t = 86400 * z + s" "0 \<le> s" "s < 86400" by (simp_all add: z_def s_def)
  have z: "-2471960 \<le> z" using assms t by simp
  obtain y m d where e: "epoch_date z = (y, m, d)" by (metis prod_cases3)
  note ymd = epoch_ymd [OF z e]
  have m: "0 \<le> m - 1" "m - 1 < 12" using ymd(2) by (simp_all add: valid_date_def)
  then have m12: "(m - 1) div 12 = 0" "(m - 1) mod 12 = m - 1" by simp_all
  have "s = 60 * (s div 60) + s mod 60" "s div 60 = 60 * (s div 60 div 60) + s div 60 mod 60"
    by (rule mult_div_mod_eq [symmetric])+
  moreover have "s div 60 div 60 = s div 3600" by (simp add: zdiv_zmult2_eq [symmetric])
  ultimately have hms: "s div 3600 * 3600 + s div 60 mod 60 * 60 + s mod 60 = s" by linarith
  have "365 * (y - 1) + leap_days (y - 1) - (365 * 1969 + leap_days 1969) + day_of_year (y, m, d) = z"
    using Julian_year_start [OF ymd(3)] Julian_day_of_year [OF ymd(2,3)] ymd(4) by (simp add: leap_days_def [of 1969])
  moreover have "timegm ((gmtime t)\<lparr>tm_isdst := a, tm_gmtoff := b, tm_zone := c\<rparr>) =
      (365 * (y - 1) + leap_days (y - 1) - (365 * 1969 + leap_days 1969) + day_of_year (y, m, d)) * 86400 +
      (s div 3600 * 3600 + s div 60 mod 60 * 60 + s mod 60)"
    unfolding timegm_def gmtime_def Let_def z_def [symmetric] s_def [symmetric] e prod.case tm.simps m12
    by simp
  ultimately show ?thesis unfolding hms using t(1) by simp
qed

definition zone_ok :: "TZData \<Rightarrow> bool" where
  "zone_ok data \<longleftrightarrow>
     sorted_wrt (<) (map gmttime (transitions data)) \<and> sorted_wrt (<) (map localtime (transitions data)) \<and>
     (\<forall>x \<in> set (transitions data). localtimeIdx x < length (localtimes data) \<and>
        localtime x = gmttime x + gmtOffset (localtimes data ! localtimeIdx x)) \<and>
     (\<forall>l \<in> set (localtimes data). arrbIdx l \<le> length (abbrev data))"

lemma findLocaltime_zone:
  assumes "zone_ok data" and "i < length (transitions data)"
    and "Comp_key gmt (transitions data ! i) \<le> Comp_key gmt sentry"
    and "i + 1 < length (transitions data) \<Longrightarrow> Comp_key gmt sentry < Comp_key gmt (transitions data ! (i + 1))"
  shows "findLocaltime data sentry gmt = Inr (localtimes data ! localtimeIdx (transitions data ! i))"
proof (rule findLocaltime_sorted)
  have "map (Comp_key gmt) (transitions data) = map (if gmt then gmttime else localtime) (transitions data)"
    by (simp add: Comp_key_def)
  with assms(1) show "sorted_wrt (<) (map (Comp_key gmt) (transitions data))"
    by (auto simp: zone_ok_def simp del: map_eq_conv split: if_splits)
qed (use assms in \<open>auto simp: zone_ok_def\<close>)

section \<open>Properties\<close>

section \<open>Reading what was written\<close>

text \<open>The version 1 layout of a zone file (RFC 8536).\<close>

definition int_be32 :: "int \<Rightarrow> bytes" where
  "int_be32 x = [word_of_int (x div 2 ^ 24), word_of_int (x div 2 ^ 16), word_of_int (x div 2 ^ 8), word_of_int x]"

definition type_bytes :: "Localtime \<Rightarrow> bytes" where
  "type_bytes l = int_be32 (gmtOffset l) @ [if isDst l then 1 else 0, of_nat (arrbIdx l)]"

definition tz_file :: "TZData \<Rightarrow> bytes \<Rightarrow> bytes" where
  "tz_file data rest =
     str ''TZif'' @ replicate 16 0 @ int_be32 0 @ int_be32 0 @ int_be32 0 @
     int_be32 (int (length (transitions data))) @ int_be32 (int (length (localtimes data))) @
     int_be32 (int (length (abbrev data))) @
     concat (map (\<lambda>x. int_be32 (gmttime x)) (transitions data)) @
     map (\<lambda>x. of_nat (localtimeIdx x)) (transitions data) @
     concat (map type_bytes (localtimes data)) @ abbrev data @ rest"

definition tz_ok :: "TZData \<Rightarrow> bool" where
  "tz_ok data \<longleftrightarrow>
     length (transitions data) < 2 ^ 31 \<and> length (localtimes data) < 2 ^ 31 \<and> length (abbrev data) < 2 ^ 31 \<and>
     (\<forall>x \<in> set (transitions data). is_int32 (gmttime x) \<and> localtimeIdx x < 256 \<and>
        localtimeIdx x < length (localtimes data) \<and>
        localtime x = gmttime x + gmtOffset (localtimes data ! localtimeIdx x)) \<and>
     (\<forall>l \<in> set (localtimes data). is_int32 (gmtOffset l) \<and> arrbIdx l < 256)"

lemma bytes_of_mod:
  fixes x :: int
  shows "x div 2 ^ 24 mod 256 * 2 ^ 24 + x div 2 ^ 16 mod 256 * 2 ^ 16 + x div 2 ^ 8 mod 256 * 2 ^ 8 + x mod 256 =
    x mod 2 ^ 32"
proof -
  have a: "x mod 2 ^ 32 = 2 ^ 24 * (x div 2 ^ 24 mod 256) + x mod 2 ^ 24"
    using zmod_zmult2_eq [of 256 x "2 ^ 24"] by simp
  have b: "x mod 2 ^ 24 = 2 ^ 16 * (x div 2 ^ 16 mod 256) + x mod 2 ^ 16"
    using zmod_zmult2_eq [of 256 x "2 ^ 16"] by simp
  have c: "x mod 2 ^ 16 = 2 ^ 8 * (x div 2 ^ 8 mod 256) + x mod 2 ^ 8"
    using zmod_zmult2_eq [of 256 x "2 ^ 8"] by simp
  show ?thesis unfolding a b c by simp
qed

lemma be32_int_be32: "is_int32 x \<Longrightarrow> be32_int (int_be32 x) = x"
proof -
  assume "is_int32 x"
  have "signed_take_bit 31 (x mod 2 ^ 32) = signed_take_bit 31 (take_bit 32 x)"
    by (simp only: take_bit_eq_mod)
  also have "\<dots> = signed_take_bit 31 x" by (simp add: signed_take_bit_take_bit)
  also have "\<dots> = x" using \<open>is_int32 x\<close> by (simp add: is_int32_def signed_take_bit_int_eq_self_iff)
  finally have "signed_take_bit 31 (x mod 2 ^ 32) = x" .
  moreover have u: "uint (word_of_int y :: 8 word) = y mod 256" for y
    by (simp add: uint_word_of_int)
  ultimately show ?thesis
    unfolding int_be32_def be32_int.simps u by (simp only: bytes_of_mod)
qed

lemma read_int32: "is_int32 x \<Longrightarrow> File_readInt32 (int_be32 x @ f) = Read x f"
  using be32_int_be32 [of x] by (simp add: File_readInt32_def int_be32_def)

lemma read_many_int32:
  "(\<forall>x \<in> set ts. is_int32 (g x)) \<Longrightarrow>
   read_many (length ts) File_readInt32 (concat (map (\<lambda>x. int_be32 (g x)) ts) @ f) = Read (map g ts) f"
  by (induction ts) (simp_all add: read_int32)

lemma read_many_uint8:
  "(\<forall>x \<in> set ts. g x < 256) \<Longrightarrow>
   read_many (length ts) readUInt8 (map (\<lambda>x. of_nat (g x)) ts @ f) = Read (map g ts) f"
  by (induction ts) (simp_all add: readUInt8_def unat_of_nat)

lemma read_types_bytes:
  "(\<forall>l \<in> set ls. is_int32 (gmtOffset l) \<and> arrbIdx l < 256) \<Longrightarrow>
   read_types (length ls) data (concat (map type_bytes ls) @ f) =
     (data\<lparr>localtimes := localtimes data @ ls\<rparr>, Read () f)"
proof (induction ls arbitrary: data)
  case (Cons l ls)
  then have "read_Localtime (type_bytes l @ g) = Read l g" for g
    by (simp add: read_Localtime_def type_bytes_def read_int32 readUInt8_def unat_of_nat)
  with Cons show ?case by simp
qed simp

lemma push_transitions_all:
  "(\<forall>x \<in> set ts. localtimeIdx x < length (localtimes data) \<and>
      localtime x = gmttime x + gmtOffset (localtimes data ! localtimeIdx x)) \<Longrightarrow>
   push_transitions (map gmttime ts) (map localtimeIdx ts) data =
     Inr (data\<lparr>transitions := transitions data @ ts\<rparr>)"
proof (induction ts arbitrary: data)
  case (Cons x ts)
  then show ?case by (simp add: vector_at_def)
qed simp

lemma read_head_file:
  assumes "tz_ok data"
  shows "read_head (tz_file data rest) =
    Read (int (length (localtimes data)), int (length (abbrev data)),
      map gmttime (transitions data), map localtimeIdx (transitions data))
      (concat (map type_bytes (localtimes data)) @ abbrev data @ rest)"
proof -
  have h: "readBytes 4 (str ''TZif'' @ f) = Read (str ''TZif'') f"
    "readBytes 1 (replicate 16 0 @ f) = Read [0] (replicate 15 0 @ f)"
    "readBytes 15 (replicate 15 0 @ f) = Read (replicate 15 0) f" for f
    by (simp_all add: readBytes_def str_def)
  have z: "is_int32 0" by (simp add: is_int32_def)
  have n: "is_int32 (int (length (transitions data)))" "is_int32 (int (length (localtimes data)))"
    "is_int32 (int (length (abbrev data)))"
    "\<forall>x \<in> set (transitions data). is_int32 (gmttime x)" "\<forall>x \<in> set (transitions data). localtimeIdx x < 256"
    using assms by (auto simp: tz_ok_def is_int32_def)
  show ?thesis
    unfolding read_head_def tz_file_def h then_read.simps
    by (simp add: h read_int32 z n read_many_int32 read_many_uint8)
qed

text \<open>
  C14.  UTC.  From Julian day 0 (24 November of the year -4713) to more than a million
  years after, \<open>toUtcTime\<close> gives the broken-down time of the C library's \<^verbatim>\<open>gmtime\<close>, weekday and day of the year
  included, and \<open>fromUtcTime\<close> takes it back to the same second.
\<close>

theorem toUtcTime_gmtime:
  assumes "-210866803200 \<le> t" and "t < 43200000000000"
  shows "toUtcTime t True = gmtime t \<and> fromUtcTime_tm (gmtime t) = t"
proof -
  define z s where "z = t div 86400" and "s = t mod 86400"
  have t: "t = 86400 * z + s" "0 \<le> s" "s < 86400" by (simp_all add: z_def s_def)
  have z: "-2440588 \<le> z" "z < 500000000" using assms t by simp_all
  obtain y m d where e: "epoch_date z = (y, m, d)" by (metis prod_cases3)
  have "-2471960 \<le> z" using z(1) by simp
  note ymd = epoch_ymd [OF this e]
  have adj: "(if t smod 86400 < 0 then (t smod 86400 + 86400, t sdiv 86400 - 1)
      else (t smod 86400, t sdiv 86400)) = (s, z)"
    using smod_adjust [of 86400 t] by (simp add: z_def s_def)
  have i: "to_int32 (t smod 86400) = t smod 86400" "to_int32 (t sdiv 86400) = t sdiv 86400"
  proof -
    have "-86400 \<le> t smod 86400 \<and> t smod 86400 < 86400 \<and>
        -2440588 \<le> t sdiv 86400 \<and> t sdiv 86400 \<le> 500000000"
      using adj t z by (auto split: if_splits)
    then show "to_int32 (t smod 86400) = t smod 86400" "to_int32 (t sdiv 86400) = t sdiv 86400"
      by (simp_all add: to_int32_id)
  qed
  have w: "(2440589 + z) smod 7 = (z + 4) mod 7"
  proof -
    have "(2440589 + z) smod 7 = (z + 4 + 348655 * 7) mod 7" using z by simp
    then show ?thesis by (simp only: mod_mult_self1)
  qed
  have hms: "s div 60 div 60 = s div 3600" by (simp add: zdiv_zmult2_eq [symmetric])
  have kd: "kSecondsPerDay = 86400" by (simp add: kSecondsPerDay_def)
  have "toUtcTime t True = gmtime t"
    unfolding toUtcTime_def gmtime_def Let_def kd i adj prod.case z_def [symmetric] s_def [symmetric] e
    using Julian_day_of_year [OF ymd(2,3)] ymd(4)
    by (simp add: yearMonthDay_def weekDay_def ymd(1) w hms fillHMS_def tm_zero_def Date_of_ymd_def Let_def)
  moreover have "fromUtcTime_tm (gmtime t) = t"
  proof -
    have "s = 60 * (s div 60) + s mod 60" "s div 60 = 60 * (s div 60 div 60) + s div 60 mod 60"
      by (rule mult_div_mod_eq [symmetric])+
    then have hms': "s div 3600 * 3600 + s div 60 mod 60 * 60 + s mod 60 = s" unfolding hms by linarith
    have "fromUtcTime_tm (gmtime t) = z * 86400 + (s div 3600 * 3600 + s div 60 mod 60 * 60 + s mod 60)"
      unfolding fromUtcTime_tm_def fromUtcTime_def gmtime_def Let_def z_def [symmetric] s_def [symmetric] e
        prod.case kd tm.simps Date_of_ymd_def Date.simps
      using ymd(4) by (simp only: diff_add_cancel kJulianDayOf1970_01_01_value add_diff_cancel_right')
    then show ?thesis unfolding hms' using t(1) by simp
  qed
  ultimately show ?thesis by blast
qed

lemma toUtcTime_gmtime_witness:
  "toUtcTime 1582959600 True = gmtime 1582959600 \<and> fromUtcTime_tm (gmtime 1582959600) = 1582959600"
  using toUtcTime_gmtime [of 1582959600] by simp


text \<open>
  C15.  Local time.  In a zone whose transitions are in order, a second after transition
  \<open>i\<close> and before transition \<open>i + 1\<close> is shown with the offset, the daylight flag and
  the name of the type of transition \<open>i\<close>; and unless the local clock has already passed the next
  transition's local time (the hour that is shown twice), \<open>fromLocalTime\<close> takes it back.
\<close>

theorem local_time_roundtrip:
  assumes "zone_ok data" and "i < length (transitions data)"
    and l: "l = localtimes data ! localtimeIdx (transitions data ! i)"
    and "gmttime (transitions data ! i) \<le> t"
    and "i + 1 < length (transitions data) \<longrightarrow>
      t < gmttime (transitions data ! (i + 1)) \<and> t + gmtOffset l < localtime (transitions data ! (i + 1))"
    and "-210866803200 \<le> t + gmtOffset l"
  shows "\<exists>x. toLocalTime (Some data) t = Inr x \<and>
    x = (gmtime (t + gmtOffset l))\<lparr>tm_isdst := (if isDst l then 1 else 0), tm_gmtoff := gmtOffset l,
      tm_zone := c_string_at (abbrev data) (arrbIdx l)\<rparr> \<and>
    fromLocalTime (Some data) x = Inr t"
proof -
  let ?x = "(gmtime (t + gmtOffset l))\<lparr>tm_isdst := (if isDst l then 1 else 0), tm_gmtoff := gmtOffset l,
      tm_zone := c_string_at (abbrev data) (arrbIdx l)\<rparr>"
  have z: "transitions data ! i \<in> set (transitions data)" using assms(2) by simp
  then have idx: "localtimeIdx (transitions data ! i) < length (localtimes data)"
      "localtime (transitions data ! i) = gmttime (transitions data ! i) + gmtOffset l"
    using assms(1) l by (auto simp: zone_ok_def)
  then have ab: "arrbIdx l \<le> length (abbrev data)" using assms(1) l by (auto simp: zone_ok_def)
  have f1: "findLocaltime data \<lparr>gmttime = t, localtime = 0, localtimeIdx = 0\<rparr> True = Inr l"
    using findLocaltime_zone [OF assms(1,2), of True] assms(4,5) l by (simp add: Comp_key_def)
  have f2: "findLocaltime data \<lparr>gmttime = 0, localtime = t + gmtOffset l, localtimeIdx = 0\<rparr> False = Inr l"
    using findLocaltime_zone [OF assms(1,2), of False] assms(4,5) idx(2) l by (simp add: Comp_key_def)
  have to: "toLocalTime (Some data) t = Inr ?x" using f1 ab by (simp add: toLocalTime_def)
  have g: "timegm ?x = t + gmtOffset l" by (rule timegm_gmtime [OF assms(6)])
  have "fromLocalTime (Some data) ?x = Inr t"
    unfolding fromLocalTime_def option.case Let_def g f2 rbind_simps add_diff_cancel_right' to
    by (cases "isDst l") simp_all
  with to show ?thesis by blast
qed

definition demo_zone :: TZData where
  "demo_zone = \<lparr>transitions = [\<lparr>gmttime = 0, localtime = 3600, localtimeIdx = 0\<rparr>,
       \<lparr>gmttime = 1000000, localtime = 1007200, localtimeIdx = 1\<rparr>],
     localtimes = [\<lparr>gmtOffset = 3600, isDst = False, arrbIdx = 0\<rparr>, \<lparr>gmtOffset = 7200, isDst = True, arrbIdx = 4\<rparr>],
     abbrev = str ''CET'' @ 0 # str ''CEST''\<rparr>"

lemma local_time_roundtrip_witness:
  "\<exists>x. toLocalTime (Some demo_zone) 1500000 = Inr x \<and>
    x = (gmtime 1507200)\<lparr>tm_isdst := 1, tm_gmtoff := 7200, tm_zone := str ''CEST''\<rparr> \<and>
    fromLocalTime (Some demo_zone) x = Inr 1500000"
proof -
  let ?l = "\<lparr>gmtOffset = 7200, isDst = True, arrbIdx = 4\<rparr>"
  have z: "zone_ok demo_zone" by (simp add: zone_ok_def demo_zone_def str_def)
  have c: "c_string_at (abbrev demo_zone) (arrbIdx ?l) = str ''CEST''"
    by (simp add: c_string_at_def demo_zone_def str_def)
  have n: "1 < length (transitions demo_zone)" "\<not> 1 + 1 < length (transitions demo_zone)"
    "?l = localtimes demo_zone ! localtimeIdx (transitions demo_zone ! 1)"
    "gmttime (transitions demo_zone ! 1) \<le> 1500000"
    by (simp_all add: demo_zone_def)
  have p: "-210866803200 \<le> 1500000 + gmtOffset ?l" by simp
  have s: "1500000 + 7200 = (1507200::int)" "isDst ?l = True" "gmtOffset ?l = 7200" by simp_all
  have i: "1 + 1 < length (transitions demo_zone) \<longrightarrow>
      1500000 < gmttime (transitions demo_zone ! (1 + 1)) \<and>
      1500000 + gmtOffset ?l < localtime (transitions demo_zone ! (1 + 1))"
    using n(2) by blast
  show ?thesis using local_time_roundtrip [OF z n(1,3,4) i p] by (simp only: c s if_True)
qed


text \<open>
  C16.  Zone files.  Reading the file that the tz database format prescribes for a zone gives
  exactly that zone, whatever follows in the file.  A file that does not open
  or is not a zone file leaves a zone with no type, in which converting a time is an access
  to the first element of an empty vector.
\<close>

theorem zone_file_roundtrip:
  assumes "tz_ok data"
  shows "TimeZone_file (Some (tz_file data rest)) = Inr (Some data) \<and>
    TimeZone_file None = Inr (Some TZData_empty) \<and>
    toLocalTime (Some TZData_empty) t = Inl (Undefined TimeZone_cc 230)"
proof -
  have a: "readBytes (int (length s)) (s @ f) = Read s f" for s f by (simp add: readBytes_def)
  have t: "\<forall>l \<in> set (localtimes data). is_int32 (gmtOffset l) \<and> arrbIdx l < 256"
    using assms by (simp add: tz_ok_def)
  have p: "push_transitions (map gmttime (transitions data)) (map localtimeIdx (transitions data))
      (TZData_empty\<lparr>localtimes := localtimes data\<rparr>) =
      Inr (TZData_empty\<lparr>localtimes := localtimes data, transitions := transitions data\<rparr>)"
    using assms by (subst push_transitions_all) (simp_all add: tz_ok_def TZData_empty_def)
  have l: "localtimes TZData_empty = []" by (simp add: TZData_empty_def)
  have "readTimeZoneFile (Some (tz_file data rest)) TZData_empty = Inr data"
    by (simp add: l readTimeZoneFile_def read_head_file [OF assms] read_types_bytes [OF t] p a)
  then show ?thesis
    by (simp add: TimeZone_file_def readTimeZoneFile_def toLocalTime_def findLocaltime_def
        TZData_empty_def vector_at_def)
qed

lemma zone_file_roundtrip_witness:
  "TimeZone_file (Some (tz_file demo_zone [1, 2])) = Inr (Some demo_zone) \<and>
   TimeZone_file None = Inr (Some TZData_empty) \<and>
   toLocalTime (Some TZData_empty) 0 = Inl (Undefined TimeZone_cc 230)"
  by (rule zone_file_roundtrip) (simp add: tz_ok_def demo_zone_def is_int32_def str_def)

end
