(* ===== verification/WS_LogStream.thy ===== *)
theory WS_LogStream
  imports WS_Prelude "HOL-Library.Signed_Division" "HOL-Library.Sublist"
begin

text \<open>
  \<^verbatim>\<open>muduo::LogStream\<close> (\<^verbatim>\<open>muduo/base/LogStream.h\<close>, \<^verbatim>\<open>LogStream.cc\<close>): the conversion of integers
  to text and the fixed buffer of a log line.  \<open>convert\<close> is shown equal to decimal
  notation (\<open>decimal\<close>) for every value, the most negative ones included, and a
  stream of insertions is shown never to pass the end of the buffer.  The
  insertion of floating-point numbers, \<^verbatim>\<open>Fmt\<close>, \<^verbatim>\<open>formatSI\<close> and \<^verbatim>\<open>formatIEC\<close> print with
  \<^verbatim>\<open>snprintf\<close> on \<^verbatim>\<open>double\<close> and are left out.
\<close>

section \<open>Conversion\<close>

definition digits :: bytes where
  "digits = str ''9876543210123456789''"

text \<open>\<open>zero_at lsd\<close> is \<^verbatim>\<open>zero[lsd]\<close>, where \<^verbatim>\<open>zero\<close> points at the middle of \<^verbatim>\<open>digits\<close>.\<close>

definition zero_at :: "int \<Rightarrow> byte" where
  "zero_at lsd = digits ! nat (9 + lsd)"

definition digitsHex :: bytes where
  "digitsHex = str ''0123456789ABCDEF''"

function convert_loop :: "int \<Rightarrow> bytes" where
  "convert_loop i =
     zero_at (i smod 10) # (if i sdiv 10 \<noteq> 0 then convert_loop (i sdiv 10) else [])"
  by pat_completeness auto
termination
proof (relation "measure (\<lambda>i. nat \<bar>i\<bar>)")
  fix i :: int
  assume "i sdiv 10 \<noteq> 0"
  then have "i \<noteq> 0" by auto
  then have "\<bar>i sdiv 10\<bar> < \<bar>i\<bar>" by (simp add: signed_divide_int_def abs_mult)
  then show "(i sdiv 10, i) \<in> measure (\<lambda>i. nat \<bar>i\<bar>)" by simp
qed simp

definition convert :: "int \<Rightarrow> bytes" where
  "convert value = rev (convert_loop value @ (if value < 0 then str ''-'' else []))"

fun convertHex_loop :: "nat \<Rightarrow> bytes" where
  "convertHex_loop i = digitsHex ! (i mod 16) # (if i div 16 \<noteq> 0 then convertHex_loop (i div 16) else [])"

definition convertHex :: "nat \<Rightarrow> bytes" where
  "convertHex value = rev (convertHex_loop value)"

declare convert_loop.simps [simp del] convertHex_loop.simps [simp del]

section \<open>Decimal notation\<close>

fun decimal :: "nat \<Rightarrow> bytes" where
  "decimal n = (if n < 10 then [48 + of_nat n] else decimal (n div 10) @ [48 + of_nat (n mod 10)])"

declare decimal.simps [simp del]

definition decimal_int :: "int \<Rightarrow> bytes" where
  "decimal_int v = (if v < 0 then str ''-'' else []) @ decimal (nat \<bar>v\<bar>)"

definition decimal_value :: "bytes \<Rightarrow> nat" where
  "decimal_value s = foldl (\<lambda>n c. 10 * n + (unat c - 48)) 0 s"

lemma unat_digit: "n < 10 \<Longrightarrow> unat (48 + of_nat n :: byte) = 48 + n"
  by (simp add: unat_word_ariths unat_of_nat)

lemma decimal_value_decimal: "decimal_value (decimal n) = n"
proof (induction n rule: less_induct)
  case (less n)
  show ?case
  proof (cases "n < 10")
    case True
    then show ?thesis by (subst decimal.simps) (simp add: decimal_value_def unat_digit)
  next
    case False
    then have "decimal_value (decimal (n div 10)) = n div 10" by (intro less.IH) simp
    with False show ?thesis
      by (subst decimal.simps) (simp add: decimal_value_def unat_digit)
  qed
qed

lemma decimal_length: "n < 10 ^ k \<Longrightarrow> 0 < k \<Longrightarrow> length (decimal n) \<le> k"
proof (induction k arbitrary: n)
  case (Suc k)
  show ?case
  proof (cases "n < 10")
    case True
    then show ?thesis by (subst decimal.simps) simp
  next
    case False
    then have "0 < k" using Suc.prems(1) by (cases k) simp_all
    moreover have "n div 10 < 10 ^ k" using Suc.prems(1) by (simp add: less_mult_imp_div_less mult.commute)
    ultimately have "length (decimal (n div 10)) \<le> k" by (intro Suc.IH)
    with False show ?thesis by (subst decimal.simps) simp
  qed
qed simp

lemma zero_at_digit:
  assumes "-10 < d" "d < 10"
  shows "zero_at d = 48 + of_nat (nat \<bar>d\<bar>)"
proof -
  have "d \<in> set [-9, -8, -7, -6, -5, -4, -3, -2, -1, 0, 1, 2, 3, 4, 5, 6, 7, 8, 9]" using assms by simp arith
  then show ?thesis by (auto simp: zero_at_def digits_def str_def)
qed

lemma convert_loop_decimal: "convert_loop i = rev (decimal (nat \<bar>i\<bar>))"
proof (induction i rule: convert_loop.induct)
  case (1 i)
  have q: "nat \<bar>i sdiv 10\<bar> = nat \<bar>i\<bar> div 10" and r: "nat \<bar>i smod 10\<bar> = nat \<bar>i\<bar> mod 10"
    by (cases "i < 0"; simp add: signed_divide_int_def signed_modulo_int_def abs_mult nat_div_distrib nat_mod_distrib)+
  have "\<bar>i smod 10\<bar> < 10" by (cases "i = 0") (simp_all add: signed_modulo_int_def abs_mult)
  then have z: "zero_at (i smod 10) = 48 + of_nat (nat \<bar>i\<bar> mod 10)" using zero_at_digit [of "i smod 10"] r by simp
  have s: "i sdiv 10 \<noteq> 0 \<longleftrightarrow> \<not> nat \<bar>i\<bar> < 10"
    using q by (metis abs_eq_0 div_eq_0_iff nat_0_iff abs_ge_zero abs_le_zero_iff zero_neq_numeral)
  show ?case
  proof (cases "i sdiv 10 \<noteq> 0")
    case True
    with 1 q s z show ?thesis by (subst convert_loop.simps, subst decimal.simps) simp
  next
    case False
    with s z show ?thesis by (subst convert_loop.simps, subst decimal.simps) simp
  qed
qed

lemma convert_decimal: "convert v = decimal_int v"
  by (simp add: convert_def convert_loop_decimal decimal_int_def str_def)

lemma convert_length: "- (2 ^ 63) \<le> v \<Longrightarrow> v < 2 ^ 64 \<Longrightarrow> length (convert v) \<le> 21"
  using decimal_length [of "nat \<bar>v\<bar>" 20] by (auto simp: convert_decimal decimal_int_def str_def nat_less_iff)

lemma convertHex_loop_length: "n < 16 ^ k \<Longrightarrow> 0 < k \<Longrightarrow> length (convertHex_loop n) \<le> k"
proof (induction k arbitrary: n)
  case (Suc k)
  show ?case
  proof (cases "n div 16 = 0")
    case True
    then show ?thesis by (subst convertHex_loop.simps) simp
  next
    case False
    then have "0 < k" using Suc.prems(1) by (cases k) simp_all
    moreover have "n div 16 < 16 ^ k" using Suc.prems(1) by (simp add: less_mult_imp_div_less mult.commute)
    ultimately have "length (convertHex_loop (n div 16)) \<le> k" by (intro Suc.IH)
    with False show ?thesis by (subst convertHex_loop.simps) simp
  qed
qed simp


section \<open>The fixed buffer and the stream\<close>

text \<open>\<open>fb_data\<close> holds the bytes before \<^verbatim>\<open>cur_\<close>; \<open>fb_size\<close> is the template's \<^verbatim>\<open>SIZE\<close>.\<close>

record FixedBuffer =
  fb_size :: nat
  fb_data :: bytes

definition kSmallBuffer :: nat where
  "kSmallBuffer = 4000"

definition kLargeBuffer :: nat where
  "kLargeBuffer = 4000 * 1000"

definition kMaxNumericSize :: nat where
  "kMaxNumericSize = 32"

definition FixedBuffer_ctor :: "nat \<Rightarrow> FixedBuffer" where
  "FixedBuffer_ctor n = \<lparr>fb_size = n, fb_data = []\<rparr>"

definition avail :: "FixedBuffer \<Rightarrow> nat" where
  "avail b = fb_size b - length (fb_data b)"

definition FixedBuffer_append :: "FixedBuffer \<Rightarrow> bytes \<Rightarrow> FixedBuffer" where
  "FixedBuffer_append b buf =
     (if avail b > length buf then b\<lparr>fb_data := fb_data b @ buf\<rparr> else b)"

definition FixedBuffer_reset :: "FixedBuffer \<Rightarrow> FixedBuffer" where
  "FixedBuffer_reset b = b\<lparr>fb_data := []\<rparr>"

definition formatInteger :: "FixedBuffer \<Rightarrow> int \<Rightarrow> FixedBuffer" where
  "formatInteger b v =
     (if avail b \<ge> kMaxNumericSize then b\<lparr>fb_data := fb_data b @ convert v\<rparr> else b)"

definition insert_bool :: "FixedBuffer \<Rightarrow> bool \<Rightarrow> FixedBuffer" where
  "insert_bool b v = FixedBuffer_append b (if v then str ''1'' else str ''0'')"

definition insert_pointer :: "FixedBuffer \<Rightarrow> nat \<Rightarrow> FixedBuffer" where
  "insert_pointer b v =
     (if avail b \<ge> kMaxNumericSize then b\<lparr>fb_data := fb_data b @ str ''0x'' @ convertHex v\<rparr> else b)"

definition insert_char :: "FixedBuffer \<Rightarrow> byte \<Rightarrow> FixedBuffer" where
  "insert_char b v = FixedBuffer_append b [v]"

definition insert_cstring :: "FixedBuffer \<Rightarrow> bytes option \<Rightarrow> FixedBuffer" where
  "insert_cstring b s =
     (case s of Some x \<Rightarrow> FixedBuffer_append b x | None \<Rightarrow> FixedBuffer_append b (str ''(null)''))"

definition insert_string :: "FixedBuffer \<Rightarrow> bytes \<Rightarrow> FixedBuffer" where
  "insert_string b v = FixedBuffer_append b v"

text \<open>A log statement is a sequence of insertions.\<close>

datatype operand =
    OpBool bool | OpInt int | OpPointer nat | OpChar byte | OpCString "bytes option" | OpString bytes

fun insert_operand :: "FixedBuffer \<Rightarrow> operand \<Rightarrow> FixedBuffer" where
  "insert_operand b (OpBool v) = insert_bool b v"
| "insert_operand b (OpInt v) = formatInteger b v"
| "insert_operand b (OpPointer v) = insert_pointer b v"
| "insert_operand b (OpChar v) = insert_char b v"
| "insert_operand b (OpCString v) = insert_cstring b v"
| "insert_operand b (OpString v) = insert_string b v"

fun operand_text :: "operand \<Rightarrow> bytes" where
  "operand_text (OpBool v) = (if v then str ''1'' else str ''0'')"
| "operand_text (OpInt v) = decimal_int v"
| "operand_text (OpPointer v) = str ''0x'' @ convertHex v"
| "operand_text (OpChar v) = [v]"
| "operand_text (OpCString v) = (case v of Some x \<Rightarrow> x | None \<Rightarrow> str ''(null)'')"
| "operand_text (OpString v) = v"

text \<open>Integers have at most 64 bits.\<close>

fun operand_ok :: "operand \<Rightarrow> bool" where
  "operand_ok (OpInt v) \<longleftrightarrow> - (2 ^ 63) \<le> v \<and> v < 2 ^ 64"
| "operand_ok (OpPointer v) \<longleftrightarrow> v < 2 ^ 64"
| "operand_ok _ \<longleftrightarrow> True"

text \<open>An insertion adds the whole text of the operand or nothing, and what it adds fits.\<close>

lemma insert_operand_cases:
  assumes "operand_ok x" and "length (fb_data b) \<le> fb_size b"
  shows "(insert_operand b x = b\<lparr>fb_data := fb_data b @ operand_text x\<rparr> \<and>
      length (fb_data b @ operand_text x) < fb_size b) \<or>
    (insert_operand b x = b \<and> fb_size b < length (fb_data b) + length (operand_text x) + kMaxNumericSize)"
proof -
  have app: "(FixedBuffer_append b s = b\<lparr>fb_data := fb_data b @ s\<rparr> \<and> length (fb_data b @ s) < fb_size b) \<or>
      (FixedBuffer_append b s = b \<and> fb_size b < length (fb_data b) + length s + kMaxNumericSize)" for s
    by (auto simp: FixedBuffer_append_def avail_def kMaxNumericSize_def)
  show ?thesis
  proof (cases x)
    case (OpInt v)
    with assms convert_length [of v] show ?thesis
      by (auto simp: formatInteger_def avail_def kMaxNumericSize_def convert_decimal)
  next
    case (OpPointer v)
    with assms convertHex_loop_length [of v 16] show ?thesis
      by (auto simp: insert_pointer_def avail_def kMaxNumericSize_def convertHex_def str_def)
  next
    case (OpCString s)
    with app show ?thesis by (cases s) (simp_all add: insert_cstring_def)
  next
    case (OpChar c)
    with app [of "[c]"] show ?thesis by (simp add: insert_char_def)
  qed (use app in \<open>simp_all add: insert_bool_def insert_string_def\<close>)
qed

lemma insert_operands_bounded:
  "list_all operand_ok xs \<Longrightarrow> length (fb_data b) \<le> fb_size b \<Longrightarrow>
   length (fb_data (foldl insert_operand b xs)) \<le> fb_size b \<and>
   (\<exists>ys. subseq ys xs \<and> fb_data (foldl insert_operand b xs) = fb_data b @ concat (map operand_text ys) \<and>
      (length (fb_data b) + length (concat (map operand_text xs)) + kMaxNumericSize \<le> fb_size b \<longrightarrow> ys = xs))"
proof (induction xs arbitrary: b)
  case (Cons x xs)
  let ?b = "insert_operand b x"
  have c: "(?b = b\<lparr>fb_data := fb_data b @ operand_text x\<rparr> \<and> length (fb_data b @ operand_text x) < fb_size b) \<or>
      (?b = b \<and> fb_size b < length (fb_data b) + length (operand_text x) + kMaxNumericSize)"
    using insert_operand_cases [of x b] Cons.prems by simp
  then have "length (fb_data ?b) \<le> fb_size ?b" and sz: "fb_size ?b = fb_size b"
    using Cons.prems(2) by auto
  with Cons.IH [of ?b] Cons.prems(1) obtain ys where ys: "length (fb_data (foldl insert_operand ?b xs)) \<le> fb_size b"
      "subseq ys xs" "fb_data (foldl insert_operand ?b xs) = fb_data ?b @ concat (map operand_text ys)"
      "length (fb_data ?b) + length (concat (map operand_text xs)) + kMaxNumericSize \<le> fb_size b \<longrightarrow> ys = xs"
    by auto
  from c show ?case
  proof
    assume b: "?b = b\<lparr>fb_data := fb_data b @ operand_text x\<rparr> \<and> length (fb_data b @ operand_text x) < fb_size b"
    with ys have "subseq (x # ys) (x # xs)"
      "fb_data (foldl insert_operand b (x # xs)) = fb_data b @ concat (map operand_text (x # ys))"
      "length (fb_data b) + length (concat (map operand_text (x # xs))) + kMaxNumericSize \<le> fb_size b \<longrightarrow> x # ys = x # xs"
      by (simp_all add: add.assoc)
    with ys(1) show ?thesis by (metis foldl_Cons)
  next
    assume b: "?b = b \<and> fb_size b < length (fb_data b) + length (operand_text x) + kMaxNumericSize"
    with ys have "subseq ys (x # xs)"
      "fb_data (foldl insert_operand b (x # xs)) = fb_data b @ concat (map operand_text ys)"
      "length (fb_data b) + length (concat (map operand_text (x # xs))) + kMaxNumericSize \<le> fb_size b \<longrightarrow> ys = x # xs"
      by (auto intro: list_emb_Cons)
    with ys(1) b show ?thesis by (metis foldl_Cons)
  qed
qed (auto intro: exI [of _ "[]"])

section \<open>Properties\<close>

text \<open>
  C17.  Integers in log lines.  \<open>convert\<close> writes the decimal notation of every integer, the
  negative ones with a minus sign, and a value of at most 64 bits takes at most 21
  characters, fewer than the 32 that \<open>formatInteger\<close> checks for.
\<close>

theorem convert_is_decimal:
  "convert v = (if v < 0 then str ''-'' else []) @ decimal (nat \<bar>v\<bar>) \<and>
   decimal_value (decimal n) = n \<and>
   (- (2 ^ 63) \<le> v \<and> v < 2 ^ 64 \<longrightarrow> length (convert v) \<le> 21)"
  using convert_decimal [of v] decimal_value_decimal convert_length [of v] by (simp add: decimal_int_def)

lemma convert_is_decimal_witness:
  "convert (- (2 ^ 63)) = str ''-'' @ decimal (2 ^ 63) \<and> decimal_value (decimal 7) = 7 \<and>
   length (convert (- (2 ^ 63))) \<le> 21"
proof (intro conjI)
  show "convert (- (2 ^ 63)) = str ''-'' @ decimal (2 ^ 63)" "decimal_value (decimal 7) = 7"
    using convert_is_decimal [of "- (2 ^ 63)" 7] by simp_all
  have "- (2 ^ 63) \<le> - (2 ^ 63 :: int) \<and> - (2 ^ 63) < (2 ^ 64 :: int)" by simp
  then show "length (convert (- (2 ^ 63))) \<le> 21" using convert_is_decimal [of "- (2 ^ 63)" 7] by blast
qed

text \<open>
  C18.  Log lines.  A sequence of insertions into a stream never passes the end of the
  buffer.  The line is the text of some of the operands, each whole, in order; it is the text
  of all of them when 32 bytes to spare are left.
\<close>

theorem log_line_bounded:
  assumes "list_all operand_ok xs" and "b = foldl insert_operand (FixedBuffer_ctor kSmallBuffer) xs"
  shows "length (fb_data b) \<le> kSmallBuffer \<and>
    (\<exists>ys. subseq ys xs \<and> fb_data b = concat (map operand_text ys) \<and>
      (length (concat (map operand_text xs)) \<le> 3968 \<longrightarrow> ys = xs))"
  using insert_operands_bounded [OF assms(1), of "FixedBuffer_ctor kSmallBuffer"] assms(2)
  by (simp add: FixedBuffer_ctor_def kSmallBuffer_def kMaxNumericSize_def)

lemma log_line_bounded_witness:
  "fb_data (foldl insert_operand (FixedBuffer_ctor kSmallBuffer) [OpInt (-12), OpString (str '' ok''), OpCString None]) =
    str ''-12 ok(null)''"
proof -
  let ?xs = "[OpInt (-12), OpString (str '' ok''), OpCString None]"
  have "list_all operand_ok ?xs" by simp
  moreover have t: "concat (map operand_text ?xs) = str ''-12 ok(null)''"
    by (simp add: decimal_int_def decimal.simps str_def)
  moreover have "length (concat (map operand_text ?xs)) \<le> 3968" unfolding t by (simp add: str_def)
  ultimately show ?thesis using log_line_bounded [of ?xs] by metis
qed

end
