(* ===== verification/WS_Handshake.thy ===== *)
theory WS_Handshake
  imports WS_Client WS_Http WS_Base64 WS_TimeZone WS_LogStream
begin

text \<open>
  The opening handshake and the entry point of the library: \<^verbatim>\<open>do_handshake\<close>,
  \<^verbatim>\<open>parse_message_frame\<close>, \<^verbatim>\<open>create\<close> and \<^verbatim>\<open>free\<close> of \<^verbatim>\<open>libwebsocket/private/websocket.cc\<close>.  The HTTP
  parser is reached through \<^verbatim>\<open>IHttpContext\<close>, here the record of its virtual functions;
  \<open>HttpContext_vtable\<close> is the one of \<^verbatim>\<open>muduo::net::HttpContext\<close>.  SHA-1 is OpenSSL's, a parameter, and so
  are the clock and the address of the peer.
\<close>

section \<open>Interfaces\<close>

record ('h, 'b) IHttpContext =
  vparseRequestPtr :: "'h \<Rightarrow> 'b \<Rightarrow> timestamp \<Rightarrow> (bool \<times> 'h \<times> 'b) res"
  vgotAll :: "'h \<Rightarrow> bool"
  vgetHeader :: "'h \<Rightarrow> bytes \<Rightarrow> bytes"

definition HttpContext_vtable :: "(HttpContext, Buffer) IHttpContext" where
  "HttpContext_vtable =
     \<lparr>vparseRequestPtr = parseRequest, vgotAll = gotAll,
      vgetHeader = (\<lambda>c. getHeader (http_request c))\<rparr>"

record environment =
  env_SHA1 :: "bytes \<Rightarrow> bytes"
  env_time :: int
  env_peerIp :: bytes

section \<open>The response\<close>

definition getAcceptKey :: "(bytes \<Rightarrow> bytes) \<Rightarrow> bytes \<Rightarrow> bytes" where
  "getAcceptKey SHA1 key = Encode (SHA1 (key @ str ''258EAFA5-E914-47DA-95CA-C5AB0DC85B11''))"

text \<open>\<^verbatim>\<open>strftime\<close> with \<^verbatim>\<open>"%a, %d %b %Y %H:%M:%S %Z"\<close> in the C locale.\<close>

definition day_names :: "string list" where
  "day_names = [''Sun'', ''Mon'', ''Tue'', ''Wed'', ''Thu'', ''Fri'', ''Sat'']"

definition month_names :: "string list" where
  "month_names = [''Jan'', ''Feb'', ''Mar'', ''Apr'', ''May'', ''Jun'', ''Jul'', ''Aug'', ''Sep'', ''Oct'',
     ''Nov'', ''Dec'']"

definition two_digits :: "int \<Rightarrow> bytes" where
  "two_digits n = (if n < 10 then str ''0'' else []) @ decimal_int n"

definition webtime :: "int \<Rightarrow> bytes" where
  "webtime time =
     (let x = gmtime time in
      str (day_names ! nat (tm_wday x)) @ str '', '' @ two_digits (tm_mday x) @ str '' '' @
      str (month_names ! nat (tm_mon x)) @ str '' '' @ decimal_int (tm_year x + 1900) @ str '' '' @
      two_digits (tm_hour x) @ str '':'' @ two_digits (tm_min x) @ str '':'' @ two_digits (tm_sec x) @
      str '' '' @ tm_zone x)"

definition create_websocket_response :: "environment \<Rightarrow> (bytes \<Rightarrow> bytes) \<Rightarrow> bytes" where
  "create_websocket_response E getHdr =
     str ''HTTP/1.1 101 Switching Protocols'' @ kCRLF @
     str ''Connection: Upgrade'' @ kCRLF @
     str ''Content-Type: application/octet-stream'' @ kCRLF @
     str ''Upgrade: websocket'' @ kCRLF @
     str ''Sec-WebSocket-Version: 13'' @ kCRLF @
     str ''Sec-WebSocket-Accept: '' @ getAcceptKey (env_SHA1 E) (getHdr (str ''Sec-WebSocket-Key'')) @ kCRLF @
     str ''Server: TXQP'' @ kCRLF @
     str ''Timing-Allow-Origin: *'' @ kCRLF @
     str ''Date: '' @ webtime (env_time E) @ kCRLF @ kCRLF"

section \<open>The address of the client\<close>

text \<open>\<^verbatim>\<open>boost::algorithm::split\<close> at commas: empty parts are kept.\<close>

fun split_comma :: "bytes \<Rightarrow> bytes list" where
  "split_comma [] = [[]]"
| "split_comma (c # cs) =
     (if c = 44 then [] # split_comma cs
      else case split_comma cs of p # ps \<Rightarrow> (c # p) # ps | [] \<Rightarrow> [[c]])"

definition tolower :: "byte \<Rightarrow> byte" where
  "tolower c = (if 65 \<le> c \<and> c \<le> 90 then c + 32 else c)"

text \<open>\<^verbatim>\<open>strncasecmp(s, p, n) == 0\<close> on the C strings of \<open>s\<close> and \<open>p\<close>.\<close>

definition strncaseeq :: "bytes \<Rightarrow> bytes \<Rightarrow> nat \<Rightarrow> bool" where
  "strncaseeq s p n \<longleftrightarrow>
     map tolower (take n (takeWhile (\<lambda>c. c \<noteq> 0) s)) = map tolower (take n (takeWhile (\<lambda>c. c \<noteq> 0) p))"

definition is_public :: "bytes \<Rightarrow> bool" where
  "is_public s \<longleftrightarrow>
     \<not> strncaseeq s (str ''10.'') 3 \<and> \<not> strncaseeq s (str ''192.168'') 7 \<and> \<not> strncaseeq s (str ''172.16.'') 7"

fun first_public :: "bytes list \<Rightarrow> bytes" where
  "first_public [] = []"
| "first_public (s # ss) = (if s \<noteq> [] \<and> is_public s then s else first_public ss)"

definition client_ip :: "bytes \<Rightarrow> bytes \<Rightarrow> bytes" where
  "client_ip peerIp ipaddrs =
     (if ipaddrs = [] then peerIp else first_public (split_comma (filter (\<lambda>c. c \<noteq> 32) ipaddrs)))"

section \<open>The handshake\<close>

text \<open>Every exit but the successful one releases the HTTP context and returns false.\<close>

definition handshake_failed ::
  "HandShakeE option \<Rightarrow> ('b, 'h) session \<Rightarrow> (bool \<times> HandShakeE option \<times> ('b, 'h) session) res" where
  "handshake_failed e s =
     rbind (getHttpContext (ctx s)) (\<lambda>_. Inr (False, e, s\<lparr>ctx := (ctx s)\<lparr>httpContext := None\<rparr>\<rparr>))"

definition handshake_done ::
  "'b IBytesBuffer \<Rightarrow> ('h, 'b) IHttpContext \<Rightarrow> environment \<Rightarrow> 'h \<Rightarrow> ('b, 'h) session
     \<Rightarrow> (bool \<times> HandShakeE option \<times> ('b, 'h) session) res" where
  "handshake_done V H E h s =
     (let rspdata = create_websocket_response E (vgetHeader H h);
          ipaddr = client_ip (env_peerIp E) (vgetHeader H h (str ''X-Forwarded-For''))
      in require Websocket_cc 3800 (vreadableBytes V (inbuf s) = 0)
        (let s1 = s\<lparr>inbuf := vretrieveAll V (inbuf s), ctx := (ctx s)\<lparr>wsState := kConnected\<rparr>\<rparr>;
             s2 = emit (OnConnectedCallback ipaddr) (emit (SendMessage rspdata) s1)
         in rbind (getHttpContext (ctx s2)) (\<lambda>_.
              Inr (True, None, s2\<lparr>ctx := (ctx s2)\<lparr>httpContext := None\<rparr>\<rparr>))))"

definition do_handshake ::
  "'b IBytesBuffer \<Rightarrow> ('h, 'b) IHttpContext \<Rightarrow> environment \<Rightarrow> timestamp \<Rightarrow> ('b, 'h) session
     \<Rightarrow> (bool \<times> HandShakeE option \<times> ('b, 'h) session) res" where
  "do_handshake V H E t s =
     require Websocket_cc 1077 (handler (ctx s))
     (if vreadableBytes V (inbuf s) \<le> 4 then handshake_failed (Some WS_ERROR_WANT_MORE) s
      else if vreadableBytes V (inbuf s) > 1024 then handshake_failed (Some WS_ERROR_PACKSZ) s
      else case vfindCRLFCRLF V (inbuf s) of
        None \<Rightarrow> handshake_failed (Some WS_ERROR_CRLFCRLF) s
      | Some _ \<Rightarrow>
          rbind (getHttpContext (ctx s)) (\<lambda>h.
          rbind (vparseRequestPtr H h (inbuf s) t) (\<lambda>(ok, h', b).
            let s1 = s\<lparr>inbuf := b, ctx := (ctx s)\<lparr>httpContext := Some h'\<rparr>\<rparr> in
            if \<not> ok then handshake_failed (Some WS_ERROR_PARSE) s1
            else if vgotAll H h' then handshake_done V H E h' s1
            else handshake_failed None s1)))"

definition bad_request :: bytes where
  "bad_request = str ''HTTP/1.1 400 Bad Request'' @ kCRLF @ kCRLF"

definition parse_message_frame ::
  "'b IBytesBuffer \<Rightarrow> ('h, 'b) IHttpContext \<Rightarrow> bool \<Rightarrow> environment \<Rightarrow> timestamp \<Rightarrow> ('b, 'h) session option
     \<Rightarrow> (int \<times> ('b, 'h) session option) res" where
  "parse_message_frame V H D E t context =
     (case context of
        None \<Rightarrow> Inr (HandShakeE_value WS_ERROR_CONTEXT, None)
      | Some s \<Rightarrow>
          (if wsState (ctx s) = kClosed
           then rbind (do_handshake V H E t s) (\<lambda>(wsConnected, saveErrno, s1).
             case saveErrno of
               None \<Rightarrow> require Websocket_cc 3872 wsConnected (Inr (0, Some s1))
             | Some e \<Rightarrow>
                 (if e = WS_ERROR_PARSE \<or> e = WS_ERROR_PACKSZ
                  then require Websocket_cc 1077 (handler (ctx s1))
                    (Inr (HandShakeE_value e, Some (emit Shutdown (emit (SendMessage bad_request) s1))))
                  else Inr (HandShakeE_value e, Some s1)))
           else require Websocket_cc 3878 (wsState (ctx s) = kConnected)
             (rmap (\<lambda>s1. (0, Some s1)) (parse_frame V D t s))))"

definition create ::
  "bool \<Rightarrow> 'h option \<Rightarrow> 'b option \<Rightarrow> 'b option \<Rightarrow> ('b, 'h) Context_ res" where
  "create hnd http dataBuffer controlBuffer = Context_ctor hnd http dataBuffer controlBuffer LittleEndian"

text \<open>\<^verbatim>\<open>free\<close>: the destructor runs \<^verbatim>\<open>resetAll\<close> once more; the result is the context's last state.\<close>

definition free :: "'b IBytesBuffer \<Rightarrow> ('b, 'h) Context_ option \<Rightarrow> ('b, 'h) Context_ res" where
  "free V context =
     (case context of
        None \<Rightarrow> Inl (AssertFail Websocket_cc 3902)
      | Some c \<Rightarrow> Inr (resetAll V (resetAll V c)))"


section \<open>Requests that end in an empty line\<close>

lemma find_sub_occurs:
  assumes "take (length pat) (drop j xs) = pat" and "j + length pat \<le> length xs"
  shows "find_sub pat xs \<noteq> None"
  using find_sub_None [of pat xs j] assms by blast

definition ends_soon :: "bytes \<Rightarrow> bool" where
  "ends_soon xs \<longleftrightarrow> take 2 xs = kCRLF \<or> find_sub kCRLFCRLF xs \<noteq> None"

lemma ends_soon_line:
  assumes "find_sub kCRLFCRLF xs \<noteq> None"
  shows "\<exists>l rest. next_line xs = Some (l, rest) \<and> ends_soon rest"
proof -
  obtain i where i: "find_sub kCRLFCRLF xs = Some i" using assms by auto
  have len: "length kCRLFCRLF = 4" "length kCRLF = 2" by (simp_all add: kCRLFCRLF_def kCRLF_def)
  have ic: "i + 4 \<le> length xs" "take 4 (drop i xs) = [13, 10, 13, 10]"
    using find_sub_Some [OF i] unfolding len by (simp_all add: kCRLFCRLF_def)
  have "take 2 (take 4 (drop i xs)) = kCRLF" unfolding ic(2) by (simp add: kCRLF_def)
  then have "take 2 (drop i xs) = kCRLF" by simp
  then have "find_sub kCRLF xs \<noteq> None" using ic(1) by (intro find_sub_occurs [of _ i]) (simp_all add: len)
  then obtain k where k: "find_sub kCRLF xs = Some k" by auto
  have kc: "k + 2 \<le> length xs" "take 2 (drop k xs) = kCRLF" "\<And>j. j < k \<Longrightarrow> take 2 (drop j xs) \<noteq> kCRLF"
    using find_sub_Some [OF k] unfolding len by simp_all
  have ki: "k \<le> i" using kc(3) [of i] \<open>take 2 (drop i xs) = kCRLF\<close> by (meson not_le)
  have "ends_soon (drop (k + 2) xs)"
  proof (cases "k = i")
    case True
    have "take 2 (drop 2 (take 4 (drop i xs))) = kCRLF" unfolding ic(2) by (simp add: kCRLF_def)
    then have "take 2 (drop (k + 2) xs) = kCRLF" using True by (simp add: drop_take add.commute)
    then show ?thesis by (simp add: ends_soon_def)
  next
    case False
    have "k + 1 \<noteq> i"
    proof
      assume "k + 1 = i"
      then have "xs ! (k + 1) = take 4 (drop i xs) ! 0" using ic(1) by simp
      moreover have "xs ! (k + 1) = take 2 (drop k xs) ! 1" using kc(1) by simp
      ultimately show False unfolding ic(2) kc(2) by (simp add: kCRLF_def)
    qed
    with False ki have "k + 2 \<le> i" by simp
    then obtain j where j: "i = k + 2 + j" using le_Suc_ex by blast
    have "find_sub kCRLFCRLF (drop (k + 2) xs) \<noteq> None"
    proof (rule find_sub_occurs [of _ j])
      show "take (length kCRLFCRLF) (drop j (drop (k + 2) xs)) = kCRLFCRLF"
        using ic(2) j unfolding len by (simp add: kCRLFCRLF_def add.commute add.left_commute)
      show "j + length kCRLFCRLF \<le> length (drop (k + 2) xs)" unfolding len using ic(1) j by simp
    qed
    then show ?thesis by (simp add: ends_soon_def)
  qed
  with k show ?thesis by (simp add: next_line_def)
qed


lemma headers_end: "ends_soon xs \<Longrightarrow> fst (snd (http_headers r xs))"
proof (induction r xs rule: http_headers.induct)
  case (1 r xs)
  show ?case
  proof (cases "take 2 xs = kCRLF")
    case True
    then have "xs = [] @ kCRLF @ drop 2 xs" by (metis append_Nil append_take_drop_id)
    then have "next_line xs = Some ([], drop 2 xs)" by (metis next_line_CRLF empty_iff empty_set)
    then show ?thesis by (subst http_headers.simps) simp
  next
    case False
    with "1.prems" have "find_sub kCRLFCRLF xs \<noteq> None" by (simp add: ends_soon_def)
    then obtain l rest where l: "next_line xs = Some (l, rest)" "ends_soon rest"
      using ends_soon_line by blast
    show ?thesis
    proof (cases "58 \<in> set l")
      case True
      with "1.IH" [OF l(1) refl True l(2)] l(1) show ?thesis by (subst http_headers.simps) simp
    next
      case False
      with l(1) show ?thesis by (subst http_headers.simps) simp
    qed
  qed
qed

lemma processRequestLine_fresh: "\<exists>ok r. processRequestLine HttpRequest_ctor l = Inr (ok, r)"
proof -
  have m: "setMethod HttpRequest_ctor x = Inr (method_of x \<noteq> kInvalid, HttpRequest_ctor\<lparr>req_method := method_of x\<rparr>)" for x
    by (simp add: setMethod_def require_def HttpRequest_ctor_def)
  have i: "(\<exists>ok r. (if c then a else b) = Inr (ok, r))"
    if "\<exists>ok r. a = Inr (ok, r)" "\<exists>ok r. b = Inr (ok, r)" for c and a b :: "(bool \<times> HttpRequest) res"
    using that by simp
  show ?thesis
    unfolding processRequestLine_def Let_def m rbind_simps prod.case by (intro i) (blast+)
qed

lemma http_parse_fresh:
  assumes "find_sub kCRLFCRLF xs \<noteq> None"
  shows "\<exists>ok c rest. http_parse HttpContext_ctor xs t = Inr (ok, c, rest) \<and> (ok \<longrightarrow> gotAll c)"
proof -
  obtain l rest where l: "next_line xs = Some (l, rest)" "ends_soon rest" using ends_soon_line [OF assms] by blast
  obtain ok r where p: "processRequestLine HttpRequest_ctor l = Inr (ok, r)" using processRequestLine_fresh by blast
  obtain r' dn rest' where h: "http_headers (setReceiveTime r t) rest = (r', dn, rest')" by (metis prod_cases3)
  with headers_end [OF l(2), of "setReceiveTime r t"] have dn by simp
  with l(1) p h show ?thesis
    by (cases ok) (auto simp: http_parse_def HttpContext_ctor_def header_result_def gotAll_def)
qed

section \<open>The handshake relies on the parser\<close>

text \<open>
  What the handshake needs of the HTTP parser: a fresh context that gets bytes in which the end of a
  request occurs either refuses them or has the whole request.
\<close>

locale handshake_parser = bytes_buffer V content invar
  for V :: "'b IBytesBuffer" and content :: "'b \<Rightarrow> bytes" and invar :: "'b \<Rightarrow> bool" +
  fixes H :: "('h, 'b) IHttpContext" and fresh :: 'h
  assumes parse_fresh: "invar b \<Longrightarrow> find_sub kCRLFCRLF (content b) \<noteq> None \<Longrightarrow>
      \<exists>ok h' b'. vparseRequestPtr H fresh b t = Inr (ok, h', b') \<and> invar b' \<and> (ok \<longrightarrow> vgotAll H h')"
begin

definition waiting :: "('b, 'h) session \<Rightarrow> bool" where
  "waiting s \<longleftrightarrow> handler (ctx s) \<and> wsState (ctx s) = kClosed \<and> httpContext (ctx s) = Some fresh \<and> invar (inbuf s)"

lemma handshake_total:
  assumes "waiting s"
  shows "(\<exists>n s'. parse_message_frame V H D E t (Some s) = Inr (n, Some s') \<and> n \<noteq> 0 \<and>
        wsState (ctx s') = kClosed \<and> httpContext (ctx s') = None \<and> handler (ctx s')) \<or>
    (\<exists>s'. parse_message_frame V H D E t (Some s) = Inr (0, Some s') \<and>
        wsState (ctx s') = kConnected \<and> httpContext (ctx s') = None) \<or>
    parse_message_frame V H D E t (Some s) = Inl (AssertFail Websocket_cc 3800)"
proof -
  have w: "handler (ctx s)" "wsState (ctx s) = kClosed" "httpContext (ctx s) = Some fresh" "invar (inbuf s)"
    using assms by (simp_all add: waiting_def)
  note defs = parse_message_frame_def do_handshake_def handshake_failed_def getHttpContext_def emit_def
  show ?thesis
  proof (cases "find_sub kCRLFCRLF (content (inbuf s))")
    case None
    with w show ?thesis by (simp add: defs find4)
  next
    case (Some i)
    then obtain ok h b where p: "vparseRequestPtr H fresh (inbuf s) t = Inr (ok, h, b)" "ok \<longrightarrow> vgotAll H h"
      using parse_fresh [OF w(4)] by blast
    with w Some show ?thesis
      by (cases ok) (simp_all add: defs find4 handshake_done_def Let_def require_def)
  qed
qed

end

interpretation hp: handshake_parser Buffer_vtable content buffer_inv HttpContext_vtable HttpContext_ctor
proof unfold_locales
  fix b t assume b: "buffer_inv b" "find_sub kCRLFCRLF (content b) \<noteq> None"
  obtain ok c rest where h: "http_parse HttpContext_ctor (content b) t = Inr (ok, c, rest)" "ok \<longrightarrow> gotAll c"
    using http_parse_fresh [OF b(2)] by blast
  have "http_state HttpContext_ctor = kExpectRequestLine" by (simp add: HttpContext_ctor_def)
  with parseRequest_refines [OF b(1), of HttpContext_ctor t] h
  show "\<exists>ok h' b'. vparseRequestPtr HttpContext_vtable HttpContext_ctor b t = Inr (ok, h', b') \<and>
      buffer_inv b' \<and> (ok \<longrightarrow> vgotAll HttpContext_vtable h')"
    by (auto simp: HttpContext_vtable_def)
qed


section \<open>A new connection\<close>

definition fresh_session :: "(Buffer, HttpContext) session \<Rightarrow> bool" where
  "fresh_session s \<longleftrightarrow>
     (let c = ctx s; dm = dataMessage c; cm = controlMessage c in
      handler c \<and> wsState c = kClosed \<and> wsStep c = ReadFrameHeader \<and> cheader c = extended_header_zero \<and>
      httpContext c = Some HttpContext_ctor \<and> buffer_inv (inbuf s) \<and>
      msg_holds content buffer_inv dm [] \<and> msg_holds content buffer_inv cm [] \<and>
      getMessageType dm = TextMessage \<and> frameHeaders (messageHeader dm) = [] \<and>
      frameHeaders (messageHeader cm) = [])"

lemma fresh_waiting: "fresh_session s \<Longrightarrow> hp.waiting s"
  by (simp add: fresh_session_def hp.waiting_def Let_def)

lemma create_fresh:
  assumes "buffer_inv db" "buffer_inv cb" "content db = []" "content cb = []" "buffer_inv b"
  shows "\<exists>c. create True (Some HttpContext_ctor) (Some db) (Some cb) = Inr c \<and>
    fresh_session \<lparr>ctx = c, inbuf = b, calls = cs\<rparr>"
  using assms
  by (simp add: create_def Context_ctor_def setMessageBuffer_def Message_ctor_def fresh_session_def msg_holds_def
      getMessageType_def)

lemma request_bytes_end: "\<exists>ys. request_bytes m path query v hs = ys @ kCRLFCRLF"
proof -
  have "kCRLF @ kCRLF = kCRLFCRLF" by (simp add: kCRLF_def kCRLFCRLF_def)
  moreover have "\<exists>ys. ws @ kCRLF @ concat (map header_line hs) = ys @ kCRLF" for ws
  proof (cases hs rule: rev_cases)
    case (snoc hs' h)
    then have "ws @ kCRLF @ concat (map header_line hs) =
        (ws @ kCRLF @ concat (map header_line hs') @ fst h @ [58, 32] @ snd h) @ kCRLF"
      by (simp add: header_line_def)
    then show ?thesis by blast
  qed simp
  ultimately show ?thesis unfolding request_bytes_line by (metis append.assoc)
qed

lemma request_bytes_found: "find_sub kCRLFCRLF (request_bytes m path query v hs @ rest) \<noteq> None"
  and request_bytes_length: "4 < length (request_bytes m path query v hs)"
proof -
  obtain ys where "request_bytes m path query v hs = ys @ kCRLFCRLF" using request_bytes_end by blast
  then show "find_sub kCRLFCRLF (request_bytes m path query v hs @ rest) \<noteq> None"
    by (intro find_sub_occurs [of _ "length ys"]) simp_all
  show "4 < length (request_bytes m path query v hs)" by (simp add: request_bytes_def kCRLF_def)
qed

definition header_of :: "(bytes \<times> bytes) list \<Rightarrow> bytes \<Rightarrow> bytes" where
  "header_of hs f = (case map_of (rev hs) f of None \<Rightarrow> [] | Some v \<Rightarrow> v)"

text \<open>The handshake on a well formed request that may be followed by more bytes.\<close>

lemma handshake_request:
  assumes s: "fresh_session s" and c: "content (inbuf s) = request_bytes m path query v hs @ rest"
    and ok: "m \<noteq> kInvalid" "v \<noteq> kUnknown" "uri_ok path query" "list_all header_ok hs"
    and l: "length (content (inbuf s)) \<le> 1024"
  shows "\<exists>s1 h. do_handshake Buffer_vtable HttpContext_vtable E t s =
      handshake_done Buffer_vtable HttpContext_vtable E h s1 \<and>
    buffer_inv (inbuf s1) \<and> content (inbuf s1) = rest \<and>
    ctx s1 = (ctx s)\<lparr>httpContext := Some h\<rparr> \<and> calls s1 = calls s \<and>
    vgetHeader HttpContext_vtable h = header_of hs"
proof -
  have inv: "buffer_inv (inbuf s)" and hc: "handler (ctx s)" "httpContext (ctx s) = Some HttpContext_ctor"
    using s by (simp_all add: fresh_session_def Let_def)
  have "http_state HttpContext_ctor = kExpectRequestLine" by (simp add: HttpContext_ctor_def)
  with parseRequest_refines [OF inv, of HttpContext_ctor t] http_parse_request [OF ok, of rest t] c
  obtain h b where p: "parseRequest HttpContext_ctor (inbuf s) t = Inr (True, h, b)" "buffer_inv b" "content b = rest"
      "http_state h = kGotAll" "req_headers (http_request h) = map_of (rev hs)"
    by auto
  have f: "vfindCRLFCRLF Buffer_vtable (inbuf s) \<noteq> None"
    using mb.find4 [OF inv] request_bytes_found c by simp
  have n: "\<not> vreadableBytes Buffer_vtable (inbuf s) \<le> 4" "\<not> 1024 < vreadableBytes Buffer_vtable (inbuf s)"
    using mb.readable [OF inv] l c request_bytes_length [of m path query v hs] by simp_all
  let ?s1 = "s\<lparr>inbuf := b, ctx := (ctx s)\<lparr>httpContext := Some h\<rparr>\<rparr>"
  have g: "vgotAll HttpContext_vtable h" "vgetHeader HttpContext_vtable h = header_of hs"
    using p(4,5) by (auto simp: HttpContext_vtable_def gotAll_def getHeader_def header_of_def fun_eq_iff)
  have v: "vparseRequestPtr HttpContext_vtable = parseRequest" by (simp add: HttpContext_vtable_def)
  have "do_handshake Buffer_vtable HttpContext_vtable E t s =
      handshake_done Buffer_vtable HttpContext_vtable E h ?s1"
    using f n hc p(1) g(1) by (auto simp: do_handshake_def getHttpContext_def v)
  with p(2,3) g(2) show ?thesis by force
qed

lemma handshake_done_empty:
  assumes "vreadableBytes V (inbuf s) = 0" and "httpContext (ctx s) \<noteq> None"
  shows "handshake_done V H E h s = Inr (True, None,
    s\<lparr>inbuf := vretrieveAll V (inbuf s), ctx := (ctx s)\<lparr>wsState := kConnected, httpContext := None\<rparr>,
      calls := calls s @ [SendMessage (create_websocket_response E (vgetHeader H h)),
        OnConnectedCallback (client_ip (env_peerIp E) (vgetHeader H h (str ''X-Forwarded-For'')))]\<rparr>)"
  using assms by (auto simp: handshake_done_def getHttpContext_def emit_def Let_def)


lemma handshake_established:
  assumes "fresh_session s" and "content (inbuf s) = request_bytes m path query v hs"
    and "m \<noteq> kInvalid" and "v \<noteq> kUnknown" and "uri_ok path query" and "list_all header_ok hs"
    and "length (content (inbuf s)) \<le> 1024"
  shows "\<exists>s'. parse_message_frame Buffer_vtable HttpContext_vtable D E t (Some s) = Inr (0, Some s') \<and>
    idle_session s' \<and> httpContext (ctx s') = None \<and>
    calls s' = calls s @ [SendMessage (create_websocket_response E (header_of hs)),
      OnConnectedCallback (client_ip (env_peerIp E) (header_of hs (str ''X-Forwarded-For'')))]"
proof -
  obtain s1 h where d: "do_handshake Buffer_vtable HttpContext_vtable E t s =
        handshake_done Buffer_vtable HttpContext_vtable E h s1"
      "buffer_inv (inbuf s1)" "content (inbuf s1) = []" "ctx s1 = (ctx s)\<lparr>httpContext := Some h\<rparr>"
      "calls s1 = calls s" "vgetHeader HttpContext_vtable h = header_of hs"
    using handshake_request [OF assms(1) _ assms(3-7), where rest = "[]" and E = E and t = t] assms(2) by auto
  have "vreadableBytes Buffer_vtable (inbuf s1) = 0" using mb.readable [OF d(2)] d(3) by simp
  note e = handshake_done_empty [OF this, of HttpContext_vtable E h]
  show ?thesis
    using e d assms(1) mb.retrieveAll [OF d(2)]
    by (auto simp: parse_message_frame_def fresh_session_def idle_session_def Let_def)
qed

section \<open>Properties\<close>


definition demo_env :: environment where
  "demo_env = \<lparr>env_SHA1 = (\<lambda>x. take 20 x), env_time = 0, env_peerIp = str ''1.2.3.4''\<rparr>"

definition demo_headers :: "(bytes \<times> bytes) list" where
  "demo_headers = [(str ''Upgrade'', str ''websocket''), (str ''X-Forwarded-For'', str ''10.0.0.1, 8.8.8.8'')]"

definition demo_fresh :: "bytes \<Rightarrow> (Buffer, HttpContext) session" where
  "demo_fresh xs =
     \<lparr>ctx = \<lparr>wsStep = ReadFrameHeader, wsState = kClosed, wsEndian = LittleEndian,
        cheader = extended_header_zero,
        dataMessage = (Message_ctor TextMessage)\<lparr>messageBuffer := Some (Buffer_ctor 4)\<rparr>,
        controlMessage = (Message_ctor CloseMessage)\<lparr>messageBuffer := Some (Buffer_ctor 0)\<rparr>,
        httpContext = Some HttpContext_ctor, handler = True\<rparr>,
      inbuf = \<lparr>vec = replicate 8 0 @ xs, readerIndex = 8, writerIndex = 8 + length xs\<rparr>, calls = []\<rparr>"

lemma demo_fresh_ok: "fresh_session (demo_fresh xs)" "content (inbuf (demo_fresh xs)) = xs" "calls (demo_fresh xs) = []"
  by (simp_all add: demo_fresh_def fresh_session_def buffer_inv_def content_def kCheapPrepend_def msg_holds_def
      Message_ctor_def getMessageType_def Buffer_ctor_def)

lemma demo_headers_ok: "list_all header_ok demo_headers"
  by (simp add: demo_headers_def header_ok_def is_space_def str_def)




text \<open>
  C21.  One attempt only.  A handshake that was refused, also for want of more bytes, leaves a connection on which
  the next bytes, whatever they are, stop the process on line 1091: a client whose request
  arrives in two pieces stops the server.  So does a client that sends anything right
  behind its request, on line 3800.
\<close>

theorem second_attempt_aborts:
  assumes "fresh_session s"
  shows "(parse_message_frame Buffer_vtable HttpContext_vtable D E t (Some s) = Inr (n, Some s') \<and> n \<noteq> 0 \<and>
      buffer_inv b \<longrightarrow>
      parse_message_frame Buffer_vtable HttpContext_vtable D E t' (Some (s'\<lparr>inbuf := b\<rparr>)) =
        Inl (AssertFail Websocket_cc 1091)) \<and>
    (content (inbuf s) = request_bytes m path query v hs @ rest \<and> rest \<noteq> [] \<and>
      m \<noteq> kInvalid \<and> v \<noteq> kUnknown \<and> uri_ok path query \<and> list_all header_ok hs \<and>
      length (content (inbuf s)) \<le> 1024 \<longrightarrow>
      parse_message_frame Buffer_vtable HttpContext_vtable D E t (Some s) =
        Inl (AssertFail Websocket_cc 3800))"
proof (intro conjI impI; elim conjE)
  assume p: "parse_message_frame Buffer_vtable HttpContext_vtable D E t (Some s) = Inr (n, Some s')" "n \<noteq> 0"
  have "wsState (ctx s') = kClosed" "httpContext (ctx s') = None" "handler (ctx s')"
    using p hp.handshake_total [OF fresh_waiting [OF assms], of D E t] by auto
  then show "parse_message_frame Buffer_vtable HttpContext_vtable D E t' (Some (s'\<lparr>inbuf := b\<rparr>)) =
        Inl (AssertFail Websocket_cc 1091)"
    by (simp add: parse_message_frame_def do_handshake_def handshake_failed_def getHttpContext_def split: option.splits)
next
  assume a: "content (inbuf s) = request_bytes m path query v hs @ rest" "rest \<noteq> []"
      "m \<noteq> kInvalid" "v \<noteq> kUnknown" "uri_ok path query" "list_all header_ok hs"
      "length (content (inbuf s)) \<le> 1024"
  obtain s1 h where d: "do_handshake Buffer_vtable HttpContext_vtable E t s =
        handshake_done Buffer_vtable HttpContext_vtable E h s1"
      "buffer_inv (inbuf s1)" "content (inbuf s1) = rest"
    using handshake_request [OF assms a(1,3-7)] by blast
  then have "vreadableBytes Buffer_vtable (inbuf s1) \<noteq> 0" using mb.readable [OF d(2)] a(2) by simp
  with d(1) assms show "parse_message_frame Buffer_vtable HttpContext_vtable D E t (Some s) =
        Inl (AssertFail Websocket_cc 3800)"
    by (simp add: parse_message_frame_def handshake_done_def fresh_session_def Let_def require_def)
qed


lemma second_attempt_aborts_witness:
  "parse_message_frame Buffer_vtable HttpContext_vtable False demo_env 0
      (Some ((demo_fresh [71, 69])\<lparr>ctx := (ctx (demo_fresh [71, 69]))\<lparr>httpContext := None\<rparr>,
        inbuf := Buffer_ctor 4\<rparr>)) = Inl (AssertFail Websocket_cc 1091)"
proof -
  let ?s' = "(demo_fresh [71, 69])\<lparr>ctx := (ctx (demo_fresh [71, 69]))\<lparr>httpContext := None\<rparr>\<rparr>"
  have "parse_message_frame Buffer_vtable HttpContext_vtable False demo_env 0 (Some (demo_fresh [71, 69])) =
      Inr (0x66, Some ?s')"
    by (simp add: parse_message_frame_def do_handshake_def demo_fresh_def Buffer_vtable_def readableBytes_def
        handshake_failed_def getHttpContext_def)
  with second_attempt_aborts [OF demo_fresh_ok(1), where xs1 = "[71, 69]" and n = "0x66" and s' = ?s' and
      b = "Buffer_ctor 4" and D = False and E = demo_env and t = 0 and t' = 0] Buffer_ctor_ok(1) [of 4]
  show ?thesis by simp
qed

fun join_addresses :: "bytes list \<Rightarrow> bytes" where
  "join_addresses [] = []"
| "join_addresses [p] = p"
| "join_addresses (p # q # ps) = p @ [44, 32] @ join_addresses (q # ps)"

lemma split_comma_prefix:
  "44 \<notin> set p \<Longrightarrow> split_comma (p @ [44] @ xs) = p # split_comma xs" "44 \<notin> set p \<Longrightarrow> split_comma p = [p]"
  by (induction p) simp_all

lemma split_join:
  assumes "ps \<noteq> []" and "\<forall>p \<in> set ps. 44 \<notin> set p \<and> 32 \<notin> set p"
  shows "split_comma (filter (\<lambda>c. c \<noteq> 32) (join_addresses ps)) = ps"
proof -
  have f: "32 \<notin> set p \<Longrightarrow> filter (\<lambda>c. c \<noteq> 32) p = p" for p :: bytes by (induction p) auto
  from assms show ?thesis
    by (induction ps rule: join_addresses.induct) (simp_all add: f split_comma_prefix [simplified])
qed

lemma first_public_find:
  "first_public ps = (case find (\<lambda>s. s \<noteq> [] \<and> is_public s) ps of None \<Rightarrow> [] | Some s \<Rightarrow> s)"
  by (induction ps) auto



end
