(* ===== verification/WS_Logging.thy ===== *)
theory WS_Logging
  imports WS_Handshake
begin

text \<open>
  The log back end of \<^verbatim>\<open>base/\<close>: \<^verbatim>\<open>AppendFile\<close> (\<^verbatim>\<open>FileUtil.cc\<close>), \<^verbatim>\<open>LogFile\<close> with its rolling of files, and \<^verbatim>\<open>AsyncLogging\<close>, whose
  thread takes the filled buffers of all others and writes them.  The clock, the success of \<^verbatim>\<open>fopen\<close> and how much \<^verbatim>\<open>fwrite_unlocked\<close> accepts
  are arguments.  Times are unbounded integers of seconds.
\<close>

section \<open>Time stamps and file names\<close>

text \<open>\<^verbatim>\<open>printf\<close> with \<^verbatim>\<open>%0wd\<close>.\<close>

definition zero_padded :: "nat \<Rightarrow> int \<Rightarrow> bytes" where
  "zero_padded w n =
     (let sign = (if n < 0 then str ''-'' else []); digits = decimal (nat \<bar>n\<bar>)
      in sign @ replicate (w - length sign - length digits) 48 @ digits)"

definition blank_padded :: "nat \<Rightarrow> int \<Rightarrow> bytes" where
  "blank_padded w n = replicate (w - length (decimal_int n)) 32 @ decimal_int n"

definition Timestamp_toString :: "timestamp \<Rightarrow> bytes" where
  "Timestamp_toString us = decimal_int (us sdiv 1000000) @ str ''.'' @ zero_padded 6 (us smod 1000000)"

definition toFormattedString :: "bool \<Rightarrow> timestamp \<Rightarrow> bytes" where
  "toFormattedString showMicroseconds us =
     (let tm = gmtime (us sdiv 1000000);
          date = blank_padded 4 (tm_year tm + 1900) @ zero_padded 2 (tm_mon tm + 1) @ zero_padded 2 (tm_mday tm) @ str '' '' @
            zero_padded 2 (tm_hour tm) @ str '':'' @ zero_padded 2 (tm_min tm) @ str '':'' @ zero_padded 2 (tm_sec tm)
      in if showMicroseconds then date @ str ''.'' @ zero_padded 6 (us smod 1000000) else date)"

text \<open>\<open>host\<close> and \<open>pid\<close> are those of \<^verbatim>\<open>ProcessInfo\<close>.\<close>

definition getLogFileName :: "bytes \<Rightarrow> bytes \<Rightarrow> int \<Rightarrow> int \<Rightarrow> bytes" where
  "getLogFileName host basename pid now =
     (let tm = gmtime now;
          timebuf = str ''.'' @ decimal_int (tm_year tm + 1900) @ zero_padded 2 (tm_mon tm + 1) @ zero_padded 2 (tm_mday tm) @ str ''-'' @
            zero_padded 2 (tm_hour tm) @ zero_padded 2 (tm_min tm) @ zero_padded 2 (tm_sec tm) @ str ''.'';
          filename = basename @ timebuf @ host @ str ''.'' @ decimal_int pid @ str ''.log''
      in str ''./log/'' @ basename @ str ''/'' @ filename)"

section \<open>Files\<close>

text \<open>\<open>af_bytes\<close> is what stdio has accepted, \<open>af_flushed\<close> how much of it has left its buffer, \<open>af_time\<close> the second in which the file was opened.\<close>

record AppendFile =
  af_name :: bytes
  af_time :: int
  af_bytes :: bytes
  af_flushed :: nat
  af_written :: nat

text \<open>What the process meets during one \<^verbatim>\<open>append\<close>: the clock when the period is checked and when a file is named, whether the file opens, and the answers of \<^verbatim>\<open>fwrite_unlocked\<close>, which
  accepts everything once the list is used up.\<close>

record log_env =
  le_check :: int
  le_roll :: int
  le_opens :: bool
  le_writes :: "nat list"

fun append_loop :: "nat list \<Rightarrow> bytes \<Rightarrow> bytes" where
  "append_loop [] rest = rest"
| "append_loop (x # ws) rest = (if rest = [] \<or> x = 0 then [] else take x rest @ append_loop ws (drop x rest))"

definition AppendFile_append :: "nat list \<Rightarrow> bytes \<Rightarrow> AppendFile \<Rightarrow> AppendFile" where
  "AppendFile_append ws logline f =
     (let accepted = (case ws of [] \<Rightarrow> logline | n # ws' \<Rightarrow> take n logline @ append_loop ws' (drop n logline))
      in f\<lparr>af_bytes := af_bytes f @ accepted, af_written := af_written f + length logline\<rparr>)"

definition AppendFile_flush :: "AppendFile \<Rightarrow> AppendFile" where
  "AppendFile_flush f = f\<lparr>af_flushed := length (af_bytes f)\<rparr>"

definition AppendFile_ctor :: "bool \<Rightarrow> bytes \<Rightarrow> int \<Rightarrow> AppendFile res" where
  "AppendFile_ctor opens filename now =
     require FileUtil_cc 22 opens (Inr \<lparr>af_name = filename, af_time = now, af_bytes = [], af_flushed = 0, af_written = 0\<rparr>)"

section \<open>Log files\<close>

text \<open>\<open>lf_closed\<close> are the files closed so far; closing a file flushes it.\<close>

record LogFile =
  lf_host :: bytes
  lf_pid :: int
  lf_basename :: bytes
  lf_rollSize :: int
  lf_flushInterval :: int
  lf_checkEveryN :: int
  lf_count :: int
  lf_startOfPeriod :: int
  lf_lastRoll :: int
  lf_lastFlush :: int
  lf_file :: "AppendFile option"
  lf_closed :: "AppendFile list"

definition kRollPerSeconds :: int where
  "kRollPerSeconds = 60 * 60 * 24"

definition set_file :: "AppendFile \<Rightarrow> LogFile \<Rightarrow> LogFile" where
  "set_file f lf = lf\<lparr>lf_file := Some f\<rparr>"

definition rollFile :: "log_env \<Rightarrow> LogFile \<Rightarrow> LogFile res" where
  "rollFile env lf =
     (let now = le_roll env;
          filename = getLogFileName (lf_host lf) (lf_basename lf) (lf_pid lf) now;
          start = now sdiv kRollPerSeconds * kRollPerSeconds
      in if lf_lastRoll lf < now
         then rbind (AppendFile_ctor (le_opens env) filename now) (\<lambda>f.
           Inr (lf\<lparr>lf_lastRoll := now, lf_lastFlush := now, lf_startOfPeriod := start,
             lf_closed := lf_closed lf @ (case lf_file lf of None \<Rightarrow> [] | Some g \<Rightarrow> [AppendFile_flush g]), lf_file := Some f\<rparr>))
         else Inr lf)"

definition LogFile_ctor :: "bytes \<Rightarrow> int \<Rightarrow> bytes \<Rightarrow> int \<Rightarrow> int \<Rightarrow> int \<Rightarrow> log_env \<Rightarrow> LogFile res" where
  "LogFile_ctor host pid basename rollSize flushInterval checkEveryN env =
     require LogFile_cc 32 (47 \<notin> set basename)
       (rollFile env \<lparr>lf_host = host, lf_pid = pid, lf_basename = basename, lf_rollSize = rollSize, lf_flushInterval = flushInterval,
          lf_checkEveryN = checkEveryN, lf_count = 0, lf_startOfPeriod = 0, lf_lastRoll = 0, lf_lastFlush = 0, lf_file = None, lf_closed = []\<rparr>)"

definition LogFile_flush :: "LogFile \<Rightarrow> LogFile res" where
  "LogFile_flush lf =
     (case lf_file lf of None \<Rightarrow> Inl (Undefined LogFile_cc 60) | Some f \<Rightarrow> Inr (set_file (AppendFile_flush f) lf))"

definition append_unlocked :: "log_env \<Rightarrow> bytes \<Rightarrow> LogFile \<Rightarrow> LogFile res" where
  "append_unlocked env logline lf =
     (case lf_file lf of
        None \<Rightarrow> Inl (Undefined LogFile_cc 66)
      | Some f0 \<Rightarrow>
          let f = AppendFile_append (le_writes env) logline f0; lf = set_file f lf
          in if lf_rollSize lf < int (af_written f) then rollFile env lf
             else let lf = lf\<lparr>lf_count := lf_count lf + 1\<rparr>
                  in if lf_checkEveryN lf \<le> lf_count lf
                     then let lf = lf\<lparr>lf_count := 0\<rparr>; now = le_check env; thisPeriod = now sdiv kRollPerSeconds * kRollPerSeconds
                          in if thisPeriod \<noteq> lf_startOfPeriod lf then rollFile env lf
                             else if lf_flushInterval lf < now - lf_lastFlush lf
                             then Inr (set_file (AppendFile_flush f) (lf\<lparr>lf_lastFlush := now\<rparr>))
                             else Inr lf
                     else Inr lf)"

text \<open>The lock, if there is one, makes an append one step.\<close>

definition LogFile_append :: "log_env \<Rightarrow> bytes \<Rightarrow> LogFile \<Rightarrow> LogFile res" where
  "LogFile_append env logline lf = append_unlocked env logline lf"

fun LogFile_appends :: "(log_env \<times> bytes) list \<Rightarrow> LogFile \<Rightarrow> LogFile res" where
  "LogFile_appends [] lf = Inr lf"
| "LogFile_appends ((env, logline) # ls) lf = rbind (LogFile_append env logline lf) (LogFile_appends ls)"

section \<open>What the files hold\<close>

definition log_files :: "LogFile \<Rightarrow> AppendFile list" where
  "log_files lf = lf_closed lf @ (case lf_file lf of None \<Rightarrow> [] | Some f \<Rightarrow> [f])"

definition log_bytes :: "LogFile \<Rightarrow> bytes" where
  "log_bytes lf = concat (map af_bytes (log_files lf))"

text \<open>What has also left the buffers of stdio.\<close>

definition log_flushed :: "LogFile \<Rightarrow> bytes" where
  "log_flushed lf = concat (map (\<lambda>f. take (af_flushed f) (af_bytes f)) (log_files lf))"

text \<open>Files in the order of their seconds, the last one that of the last roll; none holds more than was counted for it.\<close>

definition log_file_ok :: "LogFile \<Rightarrow> bool" where
  "log_file_ok lf \<longleftrightarrow> (\<exists>f. lf_file lf = Some f \<and> af_time f = lf_lastRoll lf) \<and> sorted_wrt (<) (map af_time (log_files lf)) \<and>
     (\<forall>f \<in> set (log_files lf). length (af_bytes f) \<le> af_written f) \<and> (\<forall>f \<in> set (lf_closed lf). af_flushed f = length (af_bytes f))"

lemma log_files_some: "lf_file lf = Some f \<Longrightarrow> log_files lf = lf_closed lf @ [f]"
  by (simp add: log_files_def)

lemma count_simps [simp]:
  "log_files (lf\<lparr>lf_count := n\<rparr>) = log_files lf" "log_file_ok (lf\<lparr>lf_count := n\<rparr>) = log_file_ok lf" "log_bytes (lf\<lparr>lf_count := n\<rparr>) = log_bytes lf"
  "log_files (lf\<lparr>lf_lastFlush := n\<rparr>) = log_files lf" "log_file_ok (lf\<lparr>lf_lastFlush := n\<rparr>) = log_file_ok lf" "log_bytes (lf\<lparr>lf_lastFlush := n\<rparr>) = log_bytes lf"
  by (simp_all add: log_file_ok_def log_files_def log_bytes_def)

lemma append_loop_length: "length (append_loop ws rest) \<le> length rest"
proof (induction ws rest rule: append_loop.induct)
  case (2 x ws rest)
  then show ?case by (cases "rest = [] \<or> x = 0") auto
qed simp

lemma append_written:
  "\<exists>s. af_bytes (AppendFile_append ws line f) = af_bytes f @ s \<and> length s \<le> length line \<and> (ws = [] \<longrightarrow> s = line)"
proof (cases ws)
  case (Cons n ws')
  then show ?thesis using append_loop_length [of ws' "drop n line"] by (auto simp: AppendFile_append_def)
qed (simp add: AppendFile_append_def)

lemma append_file_simps [simp]:
  "af_time (AppendFile_append ws line f) = af_time f" "af_written (AppendFile_append ws line f) = af_written f + length line"
  "af_flushed (AppendFile_append ws line f) = af_flushed f"
  "af_time (AppendFile_flush f) = af_time f" "af_bytes (AppendFile_flush f) = af_bytes f" "af_written (AppendFile_flush f) = af_written f"
  by (simp_all add: AppendFile_append_def AppendFile_flush_def Let_def)

lemma set_file_simps [simp]:
  "lf_file (set_file f lf) = Some f" "lf_closed (set_file f lf) = lf_closed lf" "lf_lastRoll (set_file f lf) = lf_lastRoll lf"
  "lf_rollSize (set_file f lf) = lf_rollSize lf"
  by (simp_all add: set_file_def)

lemma set_file_keeps:
  assumes "log_file_ok lf" "lf_file lf = Some f" "af_time g = af_time f" "af_bytes g = af_bytes f @ s" "length (af_bytes g) \<le> af_written g"
  shows "log_file_ok (set_file g lf) \<and> log_bytes (set_file g lf) = log_bytes lf @ s"
  using assms unfolding log_file_ok_def log_bytes_def by (auto simp: log_files_some [of lf f] log_files_some [of "set_file g lf" g])

lemma flush_keeps:
  assumes "log_file_ok lf" "lf_file lf = Some f"
  shows "log_file_ok (set_file (AppendFile_flush f) lf) \<and> log_bytes (set_file (AppendFile_flush f) lf) = log_bytes lf"
  using assms set_file_keeps [of lf f "AppendFile_flush f" "[]"] by (auto simp: log_file_ok_def log_files_some)

lemma LogFile_flush_keeps:
  assumes "log_file_ok lf"
  shows "\<exists>lf'. LogFile_flush lf = Inr lf' \<and> log_file_ok lf' \<and> log_bytes lf' = log_bytes lf \<and> log_flushed lf' = log_bytes lf"
proof -
  obtain f where f: "lf_file lf = Some f" using assms by (auto simp: log_file_ok_def)
  have "map (\<lambda>f. take (af_flushed f) (af_bytes f)) (lf_closed lf) = map af_bytes (lf_closed lf)"
    using assms by (auto simp: log_file_ok_def)
  then have "log_flushed (set_file (AppendFile_flush f) lf) = log_bytes lf"
    using f by (simp add: log_flushed_def log_bytes_def log_files_some [OF f] log_files_some [of _ "AppendFile_flush f"] AppendFile_flush_def del: map_eq_conv)
  then show ?thesis using flush_keeps [OF assms f] by (simp add: LogFile_flush_def f)
qed

lemma rollFile_keeps:
  assumes "log_file_ok lf" "le_opens env"
  shows "\<exists>lf'. rollFile env lf = Inr lf' \<and> log_file_ok lf' \<and> log_bytes lf' = log_bytes lf \<and> lf_rollSize lf' = lf_rollSize lf \<and>
    (lf_lastRoll lf < le_roll env \<longrightarrow> (\<exists>f. lf_file lf' = Some f \<and> af_written f = 0)) \<and> (\<not> lf_lastRoll lf < le_roll env \<longrightarrow> lf' = lf)"
  using assms
  by (auto simp: rollFile_def Let_def AppendFile_ctor_def log_file_ok_def log_files_def log_bytes_def sorted_wrt_append AppendFile_flush_def)

lemma append_keeps:
  assumes "log_file_ok lf" "le_opens env"
  shows "\<exists>lf' s. LogFile_append env line lf = Inr lf' \<and> log_file_ok lf' \<and> log_bytes lf' = log_bytes lf @ s \<and> length s \<le> length line \<and>
    (le_writes env = [] \<longrightarrow> s = line) \<and> lf_rollSize lf' = lf_rollSize lf \<and>
    (lf_lastRoll lf < le_roll env \<and> 0 \<le> lf_rollSize lf \<longrightarrow> (\<exists>f. lf_file lf' = Some f \<and> int (af_written f) \<le> lf_rollSize lf))"
proof -
  obtain f where f: "lf_file lf = Some f" using assms by (auto simp: log_file_ok_def)
  obtain s where s: "af_bytes (AppendFile_append (le_writes env) line f) = af_bytes f @ s" "length s \<le> length line" "le_writes env = [] \<longrightarrow> s = line"
    using append_written by blast
  let ?f = "AppendFile_append (le_writes env) line f"
  have ok: "log_file_ok (set_file ?f lf)" "log_bytes (set_file ?f lf) = log_bytes lf @ s"
    using set_file_keeps [OF assms(1) f, of ?f s] s assms(1) f by (simp_all add: log_file_ok_def log_files_some)
  let ?lf = "set_file ?f lf" and ?now = "le_check env"
  let ?lf2 = "?lf\<lparr>lf_count := 0\<rparr>"
  consider (size) "lf_rollSize lf < int (af_written ?f)"
    | (count) "int (af_written ?f) \<le> lf_rollSize lf" "\<not> lf_checkEveryN ?lf \<le> lf_count ?lf + 1"
    | (period) "int (af_written ?f) \<le> lf_rollSize lf" "lf_checkEveryN ?lf \<le> lf_count ?lf + 1" "?now sdiv kRollPerSeconds * kRollPerSeconds \<noteq> lf_startOfPeriod ?lf"
    | (flush) "int (af_written ?f) \<le> lf_rollSize lf" "lf_checkEveryN ?lf \<le> lf_count ?lf + 1" "?now sdiv kRollPerSeconds * kRollPerSeconds = lf_startOfPeriod ?lf"
    by linarith
  then show ?thesis
  proof cases
    case size
    then have "LogFile_append env line lf = rollFile env ?lf" by (simp add: LogFile_append_def append_unlocked_def f Let_def)
    then show ?thesis using rollFile_keeps [OF ok(1) assms(2)] ok(2) s by auto
  next
    case count
    then have "LogFile_append env line lf = Inr (?lf\<lparr>lf_count := lf_count ?lf + 1\<rparr>)" by (simp add: LogFile_append_def append_unlocked_def f Let_def)
    then show ?thesis using ok s count by auto
  next
    case period
    then have "LogFile_append env line lf = rollFile env ?lf2" by (simp add: LogFile_append_def append_unlocked_def f Let_def)
    then show ?thesis using rollFile_keeps [of ?lf2 env] ok assms(2) s period by auto
  next
    case flush
    then have "LogFile_append env line lf =
        Inr (if lf_flushInterval ?lf < ?now - lf_lastFlush ?lf then set_file (AppendFile_flush ?f) (?lf2\<lparr>lf_lastFlush := ?now\<rparr>) else ?lf2)"
      by (simp add: LogFile_append_def append_unlocked_def f Let_def)
    then show ?thesis using flush_keeps [of "?lf2\<lparr>lf_lastFlush := ?now\<rparr>" ?f] ok s flush by auto
  qed
qed

lemma appends_keep:
  assumes "log_file_ok lf" "\<forall>(env, line) \<in> set ls. le_opens env"
  shows "\<exists>lf' s. LogFile_appends ls lf = Inr lf' \<and> log_file_ok lf' \<and> log_bytes lf' = log_bytes lf @ s \<and> length s \<le> length (concat (map snd ls)) \<and>
    ((\<forall>(env, line) \<in> set ls. le_writes env = []) \<longrightarrow> s = concat (map snd ls)) \<and> lf_rollSize lf' = lf_rollSize lf"
  using assms
proof (induction ls arbitrary: lf)
  case (Cons a ls)
  obtain env line where a: "a = (env, line)" by fastforce
  then have "le_opens env" using Cons.prems by simp
  then obtain lf1 s1 where 1: "LogFile_append env line lf = Inr lf1" "log_file_ok lf1" "log_bytes lf1 = log_bytes lf @ s1" "length s1 \<le> length line"
      "le_writes env = [] \<longrightarrow> s1 = line" "lf_rollSize lf1 = lf_rollSize lf"
    using append_keeps [OF Cons.prems(1)] by blast
  obtain lf2 s2 where 2: "LogFile_appends ls lf1 = Inr lf2" "log_file_ok lf2" "log_bytes lf2 = log_bytes lf1 @ s2" "length s2 \<le> length (concat (map snd ls))"
      "(\<forall>(env, line) \<in> set ls. le_writes env = []) \<longrightarrow> s2 = concat (map snd ls)" "lf_rollSize lf2 = lf_rollSize lf1"
    using Cons.IH [OF 1(2)] Cons.prems(2) by (meson list.set_intros(2))
  show ?case using 1 2 a by (intro exI [of _ lf2] exI [of _ "s1 @ s2"]) auto
qed simp

lemma LogFile_ctor_ok:
  assumes "47 \<notin> set basename" "0 < le_roll env" "le_opens env"
  shows "\<exists>lf. LogFile_ctor host pid basename rollSize flushInterval n env = Inr lf \<and> log_file_ok lf \<and> log_bytes lf = [] \<and> lf_rollSize lf = rollSize"
  using assms by (simp add: LogFile_ctor_def rollFile_def Let_def AppendFile_ctor_def log_file_ok_def log_files_def log_bytes_def)

section \<open>Asynchronous logging\<close>

text \<open>
  The logging thread is about to test \<^verbatim>\<open>running_\<close>, to enter (or leave) the wait and swap the buffers, or to write those it took; or it has returned.
  \<open>al_accepted\<close> is the history of the lines that fit into a buffer at all and \<open>al_dropped\<close> counts the buffers thrown away.
\<close>

datatype logger_place = Testing | Swapping | Writing | LoggerGone

record AsyncLogging =
  al_size :: nat
  al_running :: bool
  al_current :: FixedBuffer
  al_next :: "FixedBuffer option"
  al_buffers :: "FixedBuffer list"
  al_place :: logger_place
  al_new1 :: "FixedBuffer option"
  al_new2 :: "FixedBuffer option"
  al_toWrite :: "FixedBuffer list"
  al_output :: LogFile
  al_accepted :: "bytes list"
  al_dropped :: nat

text \<open>\<open>n\<close> is the size of a buffer, \<open>kLargeBuffer\<close> in the program.  The defaults of \<^verbatim>\<open>LogFile\<close> are a flush every 3 seconds and a check every 1024 appends.\<close>

definition AsyncLogging_start :: "nat \<Rightarrow> bytes \<Rightarrow> int \<Rightarrow> bytes \<Rightarrow> int \<Rightarrow> log_env \<Rightarrow> AsyncLogging res" where
  "AsyncLogging_start n host pid basename rollSize env =
     rmap (\<lambda>output. \<lparr>al_size = n, al_running = True, al_current = FixedBuffer_ctor n, al_next = Some (FixedBuffer_ctor n), al_buffers = [],
         al_place = Testing, al_new1 = Some (FixedBuffer_ctor n), al_new2 = Some (FixedBuffer_ctor n), al_toWrite = [],
         al_output = output, al_accepted = [], al_dropped = 0\<rparr>)
       (LogFile_ctor host pid basename rollSize 3 1024 env)"

definition AsyncLogging_append :: "bytes \<Rightarrow> AsyncLogging \<Rightarrow> AsyncLogging" where
  "AsyncLogging_append logline l =
     (let l = l\<lparr>al_accepted := al_accepted l @ (if length logline < al_size l then [logline] else [])\<rparr>
      in if length logline < avail (al_current l)
         then l\<lparr>al_current := FixedBuffer_append (al_current l) logline\<rparr>
         else let fresh = (case al_next l of Some b \<Rightarrow> b | None \<Rightarrow> FixedBuffer_ctor (al_size l))
              in l\<lparr>al_buffers := al_buffers l @ [al_current l], al_next := None, al_current := FixedBuffer_append fresh logline\<rparr>)"

definition AsyncLogging_stop :: "AsyncLogging \<Rightarrow> AsyncLogging" where
  "AsyncLogging_stop l = l\<lparr>al_running := False\<rparr>"

definition logger_test :: "AsyncLogging \<Rightarrow> AsyncLogging res" where
  "logger_test l =
     (if al_running l
      then require AsyncLogging_cc 71 (case al_new1 l of None \<Rightarrow> False | Some b \<Rightarrow> fb_data b = [])
        (require AsyncLogging_cc 72 (case al_new2 l of None \<Rightarrow> False | Some b \<Rightarrow> fb_data b = [])
          (require AsyncLogging_cc 73 (al_toWrite l = []) (Inr (l\<lparr>al_place := Swapping\<rparr>))))
      else rbind (LogFile_flush (al_output l)) (\<lambda>out. Inr (l\<lparr>al_output := out, al_place := LoggerGone\<rparr>)))"

definition logger_swap :: "AsyncLogging \<Rightarrow> AsyncLogging res" where
  "logger_swap l =
     (case al_new1 l of
        None \<Rightarrow> Inl (Undefined AsyncLogging_cc 82)
      | Some b \<Rightarrow>
          let l = l\<lparr>al_toWrite := al_buffers l @ [al_current l], al_buffers := al_toWrite l, al_current := b, al_new1 := None, al_place := Writing\<rparr>
          in Inr (if al_next l = None then l\<lparr>al_next := al_new2 l, al_new2 := None\<rparr> else l))"

definition drop_message :: "timestamp \<Rightarrow> nat \<Rightarrow> bytes" where
  "drop_message now n = str ''Dropped log messages at '' @ toFormattedString True now @ str '', '' @ decimal (n - 2) @ str '' larger buffers'' @ [10]"

fun output_all :: "(nat \<Rightarrow> log_env) \<Rightarrow> nat \<Rightarrow> bytes list \<Rightarrow> LogFile \<Rightarrow> LogFile res" where
  "output_all env i [] out = Inr out"
| "output_all env i (r # rs) out = rbind (LogFile_append (env i) r out) (output_all env (Suc i) rs)"

definition refill :: "nat \<Rightarrow> FixedBuffer option \<Rightarrow> FixedBuffer list \<Rightarrow> (FixedBuffer option \<times> FixedBuffer list) res" where
  "refill line b bs =
     (case b of
        Some x \<Rightarrow> Inr (b, bs)
      | None \<Rightarrow> require AsyncLogging_cc line (bs \<noteq> []) (Inr (Some (FixedBuffer_reset (last bs)), butlast bs)))"

text \<open>The unlocked part of a round; \<open>now\<close> is the clock read for the message, \<open>env i\<close> what the \<open>i\<close>-th append meets.\<close>

definition logger_write :: "(nat \<Rightarrow> log_env) \<Rightarrow> timestamp \<Rightarrow> AsyncLogging \<Rightarrow> AsyncLogging res" where
  "logger_write env now l =
     require AsyncLogging_cc 90 (al_toWrite l \<noteq> [])
       (let n = length (al_toWrite l); many = 25 < n;
            kept = (if many then take 2 (al_toWrite l) else al_toWrite l);
            records = (if many then [drop_message now n] else []) @ map fb_data kept
        in rbind (output_all env 0 records (al_output l)) (\<lambda>out.
           rbind (refill 117 (al_new1 l) (take 2 kept)) (\<lambda>(new1, rest).
           rbind (refill 125 (al_new2 l) rest) (\<lambda>(new2, rest2).
           rbind (LogFile_flush out) (\<lambda>out2.
           Inr (l\<lparr>al_output := out2, al_new1 := new1, al_new2 := new2, al_toWrite := [], al_place := Testing,
                  al_dropped := al_dropped l + (n - length kept)\<rparr>))))))"

definition logger_round :: "(nat \<Rightarrow> log_env) \<Rightarrow> timestamp \<Rightarrow> AsyncLogging \<Rightarrow> AsyncLogging res" where
  "logger_round env now l = rbind (logger_test l) (\<lambda>l. rbind (logger_swap l) (logger_write env now))"

text \<open>A disk that opens every file and accepts every byte.\<close>

definition healthy :: "(nat \<Rightarrow> log_env) \<Rightarrow> bool" where
  "healthy env \<longleftrightarrow> (\<forall>i. le_opens (env i) \<and> le_writes (env i) = [])"

inductive log_step :: "AsyncLogging \<Rightarrow> AsyncLogging \<Rightarrow> bool" where
  appends: "log_step l (AsyncLogging_append logline l)"
| stops: "log_step l (AsyncLogging_stop l)"
| tests: "al_place l = Testing \<Longrightarrow> logger_test l = Inr l' \<Longrightarrow> log_step l l'"
| swaps: "al_place l = Swapping \<Longrightarrow> logger_swap l = Inr l' \<Longrightarrow> log_step l l'"
| writes: "al_place l = Writing \<Longrightarrow> healthy env \<Longrightarrow> logger_write env now l = Inr l' \<Longrightarrow> log_step l l'"

abbreviation log_steps :: "AsyncLogging \<Rightarrow> AsyncLogging \<Rightarrow> bool" where
  "log_steps \<equiv> log_step\<^sup>*\<^sup>*"

section \<open>No line is lost while the thread runs\<close>

abbreviation data_of :: "FixedBuffer list \<Rightarrow> bytes" where
  "data_of bs \<equiv> concat (map fb_data bs)"

definition unwritten :: "AsyncLogging \<Rightarrow> bytes" where
  "unwritten l = data_of (al_toWrite l) @ data_of (al_buffers l) @ fb_data (al_current l)"

text \<open>Which buffers the thread holds, place by place: there is always a spare one to take, and two to take back when it has given two away.\<close>

definition buffers_ok :: "AsyncLogging \<Rightarrow> bool" where
  "buffers_ok l \<longleftrightarrow> (let fresh = FixedBuffer_ctor (al_size l) in
     (\<forall>b \<in> set (al_current l # al_buffers l @ al_toWrite l). fb_size b = al_size l) \<and>
     (al_next l = None \<and> al_buffers l \<noteq> [] \<or> al_next l = Some fresh) \<and>
     (case al_place l of
        Writing \<Rightarrow> al_new1 l = None \<and> al_toWrite l \<noteq> [] \<and> (al_new2 l = None \<and> 2 \<le> length (al_toWrite l) \<or> al_new2 l = Some fresh)
      | _ \<Rightarrow> al_new1 l = Some fresh \<and> al_new2 l = Some fresh \<and> al_toWrite l = []))"

definition logging_ok :: "AsyncLogging \<Rightarrow> bool" where
  "logging_ok l \<longleftrightarrow> buffers_ok l \<and> log_file_ok (al_output l) \<and>
     (al_dropped l = 0 \<longrightarrow> concat (al_accepted l) = log_bytes (al_output l) @ unwritten l)"

lemma reset_fresh: "fb_size b = n \<Longrightarrow> FixedBuffer_reset b = FixedBuffer_ctor n"
  by (simp add: FixedBuffer_reset_def FixedBuffer_ctor_def)

lemma fresh_simps [simp]: "fb_data (FixedBuffer_ctor n) = []" "fb_size (FixedBuffer_ctor n) = n" "avail (FixedBuffer_ctor n) = n"
  by (simp_all add: FixedBuffer_ctor_def avail_def)

lemma append_fits:
  "fb_size (FixedBuffer_append b s) = fb_size b" "length s < avail b \<Longrightarrow> fb_data (FixedBuffer_append b s) = fb_data b @ s"
  "\<not> length s < avail b \<Longrightarrow> FixedBuffer_append b s = b"
  by (simp_all add: FixedBuffer_append_def)

lemma AsyncLogging_append_ok: "logging_ok l \<Longrightarrow> logging_ok (AsyncLogging_append line l)"
proof -
  assume ok: "logging_ok l"
  have avail: "avail (al_current l) \<le> al_size l" using ok by (simp add: logging_ok_def buffers_ok_def Let_def avail_def)
  have fresh: "(case al_next l of Some b \<Rightarrow> b | None \<Rightarrow> FixedBuffer_ctor (al_size l)) = FixedBuffer_ctor (al_size l)"
    using ok by (auto simp: logging_ok_def buffers_ok_def Let_def)
  show "logging_ok (AsyncLogging_append line l)"
  proof (cases "length line < avail (al_current l)")
    case True
    then show ?thesis using ok avail
      by (auto simp: logging_ok_def buffers_ok_def Let_def AsyncLogging_append_def unwritten_def append_fits split: logger_place.splits)
  next
    case False
    then show ?thesis using ok fresh append_fits(3) [of line "FixedBuffer_ctor (al_size l)"]
      by (cases "length line < al_size l")
        (auto simp: logging_ok_def buffers_ok_def Let_def AsyncLogging_append_def unwritten_def append_fits split: logger_place.splits)
  qed
qed

lemma logger_test_ok:
  assumes "logging_ok l" "al_place l = Testing"
  shows "\<exists>l'. logger_test l = Inr l' \<and> logging_ok l' \<and> al_accepted l' = al_accepted l \<and> al_place l' = (if al_running l then Swapping else LoggerGone) \<and>
    al_buffers l' = al_buffers l \<and> al_dropped l' = al_dropped l"
proof (cases "al_running l")
  case True
  then show ?thesis using assms by (simp add: logger_test_def logging_ok_def buffers_ok_def Let_def unwritten_def)
next
  case False
  obtain out where "LogFile_flush (al_output l) = Inr out" "log_file_ok out" "log_bytes out = log_bytes (al_output l)"
    using LogFile_flush_keeps assms by (auto simp: logging_ok_def)
  then show ?thesis using assms False by (simp add: logger_test_def logging_ok_def buffers_ok_def Let_def unwritten_def)
qed

lemma logger_swap_ok:
  assumes "logging_ok l" "al_place l = Swapping"
  shows "\<exists>l'. logger_swap l = Inr l' \<and> logging_ok l' \<and> al_accepted l' = al_accepted l \<and> al_place l' = Writing \<and>
    al_toWrite l' = al_buffers l @ [al_current l] \<and> al_buffers l' = [] \<and> fb_data (al_current l') = [] \<and> al_dropped l' = al_dropped l"
  using assms by (auto simp: logger_swap_def logging_ok_def buffers_ok_def Let_def unwritten_def Suc_le_eq)

lemma output_all_keeps:
  assumes "log_file_ok out" "healthy env"
  shows "\<exists>out'. output_all env i rs out = Inr out' \<and> log_file_ok out' \<and> log_bytes out' = log_bytes out @ concat rs"
  using assms(1)
proof (induction rs arbitrary: i out)
  case (Cons r rs)
  then obtain out1 where 1: "LogFile_append (env i) r out = Inr out1" "log_file_ok out1" "log_bytes out1 = log_bytes out @ r"
    using append_keeps [of out "env i" r] assms(2) by (auto simp: healthy_def)
  then show ?case using Cons.IH [OF 1(2), of "Suc i"] by auto
qed simp

lemma refill_ok:
  "b = None \<and> bs \<noteq> [] \<and> (\<forall>x \<in> set bs. fb_size x = n) \<or> b = Some (FixedBuffer_ctor n) \<Longrightarrow>
    refill line b bs = Inr (Some (FixedBuffer_ctor n), if b = None then butlast bs else bs)"
  by (auto simp: refill_def reset_fresh)

lemma logger_write_ok:
  assumes "logging_ok l" "al_place l = Writing" "healthy env"
  shows "\<exists>l'. logger_write env now l = Inr l' \<and> logging_ok l' \<and> al_accepted l' = al_accepted l \<and> al_place l' = Testing \<and>
    (length (al_toWrite l) \<le> 25 \<longrightarrow> al_dropped l' = al_dropped l \<and> log_flushed (al_output l') = log_bytes (al_output l) @ data_of (al_toWrite l)) \<and>
    al_toWrite l' = [] \<and> al_buffers l' = al_buffers l \<and> al_current l' = al_current l \<and> log_flushed (al_output l') = log_bytes (al_output l')"
proof -
  let ?fresh = "FixedBuffer_ctor (al_size l)"
  define kept where "kept = (if 25 < length (al_toWrite l) then take 2 (al_toWrite l) else al_toWrite l)"
  define rs where "rs = (if 25 < length (al_toWrite l) then [drop_message now (length (al_toWrite l))] else []) @ map fb_data kept"
  have b: "\<forall>x \<in> set (al_toWrite l). fb_size x = al_size l" "al_new1 l = None" "al_toWrite l \<noteq> []"
      "al_new2 l = None \<and> 2 \<le> length (al_toWrite l) \<or> al_new2 l = Some ?fresh"
    using assms(1,2) by (auto simp: logging_ok_def buffers_ok_def Let_def)
  have k: "\<forall>x \<in> set (take 2 kept). fb_size x = al_size l" "take 2 kept \<noteq> []" "al_new2 l = None \<longrightarrow> butlast (take 2 kept) \<noteq> []"
    using b by (auto simp: kept_def dest!: in_set_takeD in_set_butlastD) (auto simp: butlast_take numeral_2_eq_2)
  obtain out where out: "output_all env 0 rs (al_output l) = Inr out" "log_file_ok out" "log_bytes out = log_bytes (al_output l) @ concat rs"
    using output_all_keeps [OF _ assms(3), of "al_output l"] assms(1) by (auto simp: logging_ok_def)
  obtain out2 where out2: "LogFile_flush out = Inr out2" "log_file_ok out2" "log_bytes out2 = log_bytes out" "log_flushed out2 = log_bytes out"
    using LogFile_flush_keeps [OF out(2)] by blast
  have r1: "refill 117 (al_new1 l) (take 2 kept) = Inr (Some ?fresh, butlast (take 2 kept))"
    using refill_ok [of "al_new1 l" "take 2 kept" "al_size l" 117] b(2) k(1,2) by simp
  obtain rest2 where r2: "refill 125 (al_new2 l) (butlast (take 2 kept)) = Inr (Some ?fresh, rest2)"
    using refill_ok [of "al_new2 l" "butlast (take 2 kept)" "al_size l" 125] b(4) k by (auto dest: in_set_butlastD)
  define l' where "l' = l\<lparr>al_output := out2, al_new1 := Some ?fresh, al_new2 := Some ?fresh, al_toWrite := [], al_place := Testing,
      al_dropped := al_dropped l + (length (al_toWrite l) - length kept)\<rparr>"
  have "logger_write env now l = Inr l'"
    using b(3) out(1) out2(1) r1 r2 by (simp add: logger_write_def Let_def kept_def rs_def l'_def)
  moreover have "logging_ok l'"
    using assms(1,2) out out2 by (auto simp: logging_ok_def buffers_ok_def Let_def unwritten_def l'_def kept_def rs_def)
  ultimately show ?thesis using out out2 by (simp add: l'_def kept_def rs_def)
qed

lemma log_step_ok: "log_step l l' \<Longrightarrow> logging_ok l \<Longrightarrow> logging_ok l'"
proof (induction rule: log_step.induct)
  case (stops l)
  then show ?case by (simp add: AsyncLogging_stop_def logging_ok_def buffers_ok_def Let_def unwritten_def split: logger_place.splits)
next
  case (appends l line)
  then show ?case by (rule AsyncLogging_append_ok)
next
  case (tests l l')
  then show ?case using logger_test_ok [of l] by auto
next
  case (swaps l l')
  then show ?case using logger_swap_ok [of l] by auto
next
  case (writes l env now l')
  then show ?case using logger_write_ok [of l env now] by auto
qed

lemma log_steps_ok: "log_steps l l' \<Longrightarrow> logging_ok l \<Longrightarrow> logging_ok l'"
  by (induction rule: rtranclp_induct) (auto intro: log_step_ok)

lemma start_logging_ok:
  assumes "47 \<notin> set basename" "0 < le_roll env" "le_opens env"
  shows "\<exists>l. AsyncLogging_start n host pid basename rollSize env = Inr l \<and> logging_ok l"
proof -
  obtain out where "LogFile_ctor host pid basename rollSize 3 1024 env = Inr out" "log_file_ok out" "log_bytes out = []"
    using LogFile_ctor_ok [OF assms] by blast
  then show ?thesis by (simp add: AsyncLogging_start_def logging_ok_def buffers_ok_def unwritten_def)
qed

lemma gone_step: "log_step l l' \<Longrightarrow> al_place l = LoggerGone \<Longrightarrow> al_place l' = LoggerGone \<and> al_output l' = al_output l"
  by (induction rule: log_step.induct) (auto simp: AsyncLogging_append_def AsyncLogging_stop_def Let_def)

lemma gone_steps: "log_steps l l' \<Longrightarrow> al_place l = LoggerGone \<Longrightarrow> al_place l' = LoggerGone \<and> al_output l' = al_output l"
  by (induction rule: rtranclp_induct) (auto dest: gone_step)

lemma logger_round_ok:
  assumes "logging_ok l" "al_place l = Testing" "al_running l" "healthy env" "length (al_buffers l) < 25" "al_dropped l = 0"
  shows "\<exists>l'. logger_round env now l = Inr l' \<and> log_steps l l' \<and> log_flushed (al_output l') = concat (al_accepted l) \<and> al_place l' = Testing"
proof -
  obtain l1 where 1: "logger_test l = Inr l1" "logging_ok l1" "al_accepted l1 = al_accepted l" "al_place l1 = Swapping" "al_buffers l1 = al_buffers l" "al_dropped l1 = 0"
    using logger_test_ok [OF assms(1,2)] assms(3,6) by auto
  obtain l2 where 2: "logger_swap l1 = Inr l2" "logging_ok l2" "al_accepted l2 = al_accepted l" "al_place l2 = Writing"
      "al_toWrite l2 = al_buffers l @ [al_current l1]" "al_buffers l2 = []" "fb_data (al_current l2) = []" "al_dropped l2 = 0"
    using logger_swap_ok [OF 1(2,4)] 1 by auto
  obtain l3 where 3: "logger_write env now l2 = Inr l3" "al_place l3 = Testing" "log_flushed (al_output l3) = log_bytes (al_output l2) @ data_of (al_toWrite l2)"
    using logger_write_ok [OF 2(2,4) assms(4), of now] 2(5) assms(5) by auto
  have "log_step l l1" "log_step l1 l2" "log_step l2 l3"
    using log_step.tests [OF assms(2) 1(1)] log_step.swaps [OF 1(4) 2(1)] log_step.writes [OF 2(4) assms(4) 3(1)] .
  then have "log_steps l l3" by auto
  moreover have "log_bytes (al_output l2) @ data_of (al_toWrite l2) = concat (al_accepted l)"
    using 2 by (simp add: logging_ok_def unwritten_def)
  ultimately show ?thesis using 1(1) 2(1) 3 by (simp add: logger_round_def)
qed

lemma logging_progress:
  assumes "logging_ok l" "healthy env"
  shows "(al_place l = Testing \<longrightarrow> (\<exists>l'. logger_test l = Inr l')) \<and>
    (al_place l = Swapping \<longrightarrow> (\<exists>l'. logger_swap l = Inr l')) \<and>
    (al_place l = Writing \<longrightarrow> (\<exists>l'. logger_write env now l = Inr l')) \<and>
    (al_dropped l = 0 \<longrightarrow> concat (al_accepted l) = log_bytes (al_output l) @ unwritten l) \<and>
    (al_place l = Testing \<and> al_running l \<and> al_dropped l = 0 \<and> length (al_buffers l) < 25 \<longrightarrow>
       (\<exists>l'. logger_round env now l = Inr l' \<and> log_steps l l' \<and> log_flushed (al_output l') = concat (al_accepted l))) \<and>
    (al_place l = LoggerGone \<longrightarrow> (\<forall>l'. log_steps l l' \<longrightarrow> al_output l' = al_output l))"
proof (intro conjI impI allI)
  show "\<exists>l'. logger_test l = Inr l'" if "al_place l = Testing" using logger_test_ok [OF assms(1) that] by auto
  show "\<exists>l'. logger_swap l = Inr l'" if "al_place l = Swapping" using logger_swap_ok [OF assms(1) that] by auto
  show "\<exists>l'. logger_write env now l = Inr l'" if "al_place l = Writing" using logger_write_ok [OF assms(1) that assms(2), of now] by auto
  show "concat (al_accepted l) = log_bytes (al_output l) @ unwritten l" if "al_dropped l = 0" using assms(1) that by (simp add: logging_ok_def)
  show "\<exists>l'. logger_round env now l = Inr l' \<and> log_steps l l' \<and> log_flushed (al_output l') = concat (al_accepted l)"
    if "al_place l = Testing \<and> al_running l \<and> al_dropped l = 0 \<and> length (al_buffers l) < 25"
    using logger_round_ok [OF assms(1) _ _ assms(2), of now] that by auto
  show "al_output l' = al_output l" if "al_place l = LoggerGone" "log_steps l l'" for l' using gone_steps [OF that(2,1)] by simp
qed

section \<open>Properties\<close>

text \<open>
  C38.  \<^verbatim>\<open>AsyncLogging\<close> with any number of threads that log, on a disk that takes what it is given.  The logging starts, and in every reachable state
  the next step of the logging thread passes its assertions.  Unless more than 25 buffers pile up, all lines accepted so far are, in order and unbroken, what the files
  hold followed by what the buffers hold, and one round of the running thread brings all of them to the disk.  But once the thread has left its loop after \<^verbatim>\<open>stop\<close>
  nothing reaches the files any more, although the loop does not look at the buffers a last time.
\<close>

theorem async_logging_keeps_lines:
  assumes "47 \<notin> set basename" "0 < le_roll env0" "le_opens env0" "healthy env"
  shows "\<exists>l0. AsyncLogging_start n host pid basename rollSize env0 = Inr l0 \<and> (\<forall>l. log_steps l0 l \<longrightarrow>
    (al_place l = Testing \<longrightarrow> (\<exists>l'. logger_test l = Inr l')) \<and>
    (al_place l = Swapping \<longrightarrow> (\<exists>l'. logger_swap l = Inr l')) \<and>
    (al_place l = Writing \<longrightarrow> (\<exists>l'. logger_write env now l = Inr l')) \<and>
    (al_dropped l = 0 \<longrightarrow> concat (al_accepted l) = log_bytes (al_output l) @ unwritten l) \<and>
    (al_place l = Testing \<and> al_running l \<and> al_dropped l = 0 \<and> length (al_buffers l) < 25 \<longrightarrow>
       (\<exists>l'. logger_round env now l = Inr l' \<and> log_steps l l' \<and> log_flushed (al_output l') = concat (al_accepted l))) \<and>
    (al_place l = LoggerGone \<longrightarrow> (\<forall>l'. log_steps l l' \<longrightarrow> al_output l' = al_output l)))"
proof -
  obtain l0 where l0: "AsyncLogging_start n host pid basename rollSize env0 = Inr l0" "logging_ok l0"
    using start_logging_ok [OF assms(1-3)] by blast
  show ?thesis
    by (intro exI [of _ l0] conjI [OF l0(1)] allI impI) (rule logging_progress [OF log_steps_ok [OF _ l0(2)] assms(4)])
qed

definition demo_log_env :: log_env where
  "demo_log_env = \<lparr>le_check = 100000, le_roll = 100000, le_opens = True, le_writes = []\<rparr>"

text \<open>A line logged just before \<^verbatim>\<open>stop\<close> is accepted and never written.\<close>

lemma async_logging_keeps_lines_witness:
  "\<exists>l0 l. AsyncLogging_start 100 (str ''h'') 7 (str ''log'') 1000 demo_log_env = Inr l0 \<and> log_steps l0 l \<and>
     al_accepted l = [str ''bye''] \<and> (\<forall>l'. log_steps l l' \<longrightarrow> log_bytes (al_output l') = [])"
proof -
  have hyps: "47 \<notin> set (str ''log'')" "0 < le_roll demo_log_env" "le_opens demo_log_env" "healthy (\<lambda>i. demo_log_env)"
    by (simp_all add: healthy_def demo_log_env_def str_def)
  obtain l0 where l0: "AsyncLogging_start 100 (str ''h'') 7 (str ''log'') 1000 demo_log_env = Inr l0"
      and all: "\<forall>l. log_steps l0 l \<longrightarrow> (al_place l = Testing \<longrightarrow> (\<exists>l'. logger_test l = Inr l')) \<and>
        (al_place l = Swapping \<longrightarrow> (\<exists>l'. logger_swap l = Inr l')) \<and>
        (al_place l = Writing \<longrightarrow> (\<exists>l'. logger_write (\<lambda>i. demo_log_env) 0 l = Inr l')) \<and>
        (al_dropped l = 0 \<longrightarrow> concat (al_accepted l) = log_bytes (al_output l) @ unwritten l) \<and>
        (al_place l = Testing \<and> al_running l \<and> al_dropped l = 0 \<and> length (al_buffers l) < 25 \<longrightarrow>
          (\<exists>l'. logger_round (\<lambda>i. demo_log_env) 0 l = Inr l' \<and> log_steps l l' \<and> log_flushed (al_output l') = concat (al_accepted l))) \<and>
        (al_place l = LoggerGone \<longrightarrow> (\<forall>l'. log_steps l l' \<longrightarrow> al_output l' = al_output l))"
    using async_logging_keeps_lines [OF hyps, of 100 "str ''h''" 7 1000 0] by (elim exE conjE) (rule that)
  have s0: "al_place l0 = Testing" "al_size l0 = 100" "al_current l0 = FixedBuffer_ctor 100" "al_accepted l0 = []" "al_dropped l0 = 0"
      "al_buffers l0 = []" "al_toWrite l0 = []"
    using l0 by (auto simp: AsyncLogging_start_def rmap_def split: sum.splits)
  define l1 where "l1 = AsyncLogging_append (str ''bye'') l0"
  define l2 where "l2 = AsyncLogging_stop l1"
  have s2: "al_place l2 = Testing" "al_accepted l2 = [str ''bye'']" "al_dropped l2 = 0" "al_running l2 = False" "unwritten l2 = str ''bye''"
    using s0 by (simp_all add: l1_def l2_def AsyncLogging_append_def AsyncLogging_stop_def unwritten_def FixedBuffer_append_def str_def)
  have t2: "log_steps l0 l2"
    using log_step.appends [of l0 "str ''bye''"] log_step.stops [of l1] unfolding l1_def l2_def by (rule converse_rtranclp_into_rtranclp [OF _ r_into_rtranclp])
  then obtain l3 where l3: "logger_test l2 = Inr l3" using all [rule_format, THEN conjunct1] s2(1) by blast
  then have s3: "al_place l3 = LoggerGone" "al_accepted l3 = [str ''bye'']" "al_dropped l3 = 0" "unwritten l3 = str ''bye''"
    using s2 by (auto simp: logger_test_def unwritten_def rbind_def split: sum.splits)
  have t3: "log_steps l0 l3" using rtranclp.rtrancl_into_rtrancl [OF t2 log_step.tests [OF s2(1) l3]] .
  note now = all [THEN spec, THEN mp, OF t3]
  have "al_dropped l3 = 0 \<longrightarrow> concat (al_accepted l3) = log_bytes (al_output l3) @ unwritten l3" using now by (elim conjE)
  then have none: "log_bytes (al_output l3) = []" using s3 by simp
  have "al_place l3 = LoggerGone \<longrightarrow> (\<forall>l'. log_steps l3 l' \<longrightarrow> al_output l' = al_output l3)" using now by (elim conjE)
  then have "\<forall>l'. log_steps l3 l' \<longrightarrow> log_bytes (al_output l') = []" using s3(1) none by metis
  then show ?thesis using l0 t3 s3(2) by blast
qed

text \<open>
  C39.  \<^verbatim>\<open>LogFile\<close> over any sequence of appends, with any clock.  While files can be opened no append fails.  The files are named after strictly increasing seconds, so no file
  is opened twice; together they hold the records in order and unbroken if \<^verbatim>\<open>fwrite\<close> accepts everything, and never more bytes than were appended.  A next append that finds the clock past
  the second of the last roll leaves a current file within the roll size.  When the disk refuses to take anything, the record is lost, but counted as written.
\<close>

theorem log_files_in_order:
  assumes "47 \<notin> set basename" "0 < le_roll env0" "le_opens env0" "\<forall>(env, line) \<in> set ls. le_opens env" "0 \<le> rollSize"
  shows "\<exists>lf0 lf. LogFile_ctor host pid basename rollSize flushInterval n env0 = Inr lf0 \<and> LogFile_appends ls lf0 = Inr lf \<and>
    sorted_wrt (<) (map af_time (log_files lf)) \<and> length (log_bytes lf) \<le> length (concat (map snd ls)) \<and>
    ((\<forall>(env, line) \<in> set ls. le_writes env = []) \<longrightarrow> log_bytes lf = concat (map snd ls)) \<and>
    (\<forall>env line. le_opens env \<and> lf_lastRoll lf < le_roll env \<longrightarrow>
       (\<exists>lf' f. LogFile_append env line lf = Inr lf' \<and> lf_file lf' = Some f \<and> int (af_written f) \<le> rollSize)) \<and>
    (\<forall>line f. af_bytes (AppendFile_append [0, 0] line f) = af_bytes f \<and> af_written (AppendFile_append [0, 0] line f) = af_written f + length line)"
proof -
  obtain lf0 where 0: "LogFile_ctor host pid basename rollSize flushInterval n env0 = Inr lf0" "log_file_ok lf0" "log_bytes lf0 = []" "lf_rollSize lf0 = rollSize"
    using LogFile_ctor_ok [OF assms(1-3)] by blast
  obtain lf where 1: "LogFile_appends ls lf0 = Inr lf" "log_file_ok lf" "length (log_bytes lf) \<le> length (concat (map snd ls))"
      "(\<forall>(env, line) \<in> set ls. le_writes env = []) \<longrightarrow> log_bytes lf = concat (map snd ls)" "lf_rollSize lf = rollSize"
    using appends_keep [OF 0(2) assms(4)] 0(3,4) by auto
  have "\<exists>lf' f. LogFile_append env line lf = Inr lf' \<and> lf_file lf' = Some f \<and> int (af_written f) \<le> rollSize"
    if "le_opens env" "lf_lastRoll lf < le_roll env" for env line
    using append_keeps [OF 1(2) that(1), of line] that(2) 1(5) assms(5) by auto
  then show ?thesis using 0(1) 1 by (auto simp: log_file_ok_def AppendFile_append_def)
qed

lemma log_files_in_order_witness:
  "\<exists>lf0 lf. LogFile_ctor (str ''h'') 7 (str ''log'') 4 3 1024 demo_log_env = Inr lf0 \<and>
     LogFile_appends [(demo_log_env\<lparr>le_roll := 100001\<rparr>, str ''first''), (demo_log_env, str ''2nd'')] lf0 = Inr lf \<and>
     log_bytes lf = str ''first2nd'' \<and> length (log_files lf) = 2"
proof -
  let ?ls = "[(demo_log_env\<lparr>le_roll := 100001\<rparr>, str ''first''), (demo_log_env, str ''2nd'')]"
  obtain lf0 lf where l: "LogFile_ctor (str ''h'') 7 (str ''log'') 4 3 1024 demo_log_env = Inr lf0" "LogFile_appends ?ls lf0 = Inr lf"
      "log_bytes lf = concat (map snd ?ls)"
    using log_files_in_order [of "str ''log''" demo_log_env ?ls 4 "str ''h''" 7 3 1024] by (auto simp: demo_log_env_def str_def)
  then have "length (log_files lf) = 2"
    by (auto simp: LogFile_ctor_def rollFile_def AppendFile_ctor_def demo_log_env_def str_def LogFile_append_def append_unlocked_def Let_def
        AppendFile_append_def set_file_def log_files_def)
  then show ?thesis using l by (auto simp: str_def)
qed

end
