(* ===== verification/WS_Queue.thy ===== *)
theory WS_Queue
  imports WS_Prelude
begin

text \<open>
  Queues between threads: \<^verbatim>\<open>BlockingQueue\<close>, \<^verbatim>\<open>BoundedBlockingQueue\<close> and \<^verbatim>\<open>ThreadPool\<close> (\<^verbatim>\<open>base/\<close>).  A mutex makes the code between two waits
  one step, so a thread is at one of a few places: outside, about to enter with the lock, or waiting on a condition.  \<^verbatim>\<open>notify\<close> moves one
  waiting thread, any one, and a wait may also end by itself.
\<close>

section \<open>Counting threads\<close>

definition count :: "('a \<Rightarrow> bool) \<Rightarrow> 'a list \<Rightarrow> nat" where
  "count P xs = length (filter P xs)"

lemma count_update:
  assumes "i < length xs"
  shows "count P (xs[i := y]) + (if P (xs ! i) then 1 else 0) = count P xs + (if P y then 1 else 0)"
  using assms
proof (induction xs arbitrary: i)
  case (Cons x xs)
  then show ?case by (cases i) (auto simp: count_def)
qed simp

lemma count_pos: "0 < count P xs \<longleftrightarrow> (\<exists>x \<in> set xs. P x)"
  by (induction xs) (auto simp: count_def)

lemma count_nth: "i < length xs \<Longrightarrow> P (xs ! i) \<Longrightarrow> 0 < count P xs"
  unfolding count_pos by (meson nth_mem)

section \<open>Bounded queues\<close>

datatype 'a user = Outside | Putting 'a | PutWaits 'a | Taking | TakeWaits

text \<open>\<open>bq_max\<close> is the capacity, none for \<^verbatim>\<open>BlockingQueue\<close>; \<open>bq_put\<close> and \<open>bq_taken\<close> are the history.\<close>

record 'a bounded_queue =
  bq_items :: "'a list"
  bq_max :: "nat option"
  bq_threads :: "'a user list"
  bq_put :: "'a list"
  bq_taken :: "'a list"

definition bq_full :: "'a bounded_queue \<Rightarrow> bool" where
  "bq_full q \<longleftrightarrow> (case bq_max q of None \<Rightarrow> False | Some n \<Rightarrow> n \<le> length (bq_items q))"

definition set_thread :: "nat \<Rightarrow> 'a user \<Rightarrow> 'a bounded_queue \<Rightarrow> 'a bounded_queue" where
  "set_thread i s q = q\<lparr>bq_threads := (bq_threads q)[i := s]\<rparr>"

text \<open>The body of \<^verbatim>\<open>put\<close> and \<^verbatim>\<open>take\<close> from taking the lock to giving it back.  \<open>u\<close> is the thread that \<^verbatim>\<open>notify\<close> picks, if one waits.\<close>

definition notify_take :: "nat option \<Rightarrow> 'a bounded_queue \<Rightarrow> 'a bounded_queue" where
  "notify_take u q = (case u of None \<Rightarrow> q | Some i \<Rightarrow> set_thread i Taking q)"

definition notify_put :: "(nat \<times> 'a) option \<Rightarrow> 'a bounded_queue \<Rightarrow> 'a bounded_queue" where
  "notify_put u q = (case u of None \<Rightarrow> q | Some (i, x) \<Rightarrow> set_thread i (Putting x) q)"

definition bq_put_body :: "nat \<Rightarrow> 'a \<Rightarrow> nat option \<Rightarrow> 'a bounded_queue \<Rightarrow> 'a bounded_queue" where
  "bq_put_body i x u q =
     (if bq_full q then set_thread i (PutWaits x) q
      else notify_take u (set_thread i Outside (q\<lparr>bq_items := bq_items q @ [x], bq_put := bq_put q @ [x]\<rparr>)))"

definition bq_take_body :: "nat \<Rightarrow> (nat \<times> 'a) option \<Rightarrow> 'a bounded_queue \<Rightarrow> 'a bounded_queue" where
  "bq_take_body i u q =
     (case bq_items q of
        [] \<Rightarrow> set_thread i TakeWaits q
      | x # xs \<Rightarrow> notify_put u (set_thread i Outside (q\<lparr>bq_items := xs, bq_taken := bq_taken q @ [x]\<rparr>)))"

definition take_waiter :: "nat option \<Rightarrow> 'a user list \<Rightarrow> bool" where
  "take_waiter u ts \<longleftrightarrow> (case u of None \<Rightarrow> TakeWaits \<notin> set ts | Some i \<Rightarrow> i < length ts \<and> ts ! i = TakeWaits)"

definition put_waiter :: "(nat \<times> 'a) option \<Rightarrow> 'a user list \<Rightarrow> bool" where
  "put_waiter u ts \<longleftrightarrow> (case u of None \<Rightarrow> \<forall>x. PutWaits x \<notin> set ts | Some (i, x) \<Rightarrow> i < length ts \<and> ts ! i = PutWaits x)"

inductive bq_step :: "'a bounded_queue \<Rightarrow> 'a bounded_queue \<Rightarrow> bool" where
  call_put: "i < length (bq_threads q) \<Longrightarrow> bq_threads q ! i = Outside \<Longrightarrow> bq_step q (set_thread i (Putting x) q)"
| call_take: "i < length (bq_threads q) \<Longrightarrow> bq_threads q ! i = Outside \<Longrightarrow> bq_step q (set_thread i Taking q)"
| put_body: "i < length (bq_threads q) \<Longrightarrow> bq_threads q ! i = Putting x \<Longrightarrow> take_waiter u (bq_threads q) \<Longrightarrow> bq_step q (bq_put_body i x u q)"
| take_body: "i < length (bq_threads q) \<Longrightarrow> bq_threads q ! i = Taking \<Longrightarrow> put_waiter u (bq_threads q) \<Longrightarrow> bq_step q (bq_take_body i u q)"
| put_spurious: "i < length (bq_threads q) \<Longrightarrow> bq_threads q ! i = PutWaits x \<Longrightarrow> bq_step q (set_thread i (Putting x) q)"
| take_spurious: "i < length (bq_threads q) \<Longrightarrow> bq_threads q ! i = TakeWaits \<Longrightarrow> bq_step q (set_thread i Taking q)"

definition BoundedBlockingQueue_ctor :: "nat option \<Rightarrow> nat \<Rightarrow> 'a bounded_queue" where
  "BoundedBlockingQueue_ctor maxSize n =
     \<lparr>bq_items = [], bq_max = maxSize, bq_threads = replicate n Outside, bq_put = [], bq_taken = []\<rparr>"

section \<open>No wakeup is lost\<close>

abbreviation putting :: "'a user list \<Rightarrow> nat" where
  "putting ts \<equiv> count (\<lambda>t. \<exists>x. t = Putting x) ts"

abbreviation put_waits :: "'a user list \<Rightarrow> nat" where
  "put_waits ts \<equiv> count (\<lambda>t. \<exists>x. t = PutWaits x) ts"

text \<open>
  Who waits to take sees at least as many threads on their way to take as there are items; likewise for free places.
  The numbers are the capacity, the items, and the threads putting, waiting to put, waiting to take and taking.
\<close>

definition numbers_ok :: "nat option \<Rightarrow> nat \<Rightarrow> nat \<Rightarrow> nat \<Rightarrow> nat \<Rightarrow> nat \<Rightarrow> bool" where
  "numbers_ok m k p pw tw t \<longleftrightarrow>
     (case m of None \<Rightarrow> pw = 0 | Some n \<Rightarrow> k \<le> n \<and> (0 < pw \<longrightarrow> n \<le> k + p)) \<and> (0 < tw \<longrightarrow> k \<le> t)"

definition bq_ok :: "'a bounded_queue \<Rightarrow> bool" where
  "bq_ok q \<longleftrightarrow> bq_put q = bq_taken q @ bq_items q \<and>
     numbers_ok (bq_max q) (length (bq_items q)) (putting (bq_threads q)) (put_waits (bq_threads q))
       (count (\<lambda>t. t = TakeWaits) (bq_threads q)) (count (\<lambda>t. t = Taking) (bq_threads q))"

lemmas user_counts =
  count_update [of _ _ "\<lambda>t. \<exists>x. t = Putting x"] count_update [of _ _ "\<lambda>t. \<exists>x. t = PutWaits x"]
  count_update [of _ _ "\<lambda>t. t = TakeWaits"] count_update [of _ _ "\<lambda>t. t = Taking"]

lemma waiter_counts:
  "take_waiter None ts \<Longrightarrow> count (\<lambda>t. t = TakeWaits) ts = 0"
  "put_waiter None ts \<Longrightarrow> put_waits ts = 0"
  by (auto simp: take_waiter_def put_waiter_def count_def filter_empty_conv)


lemma set_thread_simps [simp]:
  "bq_items (set_thread i s q) = bq_items q" "bq_max (set_thread i s q) = bq_max q" "bq_put (set_thread i s q) = bq_put q"
  "bq_taken (set_thread i s q) = bq_taken q" "bq_threads (set_thread i s q) = (bq_threads q)[i := s]"
  by (simp_all add: set_thread_def)

lemma bq_step_ok:
  assumes "bq_step q q'" "bq_ok q"
  shows "bq_ok q'"
  using assms
proof (induction rule: bq_step.induct)
  case (call_put i q x)
  then show ?case using user_counts [OF call_put(1), of "Putting x"] by (auto simp: bq_ok_def numbers_ok_def split: option.splits)
next
  case (call_take i q)
  then show ?case using user_counts [OF call_take(1), of Taking] by (auto simp: bq_ok_def numbers_ok_def split: option.splits)
next
  case (put_spurious i q x)
  then show ?case using user_counts [OF put_spurious(1), of "Putting x"] by (auto simp: bq_ok_def numbers_ok_def split: option.splits)
next
  case (take_spurious i q)
  then show ?case using user_counts [OF take_spurious(1), of Taking] by (auto simp: bq_ok_def numbers_ok_def split: option.splits)
next
  case (put_body i q x u)
  show ?case
  proof (cases "bq_full q")
    case True
    then show ?thesis
      using put_body user_counts [OF put_body(1), of "PutWaits x"]
      by (auto simp: bq_ok_def numbers_ok_def bq_put_body_def bq_full_def split: option.splits)
  next
    case False
    let ?ts = "(bq_threads q)[i := Outside]"
    note n1 = user_counts [OF put_body(1), of Outside]
    show ?thesis
    proof (cases u)
      case None
      then show ?thesis
        using put_body False n1 waiter_counts(1) [of "bq_threads q"]
        by (auto simp: bq_ok_def numbers_ok_def bq_put_body_def bq_full_def notify_take_def split: option.splits)
    next
      case (Some j)
      then have j: "j < length ?ts" "?ts ! j = TakeWaits" using put_body(1-3) by (cases "i = j"; simp add: take_waiter_def)+
      then show ?thesis
        using put_body False n1 Some user_counts [OF j(1), of Taking]
        by (auto simp: bq_ok_def numbers_ok_def bq_put_body_def bq_full_def notify_take_def split: option.splits)
    qed
  qed
next
  case (take_body i q u)
  show ?case
  proof (cases "bq_items q")
    case Nil
    then show ?thesis
      using take_body user_counts [OF take_body(1), of TakeWaits]
      by (auto simp: bq_ok_def numbers_ok_def bq_take_body_def split: option.splits)
  next
    case (Cons x xs)
    let ?ts = "(bq_threads q)[i := Outside]"
    note n1 = user_counts [OF take_body(1), of Outside]
    show ?thesis
    proof (cases u)
      case None
      then show ?thesis
        using take_body Cons n1 waiter_counts(2) [of "bq_threads q"]
        by (auto simp: bq_ok_def numbers_ok_def bq_take_body_def notify_put_def split: option.splits)
    next
      case (Some jy)
      obtain j y where jy: "jy = (j, y)" by (cases jy)
      have j: "j < length ?ts" "?ts ! j = PutWaits y" using Some jy take_body(1-3) by (cases "i = j"; simp add: put_waiter_def)+
      then show ?thesis
        using take_body Cons n1 Some jy user_counts [OF j(1), of "Putting y"]
        by (auto simp: bq_ok_def numbers_ok_def bq_take_body_def notify_put_def split: option.splits)
    qed
  qed
qed


lemma bq_steps_ok: "bq_step\<^sup>*\<^sup>* q q' \<Longrightarrow> bq_ok q \<Longrightarrow> bq_ok q'"
  by (induction rule: rtranclp_induct) (auto intro: bq_step_ok)

lemma bq_step_max: "bq_step q q' \<Longrightarrow> bq_max q' = bq_max q"
  by (induction rule: bq_step.induct)
    (auto simp: bq_put_body_def bq_take_body_def notify_take_def notify_put_def split: option.splits list.splits)

lemma bq_steps_max: "bq_step\<^sup>*\<^sup>* q q' \<Longrightarrow> bq_max q' = bq_max q"
  by (induction rule: rtranclp_induct) (auto dest: bq_step_max)

lemma bq_ctor_ok: "bq_ok (BoundedBlockingQueue_ctor m n)"
proof -
  have "count P (replicate n Outside) = 0" if "\<not> P Outside" for P :: "'a user \<Rightarrow> bool" using that by (simp add: count_def)
  then show ?thesis by (simp add: bq_ok_def numbers_ok_def BoundedBlockingQueue_ctor_def split: option.splits)
qed

section \<open>Thread pools\<close>

text \<open>A worker is before the test of \<^verbatim>\<open>running_\<close>, in \<^verbatim>\<open>take\<close>, waiting there, running a task, or has returned; a producer is in \<^verbatim>\<open>run\<close>.
  A pool without workers runs a task in the caller.  Tasks here submit no tasks themselves and are never empty functions.\<close>

datatype 'a pool_thread = Worker | WorkerTakes | WorkerWaits | WorkerRuns 'a | WorkerGone | Producer | ProducerRuns 'a | ProducerWaits 'a

record 'a ThreadPool =
  tp_queue :: "'a list"
  tp_maxQueueSize :: nat
  tp_running :: bool
  tp_workers :: nat
  tp_threads :: "'a pool_thread list"
  tp_submitted :: "'a list"
  tp_started :: "'a list"
  tp_finished :: "'a list"

definition isFull :: "'a ThreadPool \<Rightarrow> bool" where
  "isFull p \<longleftrightarrow> 0 < tp_maxQueueSize p \<and> tp_maxQueueSize p \<le> length (tp_queue p)"

definition pool_thread_at :: "nat \<Rightarrow> 'a pool_thread \<Rightarrow> 'a ThreadPool \<Rightarrow> 'a ThreadPool" where
  "pool_thread_at i s p = p\<lparr>tp_threads := (tp_threads p)[i := s]\<rparr>"

definition pool_run_body :: "nat \<Rightarrow> 'a \<Rightarrow> nat option \<Rightarrow> 'a ThreadPool \<Rightarrow> 'a ThreadPool" where
  "pool_run_body i task u p =
     (if tp_workers p = 0
      then pool_thread_at i Producer
             (p\<lparr>tp_submitted := tp_submitted p @ [task], tp_started := tp_started p @ [task], tp_finished := tp_finished p @ [task]\<rparr>)
      else if isFull p then pool_thread_at i (ProducerWaits task) p
      else let p1 = pool_thread_at i Producer (p\<lparr>tp_queue := tp_queue p @ [task], tp_submitted := tp_submitted p @ [task]\<rparr>)
           in (case u of None \<Rightarrow> p1 | Some j \<Rightarrow> pool_thread_at j WorkerTakes p1))"

definition pool_take_body :: "nat \<Rightarrow> (nat \<times> 'a) option \<Rightarrow> 'a ThreadPool \<Rightarrow> 'a ThreadPool" where
  "pool_take_body i u p =
     (case tp_queue p of
        [] \<Rightarrow> if tp_running p then pool_thread_at i WorkerWaits p else pool_thread_at i Worker p
      | task # tasks \<Rightarrow>
          let p1 = pool_thread_at i (WorkerRuns task) (p\<lparr>tp_queue := tasks, tp_started := tp_started p @ [task]\<rparr>)
          in if 0 < tp_maxQueueSize p then (case u of None \<Rightarrow> p1 | Some (j, x) \<Rightarrow> pool_thread_at j (ProducerRuns x) p1) else p1)"

text \<open>\<^verbatim>\<open>stop\<close> up to the \<^verbatim>\<open>join\<close> of the workers: everybody who waits for a task is woken, but not who waits for a place.\<close>

definition ThreadPool_stop :: "'a ThreadPool \<Rightarrow> 'a ThreadPool" where
  "ThreadPool_stop p = p\<lparr>tp_running := False, tp_threads := map (\<lambda>t. if t = WorkerWaits then WorkerTakes else t) (tp_threads p)\<rparr>"

definition worker_waiter :: "nat option \<Rightarrow> 'a pool_thread list \<Rightarrow> bool" where
  "worker_waiter u ts \<longleftrightarrow> (case u of None \<Rightarrow> WorkerWaits \<notin> set ts | Some i \<Rightarrow> i < length ts \<and> ts ! i = WorkerWaits)"

definition producer_waiter :: "(nat \<times> 'a) option \<Rightarrow> 'a pool_thread list \<Rightarrow> bool" where
  "producer_waiter u ts \<longleftrightarrow> (case u of None \<Rightarrow> \<forall>x. ProducerWaits x \<notin> set ts | Some (i, x) \<Rightarrow> i < length ts \<and> ts ! i = ProducerWaits x)"

inductive pool_step :: "'a ThreadPool \<Rightarrow> 'a ThreadPool \<Rightarrow> bool" where
  worker_tests: "i < length (tp_threads p) \<Longrightarrow> tp_threads p ! i = Worker \<Longrightarrow>
    pool_step p (pool_thread_at i (if tp_running p then WorkerTakes else WorkerGone) p)"
| worker_takes: "i < length (tp_threads p) \<Longrightarrow> tp_threads p ! i = WorkerTakes \<Longrightarrow> producer_waiter u (tp_threads p) \<Longrightarrow>
    pool_step p (pool_take_body i u p)"
| worker_done: "i < length (tp_threads p) \<Longrightarrow> tp_threads p ! i = WorkerRuns task \<Longrightarrow>
    pool_step p (pool_thread_at i Worker (p\<lparr>tp_finished := tp_finished p @ [task]\<rparr>))"
| producer_calls: "i < length (tp_threads p) \<Longrightarrow> tp_threads p ! i = Producer \<Longrightarrow> pool_step p (pool_thread_at i (ProducerRuns task) p)"
| producer_runs: "i < length (tp_threads p) \<Longrightarrow> tp_threads p ! i = ProducerRuns task \<Longrightarrow> worker_waiter u (tp_threads p) \<Longrightarrow>
    pool_step p (pool_run_body i task u p)"
| worker_spurious: "i < length (tp_threads p) \<Longrightarrow> tp_threads p ! i = WorkerWaits \<Longrightarrow> pool_step p (pool_thread_at i WorkerTakes p)"
| producer_spurious: "i < length (tp_threads p) \<Longrightarrow> tp_threads p ! i = ProducerWaits task \<Longrightarrow> pool_step p (pool_thread_at i (ProducerRuns task) p)"
| stops: "pool_step p (ThreadPool_stop p)"

definition ThreadPool_start :: "nat \<Rightarrow> nat \<Rightarrow> nat \<Rightarrow> 'a ThreadPool" where
  "ThreadPool_start maxQueueSize numThreads producers =
     \<lparr>tp_queue = [], tp_maxQueueSize = maxQueueSize, tp_running = True, tp_workers = numThreads,
      tp_threads = replicate numThreads Worker @ replicate producers Producer,
      tp_submitted = [], tp_started = [], tp_finished = []\<rparr>"

abbreviation producing :: "'a pool_thread list \<Rightarrow> nat" where
  "producing ts \<equiv> count (\<lambda>t. \<exists>x. t = ProducerRuns x) ts"

abbreviation producers_wait :: "'a pool_thread list \<Rightarrow> nat" where
  "producers_wait ts \<equiv> count (\<lambda>t. \<exists>x. t = ProducerWaits x) ts"

text \<open>While the pool runs no wakeup is lost; afterwards no worker waits.  A capacity of 0 means no bound.\<close>

definition pool_numbers_ok :: "bool \<Rightarrow> nat \<Rightarrow> nat \<Rightarrow> nat \<Rightarrow> nat \<Rightarrow> nat \<Rightarrow> nat \<Rightarrow> bool" where
  "pool_numbers_ok r n k p pw tw t \<longleftrightarrow>
     (0 < n \<longrightarrow> k \<le> n) \<and> (0 < pw \<longrightarrow> 0 < n \<and> n \<le> k + p) \<and> (0 < tw \<longrightarrow> k \<le> t) \<and> (\<not> r \<longrightarrow> tw = 0)"

definition pool_ok :: "'a ThreadPool \<Rightarrow> bool" where
  "pool_ok p \<longleftrightarrow> tp_submitted p = tp_started p @ tp_queue p \<and>
     (tp_workers p = 0 \<longrightarrow> tp_queue p = [] \<and> producers_wait (tp_threads p) = 0) \<and>
     pool_numbers_ok (tp_running p) (tp_maxQueueSize p) (length (tp_queue p)) (producing (tp_threads p)) (producers_wait (tp_threads p))
       (count (\<lambda>t. t = WorkerWaits) (tp_threads p)) (count (\<lambda>t. t = WorkerTakes) (tp_threads p))"

lemma pool_at_simps [simp]:
  "tp_queue (pool_thread_at i s p) = tp_queue p" "tp_maxQueueSize (pool_thread_at i s p) = tp_maxQueueSize p"
  "tp_running (pool_thread_at i s p) = tp_running p" "tp_submitted (pool_thread_at i s p) = tp_submitted p" "tp_started (pool_thread_at i s p) = tp_started p"
  "tp_threads (pool_thread_at i s p) = (tp_threads p)[i := s]" "tp_workers (pool_thread_at i s p) = tp_workers p"
  by (simp_all add: pool_thread_at_def)

lemmas pool_counts =
  count_update [of _ _ "\<lambda>t. \<exists>x. t = ProducerRuns x"] count_update [of _ _ "\<lambda>t. \<exists>x. t = ProducerWaits x"]
  count_update [of _ _ "\<lambda>t. t = WorkerWaits"] count_update [of _ _ "\<lambda>t. t = WorkerTakes"]

lemma pool_waiter_counts:
  "worker_waiter None ts \<Longrightarrow> count (\<lambda>t. t = WorkerWaits) ts = 0" "producer_waiter None ts \<Longrightarrow> producers_wait ts = 0"
  by (auto simp: worker_waiter_def producer_waiter_def count_def filter_empty_conv)

lemma count_map: "(\<And>x. P (f x) \<longleftrightarrow> P x) \<Longrightarrow> count P (map f xs) = count P xs"
  by (induction xs) (auto simp: count_def)

lemma pool_step_ok:
  assumes "pool_step p p'" "pool_ok p"
  shows "pool_ok p'"
  using assms
proof (induction rule: pool_step.induct)
  case (worker_tests i p)
  show ?case
    using worker_tests pool_counts [OF worker_tests(1), of WorkerTakes] pool_counts [OF worker_tests(1), of WorkerGone]
    by (cases "tp_running p") (auto simp: pool_ok_def pool_numbers_ok_def)
next
  case (worker_done i p task)
  then show ?case using pool_counts [OF worker_done(1), of Worker]
    by (auto simp: pool_ok_def pool_numbers_ok_def)
next
  case (producer_calls i p task)
  then show ?case using pool_counts [OF producer_calls(1), of "ProducerRuns task"]
    by (auto simp: pool_ok_def pool_numbers_ok_def)
next
  case (worker_spurious i p)
  then show ?case using pool_counts [OF worker_spurious(1), of WorkerTakes]
    by (auto simp: pool_ok_def pool_numbers_ok_def)
next
  case (producer_spurious i p task)
  then show ?case using pool_counts [OF producer_spurious(1), of "ProducerRuns task"]
    by (auto simp: pool_ok_def pool_numbers_ok_def)
next
  case (stops p)
  let ?f = "\<lambda>t. if t = WorkerWaits then WorkerTakes else t"
  have "count (\<lambda>t. t = WorkerWaits) (map ?f (tp_threads p)) = 0" by (auto simp: count_def filter_empty_conv)
  moreover have "producing (map ?f (tp_threads p)) = producing (tp_threads p)" "producers_wait (map ?f (tp_threads p)) = producers_wait (tp_threads p)"
    by (rule count_map; auto)+
  ultimately show ?case using stops by (auto simp: pool_ok_def pool_numbers_ok_def ThreadPool_stop_def)
next
  case (producer_runs i p task u)
  consider (direct) "tp_workers p = 0" | (full) "0 < tp_workers p" "isFull p" | (room) "0 < tp_workers p" "\<not> isFull p" by blast
  then show ?case
  proof cases
    case direct
    then show ?thesis
      using producer_runs pool_counts [OF producer_runs(1), of Producer]
      by (auto simp: pool_ok_def pool_numbers_ok_def pool_run_body_def)
  next
    case full
    then show ?thesis
      using producer_runs pool_counts [OF producer_runs(1), of "ProducerWaits task"]
      by (auto simp: pool_ok_def pool_numbers_ok_def pool_run_body_def isFull_def)
  next
    case room
    let ?ts = "(tp_threads p)[i := Producer]"
    note n1 = pool_counts [OF producer_runs(1), of Producer]
    show ?thesis
    proof (cases u)
      case None
      then show ?thesis
        using producer_runs room n1 pool_waiter_counts(1) [of "tp_threads p"]
        by (auto simp: pool_ok_def pool_numbers_ok_def pool_run_body_def isFull_def)
    next
      case (Some j)
      then have j: "j < length ?ts" "?ts ! j = WorkerWaits" using producer_runs(1-3) by (cases "i = j"; simp add: worker_waiter_def)+
      then show ?thesis
        using producer_runs room n1 Some pool_counts [OF j(1), of WorkerTakes]
        by (auto simp: pool_ok_def pool_numbers_ok_def pool_run_body_def isFull_def Let_def)
    qed
  qed
next
  case (worker_takes i p u)
  show ?case
  proof (cases "tp_queue p")
    case Nil
    then show ?thesis
      using worker_takes pool_counts [OF worker_takes(1), of WorkerWaits] pool_counts [OF worker_takes(1), of Worker]
      by (auto simp: pool_ok_def pool_numbers_ok_def pool_take_body_def)
  next
    case (Cons x xs)
    let ?ts = "(tp_threads p)[i := WorkerRuns x]"
    note n1 = pool_counts [OF worker_takes(1), of "WorkerRuns x"]
    show ?thesis
    proof (cases "u = None \<or> tp_maxQueueSize p = 0")
      case True
      then show ?thesis
        using worker_takes Cons n1 pool_waiter_counts(2) [of "tp_threads p"]
        by (auto simp: pool_ok_def pool_numbers_ok_def pool_take_body_def Let_def)
    next
      case False
      then obtain j y where u: "u = Some (j, y)" by auto
      have j: "j < length ?ts" "?ts ! j = ProducerWaits y" using u worker_takes(1-3) by (cases "i = j"; simp add: producer_waiter_def)+
      then show ?thesis
        using worker_takes Cons n1 u False pool_counts [OF j(1), of "ProducerRuns y"]
        by (auto simp: pool_ok_def pool_numbers_ok_def pool_take_body_def Let_def)
    qed
  qed
qed

lemma pool_steps_ok: "pool_step\<^sup>*\<^sup>* p p' \<Longrightarrow> pool_ok p \<Longrightarrow> pool_ok p'"
  by (induction rule: rtranclp_induct) (auto intro: pool_step_ok)

lemma pool_start_ok: "pool_ok (ThreadPool_start m n k)"
  by (simp add: pool_ok_def pool_numbers_ok_def ThreadPool_start_def count_def)

lemma pool_step_bound: "pool_step p p' \<Longrightarrow> tp_maxQueueSize p' = tp_maxQueueSize p \<and> tp_workers p' = tp_workers p"
  by (induction rule: pool_step.induct)
    (auto simp: pool_run_body_def pool_take_body_def ThreadPool_stop_def Let_def split: option.splits list.splits)

lemma pool_steps_bound: "pool_step\<^sup>*\<^sup>* p p' \<Longrightarrow> tp_maxQueueSize p' = tp_maxQueueSize p \<and> tp_workers p' = tp_workers p"
  by (induction rule: rtranclp_induct) (auto dest: pool_step_bound)

text \<open>A stopped pool with a full queue whose workers have all returned.\<close>

definition pool_deserted :: "'a ThreadPool \<Rightarrow> bool" where
  "pool_deserted p \<longleftrightarrow> 0 < tp_workers p \<and> isFull p \<and>
     (\<forall>t \<in> set (tp_threads p). t = WorkerGone \<or> t = Producer \<or> (\<exists>x. t = ProducerRuns x \<or> t = ProducerWaits x))"

lemma deserted_at:
  "pool_deserted p \<Longrightarrow> s = Producer \<or> (\<exists>x. s = ProducerRuns x \<or> s = ProducerWaits x) \<Longrightarrow> pool_deserted (pool_thread_at i s p)"
  unfolding pool_deserted_def isFull_def using set_update_subset_insert [of "tp_threads p" i s] by auto

lemma deserted_nth:
  "pool_deserted p \<Longrightarrow> i < length (tp_threads p) \<Longrightarrow>
     tp_threads p ! i \<noteq> Worker \<and> tp_threads p ! i \<noteq> WorkerTakes \<and> tp_threads p ! i \<noteq> WorkerWaits \<and> tp_threads p ! i \<noteq> WorkerRuns x"
  unfolding pool_deserted_def using nth_mem [of i "tp_threads p"] by fastforce

lemma deserted_step:
  assumes "pool_step p p'" "pool_deserted p"
  shows "pool_deserted p' \<and> tp_submitted p' = tp_submitted p \<and> tp_started p' = tp_started p \<and> tp_queue p' = tp_queue p"
  using assms
proof (induction rule: pool_step.induct)
  case (worker_done i p task)
  then show ?case using deserted_nth [of p i task] by simp
next
  case (worker_tests i p)
  then show ?case using deserted_nth [of p i] by simp
next
  case (worker_takes i p u)
  then show ?case using deserted_nth [of p i] by simp
next
  case (worker_spurious i p)
  then show ?case using deserted_nth [of p i] by simp
next
  case (stops p)
  then show ?case by (auto simp: pool_deserted_def isFull_def ThreadPool_stop_def)
next
  case (producer_runs i p task u)
  then have "pool_run_body i task u p = pool_thread_at i (ProducerWaits task) p" by (simp add: pool_run_body_def pool_deserted_def)
  then show ?case using deserted_at [OF producer_runs(4), of "ProducerWaits task" i] by simp
next
  case (producer_calls i p task)
  then show ?case using deserted_at [of p "ProducerRuns task" i] by simp
next
  case (producer_spurious i p task)
  then show ?case using deserted_at [of p "ProducerRuns task" i] by simp
qed

lemma deserted_steps:
  "pool_step\<^sup>*\<^sup>* p p' \<Longrightarrow> pool_deserted p \<Longrightarrow>
     pool_deserted p' \<and> tp_submitted p' = tp_submitted p \<and> tp_started p' = tp_started p \<and> tp_queue p' = tp_queue p"
  by (induction rule: rtranclp_induct) (auto dest: deserted_step)

section \<open>Properties\<close>

text \<open>
  C36.  A \<^verbatim>\<open>BoundedBlockingQueue\<close>, or a \<^verbatim>\<open>BlockingQueue\<close>, shared by any number of threads.  Whatever the schedule, whichever waiting thread a
  \<^verbatim>\<open>notify\<close> picks, and with spurious wakeups: items leave in the order in which they were put, none is lost or duplicated, the capacity is kept, and
  no wakeup is lost: while an item is there a thread waits to take only if another one is on its way to take, and while there is room one waits to put only if
  another one is on its way to put.
\<close>

theorem bounded_queue_fifo:
  assumes "bq_step\<^sup>*\<^sup>* (BoundedBlockingQueue_ctor m n) q"
  shows "bq_put q = bq_taken q @ bq_items q \<and> (\<forall>k. m = Some k \<longrightarrow> length (bq_items q) \<le> k) \<and>
    (TakeWaits \<in> set (bq_threads q) \<and> bq_items q \<noteq> [] \<longrightarrow> Taking \<in> set (bq_threads q)) \<and>
    ((\<exists>x. PutWaits x \<in> set (bq_threads q)) \<and> \<not> bq_full q \<longrightarrow> (\<exists>x. Putting x \<in> set (bq_threads q)))"
proof -
  have "bq_max q = m" using bq_steps_max [OF assms] by (simp add: BoundedBlockingQueue_ctor_def)
  moreover have "bq_ok q" using bq_steps_ok [OF assms bq_ctor_ok] .
  moreover note count_pos [of "\<lambda>t. t = TakeWaits" "bq_threads q"] count_pos [of "\<lambda>t. t = Taking" "bq_threads q"]
    count_pos [of "\<lambda>t. \<exists>x. t = PutWaits x" "bq_threads q"] count_pos [of "\<lambda>t. \<exists>x. t = Putting x" "bq_threads q"]
  ultimately show ?thesis
    by (auto simp: bq_ok_def numbers_ok_def bq_full_def not_le split: option.splits)
qed

lemma bounded_queue_fifo_witness:
  "\<exists>q :: nat bounded_queue. bq_step\<^sup>*\<^sup>* (BoundedBlockingQueue_ctor (Some 1) 2) q \<and> bq_items q = [7] \<and>
     Taking \<in> set (bq_threads q) \<and> bq_put q = bq_taken q @ bq_items q"
proof -
  define q0 :: "nat bounded_queue" where "q0 = BoundedBlockingQueue_ctor (Some 1) 2"
  define q1 where "q1 = set_thread 0 Taking q0"
  define q2 where "q2 = bq_take_body 0 None q1"
  define q3 where "q3 = set_thread 1 (Putting 7) q2"
  define q4 where "q4 = bq_put_body 1 7 (Some 0) q3"
  note defs = q0_def q1_def q2_def q3_def q4_def BoundedBlockingQueue_ctor_def numeral_2_eq_2 bq_take_body_def bq_put_body_def bq_full_def
    take_waiter_def put_waiter_def notify_take_def set_thread_def
  have "bq_step q0 q1" unfolding q1_def by (rule call_take) (simp_all add: defs)
  moreover have "bq_step q1 q2" unfolding q2_def by (rule take_body) (simp_all add: defs)
  moreover have "bq_step q2 q3" unfolding q3_def by (rule call_put) (simp_all add: defs)
  moreover have "bq_step q3 q4" unfolding q4_def by (rule put_body) (simp_all add: defs)
  ultimately have steps: "bq_step\<^sup>*\<^sup>* (BoundedBlockingQueue_ctor (Some 1) 2) q4" unfolding q0_def by auto
  have "bq_items q4 = [7]" "Taking \<in> set (bq_threads q4)" by (simp_all add: defs)
  then show ?thesis using bounded_queue_fifo [OF steps] steps by blast
qed

text \<open>
  C37.  \<^verbatim>\<open>ThreadPool\<close> with any number of workers and of threads that call \<^verbatim>\<open>run\<close>, in every schedule.  Tasks start in the order in which they
  were submitted and none is lost or run twice; the queue keeps its bound; while the pool runs no worker sleeps over a task unless another one is on its way, and no
  producer over a free place.  After \<^verbatim>\<open>stop\<close> no worker waits.  But \<^verbatim>\<open>stop\<close> neither empties the queue nor wakes the producers: once the workers have
  returned and the queue is full, no task queued or handed to \<^verbatim>\<open>run\<close> is ever started, and a producer never comes back.
\<close>

theorem thread_pool_runs:
  assumes "pool_step\<^sup>*\<^sup>* (ThreadPool_start m n k) p"
  shows "tp_submitted p = tp_started p @ tp_queue p \<and> (0 < m \<longrightarrow> length (tp_queue p) \<le> m) \<and> (n = 0 \<longrightarrow> tp_queue p = []) \<and>
    (WorkerWaits \<in> set (tp_threads p) \<longrightarrow> tp_running p \<and> (tp_queue p \<noteq> [] \<longrightarrow> WorkerTakes \<in> set (tp_threads p))) \<and>
    ((\<exists>x. ProducerWaits x \<in> set (tp_threads p)) \<and> \<not> isFull p \<longrightarrow> (\<exists>x. ProducerRuns x \<in> set (tp_threads p))) \<and>
    (\<forall>p'. pool_deserted p \<and> pool_step\<^sup>*\<^sup>* p p' \<longrightarrow> tp_submitted p' = tp_submitted p \<and> tp_started p' = tp_started p)"
proof (intro conjI)
  have m: "tp_maxQueueSize p = m" "tp_workers p = n" using pool_steps_bound [OF assms] by (simp_all add: ThreadPool_start_def)
  note ok = pool_steps_ok [OF assms pool_start_ok, unfolded pool_ok_def pool_numbers_ok_def m]
  show "tp_submitted p = tp_started p @ tp_queue p" "0 < m \<longrightarrow> length (tp_queue p) \<le> m" "n = 0 \<longrightarrow> tp_queue p = []"
    using ok by auto
  show "WorkerWaits \<in> set (tp_threads p) \<longrightarrow> tp_running p \<and> (tp_queue p \<noteq> [] \<longrightarrow> WorkerTakes \<in> set (tp_threads p))"
  proof
    assume "WorkerWaits \<in> set (tp_threads p)"
    then have w: "0 < count (\<lambda>t. t = WorkerWaits) (tp_threads p)" by (auto simp: count_pos)
    then have "WorkerTakes \<in> set (tp_threads p)" if "tp_queue p \<noteq> []"
      using ok that count_pos [of "\<lambda>t. t = WorkerTakes" "tp_threads p"] by fastforce
    then show "tp_running p \<and> (tp_queue p \<noteq> [] \<longrightarrow> WorkerTakes \<in> set (tp_threads p))" using ok w by auto
  qed
  show "(\<exists>x. ProducerWaits x \<in> set (tp_threads p)) \<and> \<not> isFull p \<longrightarrow> (\<exists>x. ProducerRuns x \<in> set (tp_threads p))"
  proof
    assume a: "(\<exists>x. ProducerWaits x \<in> set (tp_threads p)) \<and> \<not> isFull p"
    then have "0 < producers_wait (tp_threads p)" by (auto simp: count_pos)
    then have "0 < m" "m \<le> length (tp_queue p) + producing (tp_threads p)" using ok by auto
    then have "0 < producing (tp_threads p)" using a by (simp add: isFull_def m)
    then show "\<exists>x. ProducerRuns x \<in> set (tp_threads p)" by (auto simp: count_pos)
  qed
  show "\<forall>p'. pool_deserted p \<and> pool_step\<^sup>*\<^sup>* p p' \<longrightarrow> tp_submitted p' = tp_submitted p \<and> tp_started p' = tp_started p"
    using deserted_steps by blast
qed

text \<open>One worker, a queue of one, one producer: a task is queued, \<^verbatim>\<open>stop\<close> comes before the worker looks again, and the producer is stranded with its second task.\<close>

lemma thread_pool_runs_witness:
  "\<exists>p :: nat ThreadPool. pool_step\<^sup>*\<^sup>* (ThreadPool_start 1 1 1) p \<and> pool_deserted p \<and> ProducerWaits 8 \<in> set (tp_threads p) \<and>
     tp_submitted p = [7] \<and> tp_started p = [] \<and> (\<forall>p'. pool_step\<^sup>*\<^sup>* p p' \<longrightarrow> tp_started p' = [] \<and> tp_submitted p' = [7])"
proof -
  define P where "P q r ts sub = (\<lparr>tp_queue = q, tp_maxQueueSize = 1, tp_running = r, tp_workers = 1, tp_threads = ts, tp_submitted = sub,
      tp_started = [], tp_finished = []\<rparr> :: nat ThreadPool)" for q r ts sub
  note defs = P_def ThreadPool_start_def pool_run_body_def isFull_def ThreadPool_stop_def worker_waiter_def pool_thread_at_def
  have "ThreadPool_start 1 1 1 = P [] True [Worker, Producer] []" by (simp add: defs)
  also have "pool_step\<^sup>*\<^sup>* (P [] True [Worker, Producer] []) (P [] True [Worker, ProducerRuns 7] [])"
    using producer_calls [of 1 "P [] True [Worker, Producer] []" 7] by (intro r_into_rtranclp) (simp add: defs)
  also have "pool_step\<^sup>*\<^sup>* (P [] True [Worker, ProducerRuns 7] []) (P [7] True [Worker, Producer] [7])"
    using producer_runs [of 1 "P [] True [Worker, ProducerRuns 7] []" 7 None] by (intro r_into_rtranclp) (simp add: defs)
  also have "pool_step\<^sup>*\<^sup>* (P [7] True [Worker, Producer] [7]) (P [7] True [Worker, ProducerRuns 8] [7])"
    using producer_calls [of 1 "P [7] True [Worker, Producer] [7]" 8] by (intro r_into_rtranclp) (simp add: defs)
  also have "pool_step\<^sup>*\<^sup>* (P [7] True [Worker, ProducerRuns 8] [7]) (P [7] True [Worker, ProducerWaits 8] [7])"
    using producer_runs [of 1 "P [7] True [Worker, ProducerRuns 8] [7]" 8 None] by (intro r_into_rtranclp) (simp add: defs)
  also have "pool_step\<^sup>*\<^sup>* (P [7] True [Worker, ProducerWaits 8] [7]) (P [7] False [Worker, ProducerWaits 8] [7])"
    using stops [of "P [7] True [Worker, ProducerWaits 8] [7]"] by (intro r_into_rtranclp) (simp add: defs)
  also have "pool_step\<^sup>*\<^sup>* (P [7] False [Worker, ProducerWaits 8] [7]) (P [7] False [WorkerGone, ProducerWaits 8] [7])"
    using worker_tests [of 0 "P [7] False [Worker, ProducerWaits 8] [7]"] by (intro r_into_rtranclp) (simp add: defs)
  finally have steps: "pool_step\<^sup>*\<^sup>* (ThreadPool_start 1 1 1) (P [7] False [WorkerGone, ProducerWaits 8] [7])" .
  have "pool_deserted (P [7] False [WorkerGone, ProducerWaits 8] [7])" by (simp add: defs pool_deserted_def)
  moreover from this have "\<forall>p'. pool_step\<^sup>*\<^sup>* (P [7] False [WorkerGone, ProducerWaits 8] [7]) p' \<longrightarrow> tp_started p' = [] \<and> tp_submitted p' = [7]"
    using thread_pool_runs [OF steps] by (simp add: P_def)
  ultimately show ?thesis using steps by (intro exI [of _ "P [7] False [WorkerGone, ProducerWaits 8] [7]"]) (simp add: P_def)
qed

end
