(* ===== verification/WS_Termination.thy ===== *)
theory WS_Termination
  imports WS_Pack
begin

text \<open>
  The loop of \<open>parse_frame\<close> ends on every input, acceptable or not: each iteration that
  goes on consumes a byte or ends a frame, so the fuel \<open>2 * readableBytes() + 2\<close>
  is never used up.  The result is then a session or a failed assertion.

  \<open>safe P r\<close> is the judgement on results that the proof composes: \<open>r\<close> is a
  failed assertion or a value in \<open>P\<close>.
\<close>

definition safe :: "('a \<Rightarrow> bool) \<Rightarrow> 'a res \<Rightarrow> bool" where
  "safe P r \<longleftrightarrow>
     (case r of
        Inl (AssertFail f n) \<Rightarrow> True
      | Inl (Undefined f n) \<Rightarrow> False
      | Inl OutOfFuel \<Rightarrow> False
      | Inr x \<Rightarrow> P x)"

named_theorems safe_intros

lemma safe_Inr [simp, safe_intros]: "P x \<Longrightarrow> safe P (Inr x)"
  by (simp add: safe_def)

lemma safe_AssertFail [simp, safe_intros]: "safe P (Inl (AssertFail f n))"
  by (simp add: safe_def)

lemma safe_require [safe_intros]: "(c \<Longrightarrow> safe P k) \<Longrightarrow> safe P (require f n c k)"
  by (cases c) simp_all

lemma safe_rbind: "safe Q m \<Longrightarrow> (\<And>x. Q x \<Longrightarrow> safe P (f x)) \<Longrightarrow> safe P (rbind m f)"
  by (cases m) (auto simp: safe_def)

lemma safe_mono: "safe P r \<Longrightarrow> (\<And>x. P x \<Longrightarrow> Q x) \<Longrightarrow> safe Q r"
  by (auto simp: safe_def split: sum.splits fault.splits)

lemma safe_rmap: "safe P (rmap f r) \<longleftrightarrow> safe (\<lambda>x. P (f x)) r"
  by (cases r) (simp_all add: safe_def)

lemma safe_getMessageBuffer: "safe (\<lambda>b. messageBuffer m = Some b) (getMessageBuffer m)"
  by (simp add: getMessageBuffer_def safe_def split: option.splits)

lemma safe_debug_addFrameHeader:
  "safe (\<lambda>m'. messageBuffer m' = messageBuffer m \<and> segmentOffset m' = segmentOffset m)
     (debug_addFrameHeader D ext m)"
proof -
  have t: "safe (\<lambda>_. True) (testValidate f)" for f
    by (auto simp: testValidate_def Let_def split: OpcodeE.splits FinE.splits
        intro!: safe_intros)
  have c: "safe (\<lambda>_. True) (addFrameHeader_classify ty h)" for ty h
    by (auto simp: addFrameHeader_classify_def split: OpcodeE.splits intro!: safe_intros)
  have k: "safe (\<lambda>_. True) (frame_header_ctor a b e)" "safe (\<lambda>_. True) (frame_header_copy f)" for a b e f
    by (simp_all add: frame_header_ctor_def frame_header_copy_def setMaskingkey_def)
  have "safe (\<lambda>_. True) (addFrameHeader (messageHeader m) ext)"
    unfolding addFrameHeader_def
    by (rule safe_rbind [OF c], clarsimp, rule safe_require, rule safe_rbind [OF k(1)],
        rule safe_rbind [OF t], rule safe_rbind [OF k(2)]) simp
  moreover have "safe (\<lambda>_. True) (dump_extended_header_info ext)"
    by (auto simp: dump_extended_header_info_def existMaskingkey_def require_def)
  ultimately show ?thesis
    by (auto simp: debug_addFrameHeader_def Message_addFrameHeader_def safe_def rbind_def
        split: sum.splits fault.splits)
qed

text \<open>The messages a session has sent by itself, and what parsing frames leaves alone: it sends none.\<close>

definition sends :: "callback list \<Rightarrow> bytes list" where
  "sends cs = concat (map (\<lambda>x. case x of SendMessage b \<Rightarrow> [b] | _ \<Rightarrow> []) cs)"

lemma sends_simps [simp]: "sends [] = []" "sends (xs @ ys) = sends xs @ sends ys"
    "sends (x # xs) = (case x of SendMessage b \<Rightarrow> [b] | _ \<Rightarrow> []) @ sends xs"
  by (simp_all add: sends_def)

abbreviation kept :: "('b, 'h) session \<Rightarrow> ('b, 'h) session \<Rightarrow> bool" where
  "kept s s' \<equiv> httpContext (ctx s') = httpContext (ctx s) \<and> sends (calls s') = sends (calls s)"

context bytes_buffer
begin

definition wf_message :: "'b Message \<Rightarrow> bool" where
  "wf_message m \<longleftrightarrow> (\<forall>b. messageBuffer m = Some b \<longrightarrow> invar b)"

definition wf_session :: "('b, 'h) session \<Rightarrow> bool" where
  "wf_session s \<longleftrightarrow> invar (inbuf s) \<and> wf_message (dataMessage (ctx s)) \<and>
     wf_message (controlMessage (ctx s))"

abbreviation size_of :: "('b, 'h) session \<Rightarrow> nat" where
  "size_of s \<equiv> length (content (inbuf s))"

lemma wf_resetMessage [simp]: "wf_message m \<Longrightarrow> wf_message (resetMessage V m)"
  using retrieveAll by (auto simp: wf_message_def resetMessage_def Let_def split: option.splits)

lemma unMaskPayloadData_invar:
  "invar b \<Longrightarrow> unMaskPayloadData V u b key off = (r, b', off') \<Longrightarrow> invar b'"
  using unMask_loop_ok [of b off "length (content b) - off" key]
  by (auto simp: unMaskPayloadData_def Let_def readable split: if_splits)

lemma safe_consume_payload:
  assumes "invar buf" and "n \<le> length (content buf)" and "wf_message m"
  shows "safe (\<lambda>(m', buf'). wf_message m' \<and> invar buf' \<and> length (content buf') \<le> length (content buf))
    (consume_payload V ext n m buf)"
  unfolding consume_payload_def
proof (rule safe_rbind [OF safe_getMessageBuffer])
  fix b assume "messageBuffer m = Some b"
  then have "invar b" using assms(3) by (simp add: wf_message_def)
  then obtain b1 where b1: "vappend V b (vpeek V buf n) = Inr b1" "invar b1" using append by blast
  obtain buf1 where buf1: "vretrieve V buf n = Inr buf1" "invar buf1"
      "content buf1 = drop n (content buf)"
    using retrieve [OF assms(1,2)] by blast
  obtain r b2 off where u:
    "unMaskPayloadData V (MASK (eh_header ext)) b1 (Masking_key ext) (segmentOffset m) = (r, b2, off)"
    by (cases "unMaskPayloadData V (MASK (eh_header ext)) b1 (Masking_key ext) (segmentOffset m)")
  show "safe (\<lambda>(m', buf'). wf_message m' \<and> invar buf' \<and> length (content buf') \<le> length (content buf))
     (rbind (vappend V b (vpeek V buf n)) (\<lambda>b1.
      rbind (vretrieve V buf n) (\<lambda>buf1.
       case unMaskPayloadData V (MASK (eh_header ext)) b1 (Masking_key ext) (segmentOffset m) of
         (_, b2, off) \<Rightarrow> Inr (m\<lparr>messageBuffer := Some b2, segmentOffset := off\<rparr>, buf1))))"
    using b1 buf1 u unMaskPayloadData_invar [OF b1(2) u] by (simp add: wf_message_def)
qed

text \<open>What a payload function guarantees.\<close>

definition payload_done :: "('b, 'h) session \<Rightarrow> bool \<times> ('b, 'h) session \<Rightarrow> bool" where
  "payload_done s r \<longleftrightarrow> (case r of (e, s') \<Rightarrow> wf_session s' \<and> kept s s' \<and> size_of s' \<le> size_of s \<and>
     (e \<longrightarrow> wsStep (ctx s') = ReadFrameHeader))"

lemma safe_uncontrol_payload:
  assumes "wf_session s" and "n \<le> size_of s"
  shows "safe (payload_done s) (parse_uncontrol_payload V D t n lines s)"
proof -
  let ?c = "ctx s" let ?ext = "cheader ?c"
  have w: "invar (inbuf s)" "wf_message (dataMessage ?c)" "wf_message (controlMessage ?c)"
    using assms(1) by (simp_all add: wf_session_def)
  note d = payload_done_def wf_session_def finish_frame_def resetExtendedHeader_def emit_def Let_def
  show ?thesis
    unfolding parse_uncontrol_payload_def Let_def
  proof (rule safe_rbind [OF safe_debug_addFrameHeader], rule safe_rbind [OF safe_consume_payload],
      goal_cases)
    case (4 m0 r)
    then show ?case
      using w
      by (auto simp: d split: FinE.splits intro!: safe_intros safe_rbind [OF safe_getMessageBuffer])
  qed (use assms w in \<open>auto simp: wf_message_def\<close>)
qed

lemma safe_control_callback:
  assumes "wf_session s"
  shows "safe (\<lambda>s'. wf_session s' \<and> kept s s' \<and> size_of s' \<le> size_of s) (control_callback V t lines h s)"
  using assms
  by (auto simp: control_callback_def Let_def emit_def wf_session_def resetDataMessage_def
      split: OpcodeE.splits intro!: safe_intros safe_rbind [OF safe_getMessageBuffer])

lemma safe_control_payload:
  assumes "wf_session s" and "n \<le> size_of s"
  shows "safe (payload_done s) (parse_control_payload V D t n lines s)"
proof -
  let ?c = "ctx s"
  have w: "invar (inbuf s)" "wf_message (dataMessage ?c)" "wf_message (controlMessage ?c)"
    using assms(1) by (simp_all add: wf_session_def)
  note d = payload_done_def wf_session_def finish_frame_def resetExtendedHeader_def
    resetControlMessage_def
  show ?thesis
    unfolding parse_control_payload_def Let_def
  proof (rule safe_rbind [OF safe_debug_addFrameHeader], rule safe_rbind [OF safe_consume_payload],
      goal_cases)
    case (4 m0 r)
    then obtain m1 buf1 where r: "r = (m1, buf1)" "wf_message m1" "invar buf1"
        "length (content buf1) \<le> size_of s" by (cases r) simp
    let ?s = "s\<lparr>ctx := ?c\<lparr>controlMessage := m1\<rparr>, inbuf := buf1\<rparr>"
    have s: "wf_session ?s" using r w by (simp add: wf_session_def)
    show ?case
    proof (cases "FIN (eh_header (cheader ?c))")
      case FrameContinue
      then show ?thesis using r s by (simp add: d)
    next
      case FrameFinished
      then show ?thesis
        using r
        by (auto simp: d intro!: safe_intros safe_rbind [OF safe_control_callback [OF s]]
            safe_rbind [OF safe_getMessageBuffer])
    qed
  qed (use assms w in \<open>auto simp: wf_message_def\<close>)
qed

lemma payload_functions_safe:
  assumes "wf_session s"
  shows "safe (payload_done s) (parse_uncontrol_frame_ReadPayloadData V D t s)"
    "safe (payload_done s) (parse_uncontrol_frame_ReadExtendedPayloadDataU16 V D t s)"
    "safe (payload_done s) (parse_uncontrol_frame_ReadExtendedPayloadDataI64 V D t s)"
    "safe (payload_done s) (parse_control_frame_ReadPayloadData V D t s)"
    "safe (payload_done s) (parse_control_frame_ReadExtendedPayloadDataU16 V D t s)"
    "safe (payload_done s) (parse_control_frame_ReadExtendedPayloadDataI64 V D t s)"
proof -
  have r: "vreadableBytes V (inbuf s) = size_of s" using assms by (simp add: wf_session_def readable)
  have "payload_done s (False, s)" using assms by (simp add: payload_done_def)
  then show "safe (payload_done s) (parse_uncontrol_frame_ReadPayloadData V D t s)"
    "safe (payload_done s) (parse_uncontrol_frame_ReadExtendedPayloadDataU16 V D t s)"
    "safe (payload_done s) (parse_uncontrol_frame_ReadExtendedPayloadDataI64 V D t s)"
    "safe (payload_done s) (parse_control_frame_ReadPayloadData V D t s)"
    "safe (payload_done s) (parse_control_frame_ReadExtendedPayloadDataU16 V D t s)"
    "safe (payload_done s) (parse_control_frame_ReadExtendedPayloadDataI64 V D t s)"
    unfolding parse_uncontrol_frame_ReadPayloadData_def
      parse_uncontrol_frame_ReadExtendedPayloadDataU16_def
      parse_uncontrol_frame_ReadExtendedPayloadDataI64_def
      parse_control_frame_ReadPayloadData_def
      parse_control_frame_ReadExtendedPayloadDataU16_def
      parse_control_frame_ReadExtendedPayloadDataI64_def Let_def r
    using safe_uncontrol_payload [OF assms] safe_control_payload [OF assms]
    by (auto intro!: safe_require)
qed

text \<open>The other functions.  \<open>step_done s r\<close>: no byte is put back; going on
  costs a byte.\<close>

definition step_done :: "('b, 'h) session \<Rightarrow> bool \<times> ('b, 'h) session \<Rightarrow> bool" where
  "step_done s r \<longleftrightarrow> (case r of (e, s') \<Rightarrow> wf_session s' \<and> kept s s' \<and> size_of s' \<le> size_of s \<and>
     (e \<longrightarrow> size_of s' < size_of s))"

lemma safe_extended_lengths:
  assumes "wf_session s"
  shows "safe (step_done s) (parse_frame_ReadExtendedPayloadlenU16 V s)"
    "safe (step_done s) (parse_frame_ReadExtendedPayloadlenI64 V s)"
proof -
  have i: "invar (inbuf s)" using assms by (simp add: wf_session_def)
  note d = step_done_def wf_session_def setWebsocketStep_def Let_def len_defs
  show "safe (step_done s) (parse_frame_ReadExtendedPayloadlenU16 V s)"
    using assms i readInt16 [OF i] unfolding parse_frame_ReadExtendedPayloadlenU16_def
    by (auto simp: d readable not_less intro!: safe_require)
  show "safe (step_done s) (parse_frame_ReadExtendedPayloadlenI64 V s)"
    using assms i readInt64 [OF i] unfolding parse_frame_ReadExtendedPayloadlenI64_def
    by (auto simp: d readable not_less intro!: safe_require)
qed

lemma safe_get_type: "safe (\<lambda>_. True) (get_frame_control_message_type h)"
  by (auto simp: get_frame_control_message_type_def split: OpcodeE.splits intro!: safe_intros)

lemma wf_setWebsocketStep [simp]: "wf_session (setWebsocketStep x s) \<longleftrightarrow> wf_session s"
  by (simp add: wf_session_def setWebsocketStep_def)

lemma http_setWebsocketStep [simp]:
  "httpContext (ctx (setWebsocketStep x s)) = httpContext (ctx s)" "calls (setWebsocketStep x s) = calls s"
  by (simp_all add: setWebsocketStep_def)

lemma payload_then_step:
  assumes "safe (payload_done s1) r" and "size_of s1 < size_of s" and "kept s s1"
  shows "safe (step_done s) r"
  using assms by (auto simp: payload_done_def step_done_def elim!: safe_mono)

lemma safe_maskingkey:
  assumes "wf_session s"
  shows "safe (step_done s) (parse_frame_ReadMaskingkey V D t s)"
proof (cases "size_of s < 4")
  case True
  then show ?thesis
    using assms by (auto simp: parse_frame_ReadMaskingkey_def Let_def wf_session_def readable
        kMaskingkeyLen_def step_done_def intro!: safe_require)
next
  case False
  have i: "invar (inbuf s)" using assms by (simp add: wf_session_def)
  obtain buf1 where b: "vretrieve V (inbuf s) 4 = Inr buf1" "invar buf1"
      "content buf1 = drop 4 (content (inbuf s))"
    using retrieve [OF i, of 4] False by auto
  define s1 where "s1 = s\<lparr>ctx := (ctx s)\<lparr>cheader := (cheader (ctx s))
      \<lparr>Masking_key := take 4 (vpeek V (inbuf s) 4)\<rparr>\<rparr>, inbuf := buf1\<rparr>"
  have s1: "wf_session (setWebsocketStep x s1)" "size_of (setWebsocketStep x s1) < size_of s"
      "kept s (setWebsocketStep x s1)" for x
    using assms b False by (simp_all add: s1_def wf_session_def setWebsocketStep_def)
  note p = payload_functions_safe [OF s1(1), THEN payload_then_step, OF s1(2,3)]
  show ?thesis
    using False i b(1) unfolding parse_frame_ReadMaskingkey_def Let_def
    by (auto simp: readable kMaskingkeyLen_def setMaskingkey_def s1_def [symmetric]
        intro!: safe_require safe_rbind [OF safe_get_type] p)
qed

lemma safe_update_step:
  assumes "wf_session s"
  shows "safe (\<lambda>s'. wf_session s' \<and> kept s s' \<and> size_of s' \<le> size_of s) (update_frame_body_parse_step V D t s)"
proof -
  have a: "safe (\<lambda>r. wf_session (snd r) \<and> kept s (snd r) \<and> size_of (snd r) \<le> size_of s) r"
    if "safe (step_done (setWebsocketStep x s)) r \<or> safe (payload_done (setWebsocketStep x s)) r" for x r
    using that by (auto simp: step_done_def payload_done_def elim!: safe_mono)
  have w: "wf_session (setWebsocketStep x s)" for x using assms by simp
  note o = safe_extended_lengths [OF w] safe_maskingkey [OF w] payload_functions_safe(4) [OF w]
  show ?thesis
    unfolding update_frame_body_parse_step_def Let_def
    by (auto simp: safe_rmap intro!: safe_require a [unfolded conj_assoc] o)
qed

lemma safe_validate:
  assumes "wf_message (dataMessage c)" "wf_message (controlMessage c)"
  shows "safe (\<lambda>c'. wf_message (dataMessage c') \<and> wf_message (controlMessage c') \<and> httpContext c' = httpContext c)
    (validate_message_frame V D c)"
proof -
  have b: "safe wf_message (begin_message V n m ty)" if "wf_message m" for n m ty
    unfolding begin_message_def using that
    by (auto simp: setMessageType_def wf_message_def intro!: safe_rbind [OF safe_getMessageBuffer] safe_require)
  note o = b [OF assms(1), THEN safe_rbind] b [OF assms(2), THEN safe_rbind]
  show ?thesis
    using assms
    by (auto simp: validate_message_frame_def Let_def split: OpcodeE.splits intro!: safe_require o)
qed

lemma safe_header:
  assumes "wf_session s"
  shows "safe (step_done s) (parse_frame_ReadFrameHeader V D t s)"
proof (cases "size_of s < 2")
  case True
  then show ?thesis
    using assms by (auto simp: parse_frame_ReadFrameHeader_def Let_def wf_session_def readable
        kHeaderLen_def step_done_def intro!: safe_require)
next
  case False
  have i: "invar (inbuf s)" "wf_message (dataMessage (ctx s))" "wf_message (controlMessage (ctx s))"
    using assms by (simp_all add: wf_session_def)
  obtain buf1 where b: "vretrieve V (inbuf s) 2 = Inr buf1" "invar buf1"
      "content buf1 = drop 2 (content (inbuf s))"
    using retrieve [OF i(1), of 2] False by auto
  then obtain h where h: "parse_frame_header V (inbuf s) = Inr (h, buf1)"
    by (simp add: parse_frame_header_def kHeaderLen_def Let_def)
  let ?c = "(ctx s)\<lparr>cheader := set_header (cheader (ctx s)) h\<rparr>"
  have "safe (\<lambda>c'. wf_message (dataMessage c') \<and> wf_message (controlMessage c') \<and> httpContext c' = httpContext (ctx s))
      (validate_message_frame V D ?c)"
    using i(2,3) safe_validate [of ?c D] by simp
  moreover have "safe (step_done s) (rmap (Pair True)
      (update_frame_body_parse_step V D t (s\<lparr>ctx := c', inbuf := buf1\<rparr>)))"
    if "wf_message (dataMessage c') \<and> wf_message (controlMessage c') \<and> httpContext c' = httpContext (ctx s)" for c'
    unfolding safe_rmap
  proof (rule safe_mono [OF safe_update_step])
    show "wf_session (s\<lparr>ctx := c', inbuf := buf1\<rparr>)" using that b(2) by (simp add: wf_session_def)
  qed (use b(3) False that in \<open>auto simp: step_done_def\<close>)
  ultimately show ?thesis
    using False i(1) h
    by (auto simp: parse_frame_ReadFrameHeader_def Let_def readable kHeaderLen_def
        intro!: safe_require elim!: safe_rbind)
qed

text \<open>The measure of the loop.\<close>

definition mu :: "('b, 'h) session \<Rightarrow> nat" where
  "mu s = 2 * size_of s + (if wsStep (ctx s) = ReadFrameHeader then 0 else 1)"

lemma safe_step:
  assumes "wf_session s"
  shows "safe (\<lambda>(e, s'). wf_session s' \<and> kept s s' \<and> (e \<longrightarrow> mu s' < mu s)) (parse_frame_step V D t ty s)"
proof -
  have a: "safe (\<lambda>(e, s'). wf_session s' \<and> kept s s' \<and> (e \<longrightarrow> mu s' < mu s)) r" if "safe (step_done s) r" for r
    using that by (rule safe_mono) (auto simp: step_done_def mu_def)
  have b: "safe (\<lambda>(e, s'). wf_session s' \<and> kept s s' \<and> (e \<longrightarrow> mu s' < mu s)) r"
    if "safe (payload_done s) r" "wsStep (ctx s) \<noteq> ReadFrameHeader" for r
    using that(1) by (rule safe_mono) (use that(2) in \<open>auto simp: payload_done_def mu_def\<close>)
  note o = safe_header [OF assms, THEN a] safe_extended_lengths [OF assms, THEN a]
    safe_maskingkey [OF assms, THEN a] payload_functions_safe [OF assms, THEN b]
  show ?thesis
    by (cases "wsStep (ctx s)") (auto simp: parse_frame_step_def intro!: safe_require o [unfolded conj_assoc])
qed

lemma safe_loop:
  assumes "wf_session s" and "mu s \<le> fuel"
  shows "safe (\<lambda>s'. wf_session s' \<and> kept s s') (parse_frame_loop V D t ty fuel e s)"
  using assms
proof (induction fuel arbitrary: e s)
  case 0
  then have "vreadableBytes V (inbuf s) = 0" by (simp add: mu_def wf_session_def readable)
  with 0 show ?case by simp
next
  case (Suc fuel)
  show ?case
  proof (cases "e \<and> 0 < vreadableBytes V (inbuf s)")
    case True
    have next_round: "safe (\<lambda>s'. wf_session s' \<and> kept s s') (parse_frame_loop V D t ty fuel e1 s1)"
      if "wf_session s1" "kept s s1" "mu s1 < mu s" for e1 s1
      using Suc.IH [of s1 e1] Suc.prems(2) that by simp
    show ?thesis
      using True
      by (simp add: parse_frame_loop_Suc)
        (rule safe_rbind [OF safe_step [OF Suc.prems(1)]], use next_round in \<open>auto split: prod.splits\<close>)
  next
    case False
    then show ?thesis using Suc.prems(1) by (cases e) simp_all
  qed
qed

lemma safe_parse_frame:
  assumes "wf_session s"
  shows "safe (\<lambda>s'. wf_session s' \<and> kept s s') (parse_frame V D t s)"
proof -
  have "mu s \<le> 2 * vreadableBytes V (inbuf s) + 2"
    using assms by (simp add: mu_def wf_session_def readable)
  from safe_loop [OF assms this] show ?thesis
    unfolding parse_frame_def Let_def
    by (intro safe_require safe_rbind [OF safe_getMessageBuffer] safe_rbind [OF safe_get_type])
qed

end

section \<open>Properties\<close>

definition wf_buffers :: "(Buffer, 'h) session \<Rightarrow> bool" where
  "wf_buffers s \<longleftrightarrow> buffer_inv (inbuf s) \<and>
     (\<forall>b. messageBuffer (dataMessage (ctx s)) = Some b \<longrightarrow> buffer_inv b) \<and>
     (\<forall>b. messageBuffer (controlMessage (ctx s)) = Some b \<longrightarrow> buffer_inv b)"

text \<open>
  C6.  Termination.  On every session whose buffers satisfy the class invariant, in
  the middle of any frame and with any bytes in the input buffer, \<open>parse_frame\<close>
  returns or stops at an assertion of the source, and the buffers it leaves
  satisfy the invariant.
\<close>

theorem parse_frame_terminates:
  fixes s :: "(Buffer, 'h) session"
  assumes "wf_buffers s"
  shows "(\<exists>s'. parse_frame Buffer_vtable D t s = Inr s' \<and> wf_buffers s') \<or>
    (\<exists>f n. parse_frame Buffer_vtable D t s = Inl (AssertFail f n))"
proof -
  have w: "mb.wf_session s \<longleftrightarrow> wf_buffers s" for s :: "(Buffer, 'h) session"
    by (simp add: mb.wf_session_def mb.wf_message_def wf_buffers_def)
  have "safe mb.wf_session (parse_frame Buffer_vtable D t s)"
    using assms w by (intro safe_mono [OF mb.safe_parse_frame]) simp_all
  then show ?thesis
    by (auto simp: safe_def w split: sum.splits fault.splits)
qed

lemma parse_frame_terminates_witness:
  "wf_buffers demo_session \<and>
   ((\<exists>s'. parse_frame Buffer_vtable True 0 demo_session = Inr s' \<and> wf_buffers s') \<or>
    (\<exists>f n. parse_frame Buffer_vtable True 0 demo_session = Inl (AssertFail f n)))"
proof -
  have "wf_buffers demo_session"
    by (simp add: wf_buffers_def demo_session_def Message_ctor_def Buffer_ctor_ok)
  with parse_frame_terminates show ?thesis by blast
qed

end
