(* ===== verification/WS_Channel.thy ===== *)
theory WS_Channel
  imports WS_Prelude
begin

text \<open>
  Channels of the event loop: \<^verbatim>\<open>Channel.h\<close>, \<^verbatim>\<open>Channel.cc\<close> and the part of \<^verbatim>\<open>EventLoop.cc\<close> and \<^verbatim>\<open>Poller.h\<close>
  through which they register.  A channel is one file descriptor with the events its owner wants;
  every change of the events goes through the loop to the poller.

  Objects that the code reaches by pointer are numbered: \<open>chans\<close> of the loop maps the number of a
  channel to its fields, and the poller stores numbers.  The locale \<open>poller_contract\<close> is the class \<^verbatim>\<open>Poller\<close>: what
  \<^verbatim>\<open>EPollPoller\<close> and \<^verbatim>\<open>PollPoller\<close> both promise.  What follows from the promise, for every
  sequence of calls on any number of channels, is proved once in the locale.
\<close>

section \<open>Events\<close>

type_synonym poll_events = "32 word"

definition POLLIN :: poll_events where "POLLIN = 0x1"
definition POLLPRI :: poll_events where "POLLPRI = 0x2"
definition POLLOUT :: poll_events where "POLLOUT = 0x4"
definition POLLERR :: poll_events where "POLLERR = 0x8"
definition POLLHUP :: poll_events where "POLLHUP = 0x10"
definition POLLNVAL :: poll_events where "POLLNVAL = 0x20"
definition POLLRDHUP :: poll_events where "POLLRDHUP = 0x2000"
definition EPOLLET :: poll_events where "EPOLLET = 0x80000000"

lemmas poll_bits = POLLIN_def POLLPRI_def POLLOUT_def POLLERR_def POLLHUP_def POLLNVAL_def
  POLLRDHUP_def EPOLLET_def

definition kNoneEvent :: poll_events where "kNoneEvent = 0"
definition kReadEvent :: poll_events where "kReadEvent = POLLIN OR POLLPRI"
definition kReadEventET :: poll_events where "kReadEventET = POLLIN OR POLLPRI OR EPOLLET"
definition kWriteEvent :: poll_events where "kWriteEvent = POLLOUT"
definition kWriteEventET :: poll_events where "kWriteEventET = POLLOUT OR EPOLLET"

section \<open>Channels and the loop they belong to\<close>

record Channel =
  ch_fd :: int
  ch_events :: poll_events
  ch_revents :: poll_events
  ch_index :: int
  ch_tied :: bool
  ch_eventHandling :: bool
  ch_addedToLoop :: bool

definition Channel_ctor :: "int \<Rightarrow> Channel" where
  "Channel_ctor fd = \<lparr>ch_fd = fd, ch_events = 0, ch_revents = 0, ch_index = -1, ch_tied = False,
     ch_eventHandling = False, ch_addedToLoop = False\<rparr>"

definition isNoneEvent :: "Channel \<Rightarrow> bool" where
  "isNoneEvent ch \<longleftrightarrow> ch_events ch = kNoneEvent"

definition readEvent :: "bool \<Rightarrow> poll_events" where
  "readEvent et = (if et then kReadEventET else kReadEvent)"

definition writeEvent :: "bool \<Rightarrow> poll_events" where
  "writeEvent et = (if et then kWriteEventET else kWriteEvent)"

definition isWriting :: "Channel \<Rightarrow> bool" where
  "isWriting ch \<longleftrightarrow> ch_events ch AND kWriteEvent \<noteq> 0"

definition isReading :: "Channel \<Rightarrow> bool" where
  "isReading ch \<longleftrightarrow> ch_events ch AND kReadEvent \<noteq> 0"

text \<open>
  The loop: its channels, its poller (of any type), and the list of channels it is serving.  Other
  fields of \<^verbatim>\<open>EventLoop\<close> are in the theory of the loop.
\<close>

record 'p loop_state =
  chans :: "nat \<Rightarrow> Channel"
  poller :: 'p
  loop_eventHandling :: bool
  activeChannels :: "nat list"
  currentActiveChannel :: "nat option"

definition with_channel :: "nat \<Rightarrow> (Channel \<Rightarrow> Channel) \<Rightarrow> 'p loop_state \<Rightarrow> 'p loop_state" where
  "with_channel c f w = w\<lparr>chans := (chans w)(c := f (chans w c))\<rparr>"

definition Poller_hasChannel :: "(int \<Rightarrow> nat option) \<Rightarrow> nat \<Rightarrow> 'p loop_state \<Rightarrow> bool" where
  "Poller_hasChannel channels c w \<longleftrightarrow> channels (ch_fd (chans w c)) = Some c"

text \<open>\<open>upd\<close> and \<open>rem\<close> are the virtual functions \<^verbatim>\<open>updateChannel\<close> and \<^verbatim>\<open>removeChannel\<close> of the poller.\<close>

type_synonym 'p poller_op = "nat \<Rightarrow> 'p loop_state \<Rightarrow> 'p loop_state res"

definition EventLoop_updateChannel :: "'p poller_op \<Rightarrow> 'p poller_op" where
  "EventLoop_updateChannel upd c w = upd c w"

definition EventLoop_removeChannel :: "'p poller_op \<Rightarrow> 'p poller_op" where
  "EventLoop_removeChannel rem c w =
     (if loop_eventHandling w
      then require EventLoop_cc 240 (currentActiveChannel w = Some c \<or> c \<notin> set (activeChannels w)) (rem c w)
      else rem c w)"

definition Channel_update :: "'p poller_op \<Rightarrow> 'p poller_op" where
  "Channel_update upd c w =
     EventLoop_updateChannel upd c (with_channel c (\<lambda>ch. ch\<lparr>ch_addedToLoop := True\<rparr>) w)"

definition set_events :: "'p poller_op \<Rightarrow> (poll_events \<Rightarrow> poll_events) \<Rightarrow> 'p poller_op" where
  "set_events upd f c w = Channel_update upd c (with_channel c (\<lambda>ch. ch\<lparr>ch_events := f (ch_events ch)\<rparr>) w)"

definition enableReading :: "'p poller_op \<Rightarrow> bool \<Rightarrow> 'p poller_op" where
  "enableReading upd et = set_events upd (\<lambda>e. e OR readEvent et)"

definition disableReading :: "'p poller_op \<Rightarrow> bool \<Rightarrow> 'p poller_op" where
  "disableReading upd et = set_events upd (\<lambda>e. e AND NOT (readEvent et))"

definition enableWriting :: "'p poller_op \<Rightarrow> bool \<Rightarrow> 'p poller_op" where
  "enableWriting upd et = set_events upd (\<lambda>e. e OR writeEvent et)"

definition disableWriting :: "'p poller_op \<Rightarrow> bool \<Rightarrow> 'p poller_op" where
  "disableWriting upd et = set_events upd (\<lambda>e. e AND NOT (writeEvent et))"

definition disableAll :: "'p poller_op \<Rightarrow> 'p poller_op" where
  "disableAll upd = set_events upd (\<lambda>e. kNoneEvent)"

definition Channel_remove :: "'p poller_op \<Rightarrow> 'p poller_op" where
  "Channel_remove rem c w =
     require Channel_cc 64 (isNoneEvent (chans w c))
       (EventLoop_removeChannel rem c (with_channel c (\<lambda>ch. ch\<lparr>ch_addedToLoop := False\<rparr>) w))"

text \<open>
  The two tests for edge triggering assign: \<^verbatim>\<open>events_ &= ~kReadEvent\<close> where a test was meant.
\<close>

definition isETReading :: "nat \<Rightarrow> 'p loop_state \<Rightarrow> bool \<times> 'p loop_state" where
  "isETReading c w =
     (let w1 = with_channel c (\<lambda>ch. ch\<lparr>ch_events := ch_events ch AND NOT kReadEvent\<rparr>) w
      in (ch_events (chans w1 c) \<noteq> 0, w1))"

definition isETWriting :: "nat \<Rightarrow> 'p loop_state \<Rightarrow> bool \<times> 'p loop_state" where
  "isETWriting c w =
     (let w1 = with_channel c (\<lambda>ch. ch\<lparr>ch_events := ch_events ch AND NOT kWriteEvent\<rparr>) w
      in (ch_events (chans w1 c) \<noteq> 0, w1))"

definition tie :: "nat \<Rightarrow> 'p loop_state \<Rightarrow> 'p loop_state" where
  "tie c w = with_channel c (\<lambda>ch. ch\<lparr>ch_tied := True\<rparr>) w"

section \<open>Dispatch of the events of one channel\<close>

datatype callback_kind = CloseCallback | ErrorCallback | ReadCallback timestamp "16 word" | WriteCallback

definition bits_set :: "16 word \<Rightarrow> poll_events \<Rightarrow> bool" where
  "bits_set revents m \<longleftrightarrow> (scast revents :: poll_events) AND m \<noteq> 0"

text \<open>
  The calls that \<^verbatim>\<open>handleEventWithGuard\<close> makes, in their order; \<open>has k\<close> tells which callbacks the owner
  of the channel has set.  The \<^verbatim>\<open>short\<close> it takes is what remains of the events of the poller.
\<close>

definition callbacks_due :: "timestamp \<Rightarrow> 16 word \<Rightarrow> callback_kind list" where
  "callbacks_due receiveTime revents =
     (if bits_set revents POLLHUP \<and> \<not> bits_set revents POLLIN then [CloseCallback] else []) @
     (if bits_set revents (POLLERR OR POLLNVAL) then [ErrorCallback] else []) @
     (if bits_set revents (POLLIN OR POLLPRI OR POLLRDHUP) then [ReadCallback receiveTime revents] else []) @
     (if bits_set revents POLLOUT then [WriteCallback] else [])"

fun run_callbacks :: "(callback_kind \<Rightarrow> 's \<Rightarrow> 's res) \<Rightarrow> callback_kind list \<Rightarrow> 's \<Rightarrow> 's res" where
  "run_callbacks run [] w = Inr w"
| "run_callbacks run (k # ks) w = rbind (run k w) (run_callbacks run ks)"

definition handleEventWithGuard ::
  "(nat \<Rightarrow> callback_kind \<Rightarrow> 'p loop_state \<Rightarrow> 'p loop_state res) \<Rightarrow> timestamp \<Rightarrow> 16 word \<Rightarrow> 'p poller_op" where
  "handleEventWithGuard run receiveTime revents c w =
     rbind (run_callbacks (run c) (callbacks_due receiveTime revents)
              (with_channel c (\<lambda>ch. ch\<lparr>ch_eventHandling := True\<rparr>) w)) (\<lambda>w1.
     Inr (with_channel c (\<lambda>ch. ch\<lparr>ch_eventHandling := False\<rparr>) w1))"

text \<open>\<open>alive c\<close>: the object the channel is tied to still exists (\<^verbatim>\<open>tie_.lock()\<close> succeeds).\<close>

definition handleEvent ::
  "(nat \<Rightarrow> bool) \<Rightarrow> (nat \<Rightarrow> callback_kind \<Rightarrow> 'p loop_state \<Rightarrow> 'p loop_state res) \<Rightarrow> timestamp \<Rightarrow> 'p poller_op" where
  "handleEvent alive run receiveTime c w =
     (let revents = ucast (ch_revents (chans w c)) in
      if ch_tied (chans w c)
      then (if alive c then handleEventWithGuard run receiveTime revents c w else Inr w)
      else handleEventWithGuard run receiveTime revents c w)"

section \<open>Sequences of calls\<close>

datatype channel_call =
  EnableReading bool | DisableReading bool | EnableWriting bool | DisableWriting bool | DisableAll | Remove

fun do_call :: "'p poller_op \<Rightarrow> 'p poller_op \<Rightarrow> channel_call \<Rightarrow> 'p poller_op" where
  "do_call upd rem (EnableReading et) = enableReading upd et"
| "do_call upd rem (DisableReading et) = disableReading upd et"
| "do_call upd rem (EnableWriting et) = enableWriting upd et"
| "do_call upd rem (DisableWriting et) = disableWriting upd et"
| "do_call upd rem DisableAll = disableAll upd"
| "do_call upd rem Remove = Channel_remove rem"

fun do_calls :: "'p poller_op \<Rightarrow> 'p poller_op \<Rightarrow> (nat \<times> channel_call) list \<Rightarrow> 'p loop_state \<Rightarrow> 'p loop_state res" where
  "do_calls upd rem [] w = Inr w"
| "do_calls upd rem ((c, call) # calls) w = rbind (do_call upd rem call c w) (do_calls upd rem calls)"

text \<open>
  The specification: which channels are registered and the events each of them wants (\<open>s\<close>), and which have been
  removed (\<open>gone\<close>).  A call is admissible when it removes a channel that wants nothing, or registers a channel, not removed
  before, that wants something on a descriptor no other registered channel has, or changes a registered one.  There are \<open>n\<close>
  channels, channel \<open>c\<close> has the descriptor \<open>fds c\<close>.
\<close>

type_synonym spec_state = "(nat \<Rightarrow> poll_events option) \<times> nat list"

fun wanted :: "channel_call \<Rightarrow> poll_events \<Rightarrow> poll_events" where
  "wanted (EnableReading et) e = e OR readEvent et"
| "wanted (DisableReading et) e = e AND NOT (readEvent et)"
| "wanted (EnableWriting et) e = e OR writeEvent et"
| "wanted (DisableWriting et) e = e AND NOT (writeEvent et)"
| "wanted DisableAll e = 0"
| "wanted Remove e = e"

fun spec_call :: "nat \<Rightarrow> (nat \<Rightarrow> int) \<Rightarrow> nat \<Rightarrow> channel_call \<Rightarrow> spec_state \<Rightarrow> spec_state option" where
  "spec_call n fds c call (s, gone) =
     (if call = Remove then (if s c = Some 0 then Some (s(c := None), c # gone) else None)
      else let e = wanted call (case s c of Some e \<Rightarrow> e | None \<Rightarrow> 0) in
        if c < n \<and> (s c \<noteq> None \<or> c \<notin> set gone \<and> e \<noteq> 0 \<and> list_all (\<lambda>d. s d = None \<or> fds d \<noteq> fds c) [0..<n])
        then Some (s(c := Some e), gone) else None)"

declare spec_call.simps [simp del]

fun spec_calls :: "nat \<Rightarrow> (nat \<Rightarrow> int) \<Rightarrow> (nat \<times> channel_call) list \<Rightarrow> spec_state \<Rightarrow> spec_state option" where
  "spec_calls n fds [] s = Some s"
| "spec_calls n fds ((c, call) # calls) s =
     (case spec_call n fds c call s of None \<Rightarrow> None | Some s' \<Rightarrow> spec_calls n fds calls s')"

text \<open>What the system call should watch: the descriptors of the registered channels that want something.\<close>

definition spec_interest ::
  "nat \<Rightarrow> (nat \<Rightarrow> int) \<Rightarrow> (poll_events \<Rightarrow> poll_events) \<Rightarrow> (nat \<Rightarrow> poll_events option) \<Rightarrow> int \<Rightarrow> (nat \<times> poll_events) option" where
  "spec_interest n fds seen s fd =
     (case find (\<lambda>c. fds c = fd \<and> s c \<noteq> None \<and> s c \<noteq> Some 0) [0..<n] of
        None \<Rightarrow> None | Some c \<Rightarrow> Some (c, seen (the (s c))))"

section \<open>The contract of a poller\<close>

text \<open>
  \<open>interest w fd\<close> is what the system call will watch for: the channel and the events it sees of it
  (\<open>seen\<close>: the whole mask for epoll, the low half for poll).  \<open>registered w c\<close> tells whether the poller holds the channel,
  \<open>fresh w c\<close> whether it may be registered.
\<close>

definition same_loop :: "'p loop_state \<Rightarrow> 'p loop_state \<Rightarrow> bool" where
  "same_loop w w' \<longleftrightarrow> loop_eventHandling w' = loop_eventHandling w \<and> activeChannels w' = activeChannels w \<and>
     currentActiveChannel w' = currentActiveChannel w"

locale poller_contract =
  fixes upd :: "'p poller_op"
    and rem :: "'p poller_op"
    and seen :: "poll_events \<Rightarrow> poll_events"
    and registered :: "'p loop_state \<Rightarrow> nat \<Rightarrow> bool"
    and fresh :: "'p loop_state \<Rightarrow> nat \<Rightarrow> bool"
    and interest :: "'p loop_state \<Rightarrow> int \<Rightarrow> (nat \<times> poll_events) option"
    and invar :: "'p loop_state \<Rightarrow> bool"
  assumes upd_ok: "invar w \<Longrightarrow> 0 \<le> ch_fd (chans w c) \<Longrightarrow>
      registered w c \<or> fresh w c \<and> \<not> isNoneEvent (chans w c) \<and> (\<forall>d. registered w d \<longrightarrow> ch_fd (chans w d) \<noteq> ch_fd (chans w c)) \<Longrightarrow>
      \<exists>w'. upd c w = Inr w' \<and> invar w' \<and> same_loop w w' \<and>
        (\<forall>d. ch_events (chans w' d) = ch_events (chans w d) \<and> ch_fd (chans w' d) = ch_fd (chans w d)) \<and>
        registered w' = (registered w)(c := True) \<and> (\<forall>d. d \<noteq> c \<and> fresh w d \<longrightarrow> fresh w' d) \<and>
        interest w' = (interest w)(ch_fd (chans w c) :=
          if isNoneEvent (chans w c) then None else Some (c, seen (ch_events (chans w c))))"
    and rem_ok: "invar w \<Longrightarrow> registered w c \<Longrightarrow> isNoneEvent (chans w c) \<Longrightarrow> interest w (ch_fd (chans w c)) = None \<Longrightarrow>
      \<exists>w'. rem c w = Inr w' \<and> invar w' \<and> same_loop w w' \<and>
        (\<forall>d. ch_events (chans w' d) = ch_events (chans w d) \<and> ch_fd (chans w' d) = ch_fd (chans w d)) \<and>
        registered w' = (registered w)(c := False) \<and> (\<forall>d. d \<noteq> c \<and> fresh w d \<longrightarrow> fresh w' d) \<and>
        interest w' = interest w"
    and channels_free: "invar w \<Longrightarrow> poller w' = poller w \<Longrightarrow>
      (\<And>d. ch_fd (chans w' d) = ch_fd (chans w d) \<and> ch_index (chans w' d) = ch_index (chans w d)) \<Longrightarrow>
      invar w' \<and> registered w' = registered w \<and> fresh w' = fresh w \<and> interest w' = interest w"
begin

text \<open>The kernel watches exactly what the specification says.\<close>

definition in_step :: "nat \<Rightarrow> (nat \<Rightarrow> int) \<Rightarrow> (nat \<Rightarrow> poll_events option) \<Rightarrow> nat list \<Rightarrow> 'p loop_state \<Rightarrow> bool" where
  "in_step n fds s gone w \<longleftrightarrow> invar w \<and> \<not> loop_eventHandling w \<and>
     (\<forall>c. ch_fd (chans w c) = fds c) \<and>
     (\<forall>c. registered w c \<longleftrightarrow> s c \<noteq> None) \<and>
     (\<forall>c. s c \<noteq> None \<longrightarrow> c < n) \<and> (\<forall>c. s c = None \<and> c \<notin> set gone \<longrightarrow> fresh w c) \<and>
     (\<forall>c. ch_events (chans w c) = (case s c of Some e \<Rightarrow> e | None \<Rightarrow> 0)) \<and>
     (\<forall>c d. s c \<noteq> None \<and> s d \<noteq> None \<and> fds c = fds d \<longrightarrow> c = d) \<and>
     (\<forall>fd c e. interest w fd = Some (c, e) \<longleftrightarrow> fds c = fd \<and> (\<exists>e'. s c = Some e' \<and> e' \<noteq> 0 \<and> e = seen e'))"

lemma in_stepD:
  assumes "in_step n fds s gone w"
  shows "invar w" "\<not> loop_eventHandling w" "ch_fd (chans w c) = fds c" "registered w c \<longleftrightarrow> s c \<noteq> None"
    "s c \<noteq> None \<Longrightarrow> c < n" "ch_events (chans w c) = (case s c of Some e \<Rightarrow> e | None \<Rightarrow> 0)"
    "s c \<noteq> None \<Longrightarrow> s d \<noteq> None \<Longrightarrow> fds c = fds d \<Longrightarrow> c = d"
    "interest w fd = Some (c, e) \<longleftrightarrow> fds c = fd \<and> (\<exists>e'. s c = Some e' \<and> e' \<noteq> 0 \<and> e = seen e')"
    "s c = None \<Longrightarrow> c \<notin> set gone \<Longrightarrow> fresh w c"
  using assms unfolding in_step_def by blast+

lemma in_step_channels:
  assumes w: "in_step n fds s gone w" and "poller w1 = poller w"
    and "\<And>d. ch_fd (chans w1 d) = ch_fd (chans w d) \<and> ch_index (chans w1 d) = ch_index (chans w d)"
  shows "invar w1" "registered w1 c \<longleftrightarrow> s c \<noteq> None" "interest w1 = interest w" "ch_fd (chans w1 c) = fds c"
    "fresh w1 = fresh w"
  using channels_free [OF in_stepD(1) [OF w] assms(2,3)] in_stepD(3,4) [OF w] assms(3) by simp_all

lemma set_events_in_step:
  assumes w: "in_step n fds s gone w" and c: "c < n" "0 \<le> fds c"
    and e: "e = f (case s c of Some e \<Rightarrow> e | None \<Rightarrow> 0)"
    and adm: "s c \<noteq> None \<or> c \<notin> set gone \<and> e \<noteq> 0 \<and> (\<forall>d. s d = None \<or> fds d \<noteq> fds c)"
  shows "\<exists>w'. set_events upd f c w = Inr w' \<and> in_step n fds (s(c := Some e)) gone w'"
proof -
  define w1 where "w1 = with_channel c (\<lambda>ch. ch\<lparr>ch_addedToLoop := True\<rparr>)
    (with_channel c (\<lambda>ch. ch\<lparr>ch_events := f (ch_events ch)\<rparr>) w)"
  have ev: "ch_events (chans w1 d) = (if d = c then e else case s d of Some e \<Rightarrow> e | None \<Rightarrow> 0)" for d
    using e by (simp add: w1_def with_channel_def in_stepD(6) [OF w])
  have "poller w1 = poller w" "ch_fd (chans w1 d) = ch_fd (chans w d) \<and> ch_index (chans w1 d) = ch_index (chans w d)" for d
    by (simp_all add: w1_def with_channel_def)
  note w1 = in_step_channels [OF w this]
  have none: "isNoneEvent (chans w1 c) \<longleftrightarrow> e = 0" by (simp add: isNoneEvent_def kNoneEvent_def ev)
  have "registered w1 c \<or> fresh w1 c \<and> \<not> isNoneEvent (chans w1 c) \<and> (\<forall>d. registered w1 d \<longrightarrow> ch_fd (chans w1 d) \<noteq> ch_fd (chans w1 c))"
    unfolding w1 none using adm in_stepD(9) [OF w, of c] by metis
  with upd_ok [of w1 c, OF w1(1)] c(2) obtain w' where w': "upd c w1 = Inr w'" "invar w'" "same_loop w1 w'"
      "\<And>d. ch_events (chans w' d) = ch_events (chans w1 d) \<and> ch_fd (chans w' d) = ch_fd (chans w1 d)"
      "registered w' = (registered w1)(c := True)" "\<forall>d. d \<noteq> c \<and> fresh w1 d \<longrightarrow> fresh w' d"
      "interest w' = (interest w)(fds c := if e = 0 then None else Some (c, seen e))"
    unfolding none w1(3,4) using ev [of c] by auto
  have "set_events upd f c w = Inr w'"
    by (simp add: set_events_def Channel_update_def EventLoop_updateChannel_def w'(1) flip: w1_def)
  moreover have "in_step n fds (s(c := Some e)) gone w'"
    unfolding in_step_def
  proof (intro conjI allI)
    show "\<not> loop_eventHandling w'"
      using w'(3) in_stepD(2) [OF w] by (simp add: same_loop_def w1_def with_channel_def)
    fix x d e' d'
    have only: "s d = None \<or> fds d \<noteq> fds c" if "d \<noteq> c" for d
      using adm in_stepD(7) [OF w, of d c] that by blast
    show "(s(c := Some e)) d \<noteq> None \<and> (s(c := Some e)) d' \<noteq> None \<and> fds d = fds d' \<longrightarrow> d = d'"
      using only in_stepD(7) [OF w, of d d'] by (metis fun_upd_apply)
    show "interest w' x = Some (d, e') \<longleftrightarrow>
        fds d = x \<and> (\<exists>e''. (s(c := Some e)) d = Some e'' \<and> e'' \<noteq> 0 \<and> e' = seen e'')"
    proof (cases "x = fds c")
      case True
      with only [of d] show ?thesis by (auto simp: w'(7))
    next
      case False
      with in_stepD(8) [OF w, of x d e'] show ?thesis by (auto simp: w'(7))
    qed
    show "ch_events (chans w' d) = (case (s(c := Some e)) d of Some e \<Rightarrow> e | None \<Rightarrow> 0)"
      using w'(4) [of d] ev [of d] by simp
    show "(s(c := Some e)) d = None \<and> d \<notin> set gone \<longrightarrow> fresh w' d"
      using w'(6) in_stepD(9) [OF w, of d] by (simp add: w1(5))
    show "(s(c := Some e)) d \<noteq> None \<longrightarrow> d < n" using c(1) in_stepD(5) [OF w, of d] by simp
    show "registered w' d \<longleftrightarrow> (s(c := Some e)) d \<noteq> None" using w'(5) w1(2) by simp
    show "ch_fd (chans w' d) = fds d" using w'(4) w1(4) by simp
  qed (rule w'(2))
  ultimately show ?thesis by blast
qed

lemma remove_in_step:
  assumes w: "in_step n fds s gone w" and c: "s c = Some 0"
  shows "\<exists>w'. Channel_remove rem c w = Inr w' \<and> in_step n fds (s(c := None)) (c # gone) w'"
proof -
  define w1 where "w1 = with_channel c (\<lambda>ch. ch\<lparr>ch_addedToLoop := False\<rparr>) w"
  have ev: "ch_events (chans w1 d) = (case s d of Some e \<Rightarrow> e | None \<Rightarrow> 0)" for d
    by (simp add: w1_def with_channel_def in_stepD(6) [OF w])
  have "poller w1 = poller w" "ch_fd (chans w1 d) = ch_fd (chans w d) \<and> ch_index (chans w1 d) = ch_index (chans w d)" for d
    by (simp_all add: w1_def with_channel_def)
  note w1 = in_step_channels [OF w this]
  have unwatched: "interest w (fds c) = None"
  proof (rule ccontr)
    assume "interest w (fds c) \<noteq> None"
    then obtain d e where "interest w (fds c) = Some (d, e)" by auto
    then have "fds d = fds c" "s d \<noteq> None" "s d \<noteq> Some 0" by (auto simp: in_stepD(8) [OF w])
    with in_stepD(7) [OF w, of d c] c show False by auto
  qed
  moreover have none: "isNoneEvent (chans w1 c)" "isNoneEvent (chans w c)"
    using c by (simp_all add: ev in_stepD(6) [OF w] isNoneEvent_def kNoneEvent_def)
  ultimately obtain w' where w': "rem c w1 = Inr w'" "invar w'" "same_loop w1 w'"
      "\<And>d. ch_events (chans w' d) = ch_events (chans w1 d) \<and> ch_fd (chans w' d) = ch_fd (chans w1 d)"
      "registered w' = (registered w1)(c := False)" "\<forall>d. d \<noteq> c \<and> fresh w1 d \<longrightarrow> fresh w' d" "interest w' = interest w1"
    using rem_ok [of w1 c, OF w1(1)] w1(2) [of c] c w1(3,4) by auto
  have loop: "loop_eventHandling w1 = loop_eventHandling w" by (simp add: w1_def with_channel_def)
  then have "Channel_remove rem c w = Inr w'"
    using none(2) w'(1) in_stepD(2) [OF w]
    by (simp add: Channel_remove_def EventLoop_removeChannel_def flip: w1_def)
  moreover have "in_step n fds (s(c := None)) (c # gone) w'"
    unfolding in_step_def
  proof (intro conjI allI)
    show "\<not> loop_eventHandling w'" using w'(3) loop in_stepD(2) [OF w] by (simp add: same_loop_def)
    fix x d e' d'
    show "(s(c := None)) d \<noteq> None \<and> (s(c := None)) d' \<noteq> None \<and> fds d = fds d' \<longrightarrow> d = d'"
      using in_stepD(7) [OF w, of d d'] by (metis fun_upd_apply)
    show "interest w' x = Some (d, e') \<longleftrightarrow>
        fds d = x \<and> (\<exists>e''. (s(c := None)) d = Some e'' \<and> e'' \<noteq> 0 \<and> e' = seen e'')"
      using c in_stepD(8) [OF w, of x d e'] by (auto simp: w'(7) w1(3))
    show "ch_events (chans w' d) = (case (s(c := None)) d of Some e \<Rightarrow> e | None \<Rightarrow> 0)"
      using w'(4) [of d] ev [of d] c by simp
    show "(s(c := None)) d = None \<and> d \<notin> set (c # gone) \<longrightarrow> fresh w' d"
      using w'(6) in_stepD(9) [OF w, of d] by (simp add: w1(5))
    show "(s(c := None)) d \<noteq> None \<longrightarrow> d < n" using in_stepD(5) [OF w, of d] by simp
    show "registered w' d \<longleftrightarrow> (s(c := None)) d \<noteq> None" using w'(5) w1(2) by simp
    show "ch_fd (chans w' d) = fds d" using w'(4) w1(4) by simp
  qed (rule w'(2))
  ultimately show ?thesis by blast
qed

lemma do_call_in_step:
  assumes "in_step n fds s gone w" "\<And>c. c < n \<Longrightarrow> 0 \<le> fds c" "spec_call n fds c call (s, gone) = Some (s', gone')"
  shows "\<exists>w'. do_call upd rem call c w = Inr w' \<and> in_step n fds s' gone' w'"
proof (cases "call = Remove")
  case True
  with assms show ?thesis by (auto simp: spec_call.simps remove_in_step split: if_splits)
next
  case False
  define e where "e = wanted call (case s c of Some e \<Rightarrow> e | None \<Rightarrow> 0)"
  from assms(3) False have c: "c < n" and s': "s' = s(c := Some e)" "gone' = gone"
    and adm: "s c \<noteq> None \<or> c \<notin> set gone \<and> e \<noteq> 0 \<and> list_all (\<lambda>d. s d = None \<or> fds d \<noteq> fds c) [0..<n]"
    by (auto simp: spec_call.simps e_def Let_def split: if_splits)
  have adm': "s c \<noteq> None \<or> c \<notin> set gone \<and> e \<noteq> 0 \<and> (\<forall>d. s d = None \<or> fds d \<noteq> fds c)"
    using adm in_stepD(5) [OF assms(1)] unfolding list_all_iff set_upt by (metis atLeastLessThan_iff le0)
  have "do_call upd rem call c w = set_events upd (wanted call) c w"
    using False by (cases call) (simp_all add: enableReading_def disableReading_def enableWriting_def
        disableWriting_def disableAll_def kNoneEvent_def set_events_def)
  then show ?thesis
    using set_events_in_step [where f = "wanted call", OF assms(1) c assms(2) [OF c] e_def adm'] s' by simp
qed

lemma do_calls_in_step:
  assumes "in_step n fds s gone w" "\<And>c. c < n \<Longrightarrow> 0 \<le> fds c" "spec_calls n fds calls (s, gone) = Some (s', gone')"
  shows "\<exists>w'. do_calls upd rem calls w = Inr w' \<and> in_step n fds s' gone' w'"
  using assms(1,3)
proof (induction calls arbitrary: s gone w)
  case (Cons x calls)
  obtain c call where x: "x = (c, call)" by (cases x)
  with Cons.prems(2) obtain s1 gone1 where s1: "spec_call n fds c call (s, gone) = Some (s1, gone1)"
      "spec_calls n fds calls (s1, gone1) = Some (s', gone')"
    by (auto split: option.splits)
  obtain w1 where "do_call upd rem call c w = Inr w1" "in_step n fds s1 gone1 w1"
    using do_call_in_step [OF Cons.prems(1) assms(2) s1(1)] by blast
  with Cons.IH [OF _ s1(2)] show ?case by (simp add: x)
qed simp

lemma interest_spec:
  assumes "in_step n fds s gone w"
  shows "interest w = spec_interest n fds seen s"
proof
  fix fd
  let ?P = "\<lambda>c. fds c = fd \<and> s c \<noteq> None \<and> s c \<noteq> Some 0"
  show "interest w fd = spec_interest n fds seen s fd"
  proof (cases "find ?P [0..<n]")
    case None
    then have "\<not> ?P c" if "c < n" for c
      using that by (simp add: find_None_iff)
    then have none: "\<not> ?P c" for c using in_stepD(5) [OF assms, of c] by blast
    have "interest w fd = None"
    proof (rule ccontr)
      assume "interest w fd \<noteq> None"
      then obtain c e where "interest w fd = Some (c, e)" by auto
      then obtain e' where "fds c = fd" "s c = Some e'" "e' \<noteq> 0" by (auto simp: in_stepD(8) [OF assms])
      with none [of c] show False by simp
    qed
    then show ?thesis using None by (simp add: spec_interest_def)
  next
    case (Some c)
    then have "?P c" by (auto simp: find_Some_iff)
    then have "interest w fd = Some (c, seen (the (s c)))"
      using in_stepD(8) [OF assms, of fd c "seen (the (s c))"] by (cases "s c") simp_all
    then show ?thesis using Some by (simp add: spec_interest_def)
  qed
qed

end

end
