(* ===== verification/WS_Io.thy ===== *)
theory WS_Io
  imports WS_Buffer
begin

text \<open>
  Reading and writing until the system has no more to give or to take: \<^verbatim>\<open>IBytesBuffer::readFull\<close> and \<^verbatim>\<open>writeFull\<close>
  (\<^verbatim>\<open>libwebsocket/private/IBytesBuffer.cc\<close>), their counterparts over TLS (\<^verbatim>\<open>libwebsocket/ssl/ssl_iorw.cc\<close>) and the
  TLS handshake of a connection (\<^verbatim>\<open>libwebsocket/ssl/ssl.cc\<close>).

  The answers of the system calls and of OpenSSL are lists that the calls consume; a list that has run out answers as
  a socket that is not ready.  A failed call sets \<^verbatim>\<open>errno\<close>; a successful one leaves it as it was.
\<close>

section \<open>Answers of the system\<close>

definition EINTR :: int where "EINTR = 4"
definition EAGAIN :: int where "EAGAIN = 11"
definition EPIPE :: int where "EPIPE = 32"
definition ECONNRESET :: int where "ECONNRESET = 104"
definition EINPROGRESS :: int where "EINPROGRESS = 115"

definition SSL_ERROR_NONE :: int where "SSL_ERROR_NONE = 0"
definition SSL_ERROR_SSL :: int where "SSL_ERROR_SSL = 1"
definition SSL_ERROR_WANT_READ :: int where "SSL_ERROR_WANT_READ = 2"
definition SSL_ERROR_WANT_WRITE :: int where "SSL_ERROR_WANT_WRITE = 3"
definition SSL_ERROR_ZERO_RETURN :: int where "SSL_ERROR_ZERO_RETURN = 6"
definition SSL_ERROR_WANT_CONNECT :: int where "SSL_ERROR_WANT_CONNECT = 7"
definition SSL_ERROR_WANT_ACCEPT :: int where "SSL_ERROR_WANT_ACCEPT = 8"

lemmas errno_defs = EINTR_def EAGAIN_def EPIPE_def ECONNRESET_def EINPROGRESS_def
lemmas ssl_error_defs = SSL_ERROR_NONE_def SSL_ERROR_SSL_def SSL_ERROR_WANT_READ_def SSL_ERROR_WANT_WRITE_def
  SSL_ERROR_ZERO_RETURN_def SSL_ERROR_WANT_CONNECT_def SSL_ERROR_WANT_ACCEPT_def

text \<open>
  \<open>Got xs\<close>: the bytes \<open>xs\<close> have arrived, none when the peer has closed; a read takes as many of them as fit.
  \<open>Took k\<close>: there is room for \<open>k\<close> bytes.
\<close>

datatype read_answer = Got bytes | ReadFails int
datatype write_answer = Took nat | WriteFails int

text \<open>
  A TLS record is read piece by piece, \<^verbatim>\<open>SSL_pending\<close> is what is left of it; the empty record stands for the
  closing of the session.  \<open>Handshake e\<close> is the error of \<^verbatim>\<open>SSL_do_handshake\<close>, none when it is complete.
\<close>

datatype handshake_answer = SslNewFails | SslSetFdFails | Handshake int

section \<open>Plain sockets\<close>

fun answer_size :: "read_answer list \<Rightarrow> nat" where
  "answer_size [] = 0"
| "answer_size (Got xs # as) = Suc (length xs) + answer_size as"
| "answer_size (ReadFails e # as) = Suc (answer_size as)"

text \<open>What a read of at most \<open>writable\<close> bytes leaves of \<open>Got xs # as\<close>.\<close>

definition left_over :: "nat \<Rightarrow> bytes \<Rightarrow> read_answer list \<Rightarrow> read_answer list" where
  "left_over writable xs as = (if length xs \<le> writable then as else Got (drop writable xs) # as)"

lemma left_over_size [simp]: "0 < w \<Longrightarrow> xs \<noteq> [] \<Longrightarrow> answer_size (left_over w xs as) < Suc (length xs + answer_size as)"
  by (cases xs) (auto simp: left_over_def)

text \<open>\<^verbatim>\<open>::read\<close> into the room behind the writer index, and \<^verbatim>\<open>hasWritten\<close>.\<close>

definition store :: "Buffer \<Rightarrow> bytes \<Rightarrow> Buffer res" where
  "store buf xs = hasWritten (buf\<lparr>vec := write_at (vec buf) (beginWrite buf) xs\<rparr>) (length xs)"

text \<open>The result: the bytes read, the last return value, \<^verbatim>\<open>errno\<close>, the answers left and the buffer.\<close>

function readFull_loop ::
  "Buffer \<Rightarrow> nat \<Rightarrow> int \<Rightarrow> read_answer list \<Rightarrow> (nat \<times> int \<times> int \<times> read_answer list \<times> Buffer) res" where
  "readFull_loop buf n errno as =
     rbind (if writableBytes buf = 0 then ensureWritableBytes buf 4096 else Inr buf) (\<lambda>buf1.
     case as of
       [] \<Rightarrow> Inr (n, -1, EAGAIN, [], buf1)
     | ReadFails e # as1 \<Rightarrow> Inr (n, -1, e, as1, buf1)
     | Got xs # as1 \<Rightarrow>
         (let ys = take (writableBytes buf1) xs; as2 = left_over (writableBytes buf1) xs as1 in
          if ys \<noteq> [] then rbind (store buf1 ys) (\<lambda>buf2. readFull_loop buf2 (n + length ys) errno as2)
          else Inr (n, 0, errno, as2, buf1)))"
  by pat_completeness auto
termination
  by (relation "measure (\<lambda>(buf, n, errno, as). answer_size as)") auto

declare readFull_loop.simps [simp del]

definition readFull :: "int \<Rightarrow> read_answer list \<Rightarrow> Buffer \<Rightarrow> (nat \<times> int \<times> int \<times> read_answer list \<times> Buffer) res" where
  "readFull errno as buf = readFull_loop buf 0 errno as"

fun writeFull_loop :: "bytes \<Rightarrow> nat \<Rightarrow> int \<Rightarrow> int \<Rightarrow> write_answer list \<Rightarrow> nat \<times> int \<times> int \<times> write_answer list" where
  "writeFull_loop data n savedErrno errno [] =
     (if n < length data then (n, -1, EAGAIN, []) else (n, savedErrno, errno, []))"
| "writeFull_loop data n savedErrno errno (a # as) =
     (if n < length data
      then case a of
          Took k \<Rightarrow> (let rc = min k (length data - n) in
             if rc > 0 then writeFull_loop data (n + rc) (int rc) errno as else (n, 0, errno, as))
        | WriteFails e \<Rightarrow> (n, -1, e, as)
      else (n, savedErrno, errno, a # as))"

text \<open>\<^verbatim>\<open>savedErrno\<close> of the caller is zero, and stays so when there is nothing to write.\<close>

definition writeFull :: "int \<Rightarrow> bytes \<Rightarrow> write_answer list \<Rightarrow> nat \<times> int \<times> int \<times> write_answer list" where
  "writeFull errno data as = writeFull_loop data 0 0 errno as"

section \<open>TLS\<close>

function SSL_read_loop ::
  "Buffer \<Rightarrow> nat \<Rightarrow> int \<Rightarrow> read_answer list \<Rightarrow> (nat \<times> int \<times> read_answer list \<times> Buffer) res" where
  "SSL_read_loop buf n savedErrno as =
     rbind (if writableBytes buf = 0 then ensureWritableBytes buf 4096 else Inr buf) (\<lambda>buf1.
     case as of
       [] \<Rightarrow> Inr (n, SSL_ERROR_WANT_READ, [], buf1)
     | ReadFails e # as1 \<Rightarrow> Inr (n, e, as1, buf1)
     | Got xs # as1 \<Rightarrow>
         (let writable = writableBytes buf1; ys = take writable xs; left = length xs - writable in
          if ys \<noteq> []
          then rbind (store buf1 ys) (\<lambda>buf2.
            if left > 0
            then rbind (if left > writableBytes buf2 then ensureWritableBytes buf2 left else Inr buf2) (\<lambda>buf3.
              SSL_read_loop buf3 (n + length ys) savedErrno (left_over writable xs as1))
            else Inr (n + length ys, savedErrno, as1, buf2))
          else Inr (n, SSL_ERROR_ZERO_RETURN, as1, buf1)))"
  by pat_completeness auto
termination
  by (relation "measure (\<lambda>(buf, n, e, as). answer_size as)") auto

declare SSL_read_loop.simps [simp del]

definition SSL_read :: "read_answer list \<Rightarrow> Buffer \<Rightarrow> (nat \<times> int \<times> read_answer list \<times> Buffer) res" where
  "SSL_read as buf = SSL_read_loop buf 0 SSL_ERROR_NONE as"

fun SSL_write_loop :: "bytes \<Rightarrow> nat \<Rightarrow> int \<Rightarrow> write_answer list \<Rightarrow> nat \<times> int \<times> write_answer list" where
  "SSL_write_loop data n savedErrno [] =
     (if n < length data then (n, SSL_ERROR_WANT_WRITE, []) else (n, savedErrno, []))"
| "SSL_write_loop data n savedErrno (a # as) =
     (if n < length data
      then case a of
          Took k \<Rightarrow> (let rc = min k (length data - n) in
             if rc > 0 then SSL_write_loop data (n + rc) savedErrno as else (n, SSL_ERROR_ZERO_RETURN, as))
        | WriteFails e \<Rightarrow> (n, e, as)
      else (n, savedErrno, a # as))"

definition SSL_write :: "bytes \<Rightarrow> write_answer list \<Rightarrow> nat \<times> int \<times> write_answer list" where
  "SSL_write data as = SSL_write_loop data 0 SSL_ERROR_NONE as"

text \<open>
  \<open>SSL_handshake ssl as\<close> for a connection with a context: whether the session \<open>ssl\<close> exists before; the result, the
  error, whether it exists afterwards, and the answers left.
\<close>

definition SSL_keeps :: "int \<Rightarrow> bool" where
  "SSL_keeps e \<longleftrightarrow> e \<in> {SSL_ERROR_WANT_READ, SSL_ERROR_WANT_WRITE, SSL_ERROR_ZERO_RETURN, SSL_ERROR_WANT_CONNECT, SSL_ERROR_WANT_ACCEPT}"

fun SSL_do_handshake :: "handshake_answer list \<Rightarrow> int \<times> handshake_answer list" where
  "SSL_do_handshake [] = (SSL_ERROR_WANT_READ, [])"
| "SSL_do_handshake (Handshake e # as) = (e, as)"
| "SSL_do_handshake (_ # as) = SSL_do_handshake as"

definition SSL_handshake :: "bool \<Rightarrow> handshake_answer list \<Rightarrow> bool \<times> int \<times> bool \<times> handshake_answer list" where
  "SSL_handshake ssl as =
     (if \<not> ssl \<and> as \<noteq> [] \<and> hd as \<in> {SslNewFails, SslSetFdFails} then (False, SSL_ERROR_NONE, False, tl as)
      else let (e, as1) = SSL_do_handshake as in
        if e \<noteq> SSL_ERROR_NONE then (False, e, SSL_keeps e, as1) else (True, SSL_ERROR_NONE, True, as1))"

section \<open>What they do\<close>

text \<open>The bytes that arrive before the first answer that is not data.\<close>

fun arrived :: "read_answer list \<Rightarrow> bytes" where
  "arrived [] = []"
| "arrived (Got xs # as) = (if xs = [] then [] else xs @ arrived as)"
| "arrived (ReadFails e # as) = []"

text \<open>The return value and \<^verbatim>\<open>errno\<close> of the read that ended it.\<close>

fun read_end :: "int \<Rightarrow> read_answer list \<Rightarrow> int \<times> int" where
  "read_end errno [] = (-1, EAGAIN)"
| "read_end errno (Got xs # as) = (if xs = [] then (0, errno) else read_end errno as)"
| "read_end errno (ReadFails e # as) = (-1, e)"

lemma store_ok:
  assumes "buffer_inv b" "length xs \<le> writableBytes b"
  shows "\<exists>b'. store b xs = Inr b' \<and> buffer_inv b' \<and> content b' = content b @ xs"
proof -
  have "writerIndex b + length xs \<le> length (vec b)"
    using assms by (auto simp: size_defs buffer_inv_def)
  then have "length xs \<le> writableBytes (b\<lparr>vec := write_at (vec b) (writerIndex b) xs\<rparr>)"
    by (simp add: size_defs)
  then show ?thesis
    using write_content [OF assms] by (simp add: store_def hasWritten_def beginWrite_def)
qed

lemma make_room:
  assumes "buffer_inv b"
  shows "\<exists>b'. (if writableBytes b = 0 then ensureWritableBytes b 4096 else Inr b) = Inr b' \<and> buffer_inv b' \<and> content b' = content b \<and>
     0 < writableBytes b'"
  using ensureWritableBytes_ok [OF assms, of 4096] assms by auto

lemma arrived_left_over:
  assumes "0 < w" "xs \<noteq> []"
  shows "take w xs @ arrived (left_over w xs as) = xs @ arrived as" "read_end e (left_over w xs as) = read_end e as"
  using assms by (auto simp: left_over_def)

lemma readFull_loop_ok:
  assumes "buffer_inv b"
  shows "\<exists>as' b'. readFull_loop b n errno as = Inr (n + length (arrived as), fst (read_end errno as), snd (read_end errno as), as', b') \<and>
     buffer_inv b' \<and> content b' = content b @ arrived as"
  using assms
proof (induction b n errno as rule: readFull_loop.induct)
  case (1 b n errno as)
  obtain b1 where b1: "(if writableBytes b = 0 then ensureWritableBytes b 4096 else Inr b) = Inr b1"
      "buffer_inv b1" "content b1 = content b" "0 < writableBytes b1"
    using make_room [OF "1.prems"] by blast
  show ?case
  proof (cases as)
    case Nil
    then show ?thesis using b1 by (simp add: readFull_loop.simps [of b])
  next
    case (Cons a as1)
    show ?thesis
    proof (cases a)
      case (ReadFails e)
      then show ?thesis using b1 Cons by (simp add: readFull_loop.simps [of b])
    next
      case (Got xs)
      let ?w = "writableBytes b1"
      show ?thesis
      proof (cases "xs = []")
        case True
        then show ?thesis using b1 Cons Got by (simp add: readFull_loop.simps [of b])
      next
        case False
        obtain b2 where b2: "store b1 (take ?w xs) = Inr b2" "buffer_inv b2" "content b2 = content b @ take ?w xs"
          using store_ok [OF b1(2), of "take ?w xs"] b1(3) by auto
        from "1.IH" [of b1 a as1 xs "take ?w xs" "left_over ?w xs as1" b2] Cons Got False b1(1,4) b2(1,2)
        have ih: "\<exists>as' b'. readFull_loop b2 (n + length (take ?w xs)) errno (left_over ?w xs as1) =
             Inr (n + length (take ?w xs) + length (arrived (left_over ?w xs as1)), fst (read_end errno (left_over ?w xs as1)),
               snd (read_end errno (left_over ?w xs as1)), as', b') \<and>
             buffer_inv b' \<and> content b' = content b2 @ arrived (left_over ?w xs as1)" by simp
        have len: "length (take ?w xs) + length (arrived (left_over ?w xs as1)) = length (xs @ arrived as1)"
          using arrived_left_over(1) [OF b1(4) False, of as1] by (metis length_append)
        have run: "readFull_loop b n errno as = readFull_loop b2 (n + length (take ?w xs)) errno (left_over ?w xs as1)"
          using b1(1,4) Cons Got False b2(1) by (simp add: readFull_loop.simps [of b] Let_def)
        show ?thesis
          using ih len unfolding run arrived_left_over(2) [OF b1(4) False] b2(3) append_assoc
            arrived_left_over(1) [OF b1(4) False] by (simp add: Cons Got False add.assoc)
      qed
    qed
  qed
qed

text \<open>
  A run of writes ends when everything is written, or at an answer that is not progress: no room at all, or a failure.
\<close>

definition write_ends :: "bytes \<Rightarrow> write_answer list \<Rightarrow> int \<Rightarrow> nat \<Rightarrow> int \<Rightarrow> int \<Rightarrow> bool" where
  "write_ends data as e n s e' \<longleftrightarrow>
     n = length data \<and> s > 0 \<and> e' = e \<or>
     n < length data \<and> (s = 0 \<and> e' = e \<and> Took 0 \<in> set as \<or> s = -1 \<and> (e' = EAGAIN \<or> WriteFails e' \<in> set as))"

lemma writeFull_loop_ends:
  assumes "n < length data" "writeFull_loop data n s e as = (n', s', e', as')"
  shows "n \<le> n' \<and> set as' \<subseteq> set as \<and> write_ends data as e n' s' e'"
  using assms
proof (induction as arbitrary: n s)
  case (Cons a as)
  show ?case
  proof (cases a)
    case (Took k)
    define rc where "rc = min k (length data - n)"
    show ?thesis
    proof (cases "0 < rc \<and> n + rc < length data")
      case True
      then have "n + rc \<le> n' \<and> set as' \<subseteq> set as \<and> write_ends data as e n' s' e'"
        using Cons.IH [of "n + rc" "int rc"] Cons.prems Took by (simp add: rc_def Let_def split: if_splits)
      then show ?thesis by (auto simp: write_ends_def)
    next
      case False
      show ?thesis
      proof (cases "0 < rc")
        case True
        then have "n + rc = length data" using False by (simp add: rc_def)
        moreover from this have "writeFull_loop data (n + rc) (int rc) e as = (n + rc, int rc, e, as)" by (cases as) simp_all
        ultimately show ?thesis using Cons.prems Took True by (auto simp: write_ends_def Let_def simp flip: rc_def)
      next
        case False
        then have "k = 0" using Cons.prems(1) by (auto simp: rc_def)
        then show ?thesis using Cons.prems Took by (auto simp: write_ends_def)
      qed
    qed
  qed (use Cons.prems in \<open>auto simp: write_ends_def\<close>)
qed (auto simp: write_ends_def)

lemma writeFull_ends:
  assumes "data \<noteq> []" "writeFull e data as = (n, s, e', as')"
  shows "set as' \<subseteq> set as" "write_ends data as e n s e'"
  using writeFull_loop_ends [of 0 data 0 e as n s e' as'] assms by (simp_all add: writeFull_def)

lemma writeFull_nothing: "writeFull e [] as = (0, 0, e, as)"
  by (cases as) (simp_all add: writeFull_def)

lemma writeFull_le: "writeFull e data as = (n, s, e', as') \<Longrightarrow> n \<le> length data"
  using writeFull_ends(2) [of data e as n s e' as'] by (cases "data = []") (auto simp: writeFull_nothing write_ends_def)

text \<open>Room for everything at once.\<close>

lemma writeFull_whole: "data \<noteq> [] \<Longrightarrow> length data \<le> k \<Longrightarrow> writeFull e data (Took k # as) = (length data, int (length data), e, as)"
  by (cases as) (simp_all add: writeFull_def Let_def)

lemma writeFull_blocked: "data \<noteq> [] \<Longrightarrow> writeFull e data (WriteFails f # as) = (0, -1, f, as)" "data \<noteq> [] \<Longrightarrow> writeFull e data [] = (0, -1, EAGAIN, [])"
  by (simp_all add: writeFull_def)

end
