(* ===== verification/WS_Tcp.thy ===== *)
theory WS_Tcp
  imports WS_Channel WS_Io
begin

text \<open>
  \<^verbatim>\<open>TcpConnection\<close> (\<^verbatim>\<open>net/TcpConnection.h\<close>, \<^verbatim>\<open>net/TcpConnection.cc\<close>): one connection, on the thread of its loop.

  The state of the connection includes what surrounds it: \<^verbatim>\<open>errno\<close> of the thread, the answers the system will give, the bytes it has
  accepted in the clear (\<open>tc_sent\<close>) and those given to TLS (\<open>tc_tlsSent\<close>), whether the sending side is shut down (\<open>tc_fin\<close>), the functors queued in the loop, the calls the
  connection made on its channel (\<open>tc_polls\<close>), whether its owner still holds it (\<open>tc_registered\<close>), and the callbacks it made and the messages it accepted with the bytes written
  at once (\<open>tc_trace\<close>).  What a poller does with the calls on the channel
  is in \<^verbatim>\<open>WS_Poll\<close>.

  The assertions of this file are compiled out (\<^verbatim>\<open>EventLoop.h\<close> defines \<^verbatim>\<open>NDEBUG\<close> before \<^verbatim>\<open>assert.h\<close> is included for the last time),
  so the model has none of them; those of \<^verbatim>\<open>Buffer.h\<close> and \<^verbatim>\<open>Channel.cc\<close> are in force.
\<close>

section \<open>State\<close>

datatype StateE = kDisconnected | kConnecting | kConnected | kDisconnecting

datatype pending_functor =
    WriteCompleteCallback | HighWaterMarkCallback nat | ForceCloseInLoop | SendInLoop bytes | ShutdownInLoop
  | StartReadInLoop | StopReadInLoop | ConnectDestroyed

datatype tcp_callback = ConnectionCalled StateE | MessageCalled timestamp | CloseCalled | SendAccepted bytes nat

record 'w TcpConnection =
  tc_state :: StateE
  tc_reading :: bool
  tc_channel :: Channel
  tc_highWaterMark :: nat
  tc_inputBuffer :: Buffer
  tc_outputBuffer :: Buffer
  tc_et :: bool
  tc_ssl_ctx :: bool
  tc_ssl :: bool
  tc_sslConnected :: bool
  tc_wsContext :: "'w option"
  tc_errno :: int
  tc_reads :: "read_answer list"
  tc_writes :: "write_answer list"
  tc_handshakes :: "handshake_answer list"
  tc_sent :: bytes
  tc_tlsSent :: bytes
  tc_fin :: bool
  tc_queue :: "pending_functor list"
  tc_delayed :: "int list"
  tc_polls :: "channel_call list"
  tc_registered :: bool
  tc_trace :: "tcp_callback list"

text \<open>
  The callbacks of the user that the connection calls itself, and whether those it queues are set.
\<close>

record 'w tcp_callbacks =
  connectionCallback :: "'w TcpConnection \<Rightarrow> 'w TcpConnection res"
  closeCallback :: "'w TcpConnection \<Rightarrow> 'w TcpConnection res"
  writeCompleteCallback :: bool
  highWaterMarkCallback :: bool

definition TcpConnection_ctor :: "int \<Rightarrow> bool \<Rightarrow> bool \<Rightarrow> 'w TcpConnection" where
  "TcpConnection_ctor sockfd ctx et =
     \<lparr>tc_state = kConnecting, tc_reading = True, tc_channel = Channel_ctor sockfd, tc_highWaterMark = 64 * 1024 * 1024,
      tc_inputBuffer = Buffer_ctor kInitialSize, tc_outputBuffer = Buffer_ctor kInitialSize, tc_et = et,
      tc_ssl_ctx = ctx, tc_ssl = False, tc_sslConnected = False, tc_wsContext = None,
      tc_errno = 0, tc_reads = [], tc_writes = [], tc_handshakes = [], tc_sent = [], tc_tlsSent = [], tc_fin = False, tc_queue = [],
      tc_delayed = [], tc_polls = [], tc_registered = True, tc_trace = []\<rparr>"

section \<open>The channel and the loop\<close>

text \<open>A call of the channel that changes its events, and the update of the poller it causes.\<close>

definition tc_call :: "channel_call \<Rightarrow> 'w TcpConnection \<Rightarrow> 'w TcpConnection" where
  "tc_call call c = c\<lparr>tc_channel := (tc_channel c)\<lparr>ch_events := wanted call (ch_events (tc_channel c)), ch_addedToLoop := True\<rparr>,
     tc_polls := tc_polls c @ [call]\<rparr>"

definition tc_remove :: "'w TcpConnection \<Rightarrow> 'w TcpConnection res" where
  "tc_remove c = require Channel_cc 64 (isNoneEvent (tc_channel c))
     (Inr (c\<lparr>tc_channel := (tc_channel c)\<lparr>ch_addedToLoop := False\<rparr>, tc_polls := tc_polls c @ [Remove]\<rparr>))"

definition tc_isETReading :: "'w TcpConnection \<Rightarrow> bool \<times> 'w TcpConnection" where
  "tc_isETReading c =
     (let e = ch_events (tc_channel c) AND NOT kReadEvent
      in (e \<noteq> 0, c\<lparr>tc_channel := (tc_channel c)\<lparr>ch_events := e\<rparr>\<rparr>))"

definition QueueInLoop :: "pending_functor \<Rightarrow> 'w TcpConnection \<Rightarrow> 'w TcpConnection" where
  "QueueInLoop f c = c\<lparr>tc_queue := tc_queue c @ [f]\<rparr>"

section \<open>Closing\<close>

definition call_connection :: "'w tcp_callbacks \<Rightarrow> 'w TcpConnection \<Rightarrow> 'w TcpConnection res" where
  "call_connection cb c = connectionCallback cb (c\<lparr>tc_trace := tc_trace c @ [ConnectionCalled (tc_state c)]\<rparr>)"

definition handleClose :: "'w tcp_callbacks \<Rightarrow> 'w TcpConnection \<Rightarrow> 'w TcpConnection res" where
  "handleClose cb c =
     rbind (call_connection cb (tc_call DisableAll (c\<lparr>tc_ssl := False, tc_state := kDisconnected\<rparr>))) (\<lambda>c1.
     closeCallback cb (c1\<lparr>tc_trace := tc_trace c1 @ [CloseCalled]\<rparr>))"

section \<open>Sending\<close>

text \<open>What \<^verbatim>\<open>sendInLoop\<close> does about the outcome of the write, by the last return value and \<^verbatim>\<open>errno\<close>.\<close>

definition sendInLoop_errno :: "'w tcp_callbacks \<Rightarrow> int \<Rightarrow> 'w TcpConnection \<Rightarrow> 'w TcpConnection res" where
  "sendInLoop_errno cb savedErrno c =
     (if savedErrno > 0
      then (if tc_errno c \<in> {EINPROGRESS, EAGAIN, EINTR} then Inr (c\<lparr>tc_errno := 0\<rparr>)
            else if tc_errno c = 0 then Inr c else handleClose cb c)
      else if savedErrno = 0 then handleClose cb c
      else (if tc_errno c \<in> {EAGAIN, EINTR} then Inr (c\<lparr>tc_errno := 0\<rparr>)
            else if tc_errno c = 0 then Inr c else handleClose cb c))"

text \<open>Writing at once, when nothing is waiting: the new state, \<^verbatim>\<open>nwrote\<close>, \<^verbatim>\<open>remaining\<close> and \<^verbatim>\<open>faultError\<close>.\<close>

definition sendInLoop_write ::
  "'w tcp_callbacks \<Rightarrow> bytes \<Rightarrow> 'w TcpConnection \<Rightarrow> (nat \<times> nat \<times> bool \<times> 'w TcpConnection) res" where
  "sendInLoop_write cb data c =
     (if \<not> tc_ssl c
      then let (n, savedErrno, errno, as) = writeFull (tc_errno c) data (tc_writes c);
               c1 = c\<lparr>tc_errno := errno, tc_writes := as, tc_sent := tc_sent c @ take n data, tc_trace := tc_trace c @ [SendAccepted data n]\<rparr>;
               remaining = length data - n;
               c2 = (if remaining = 0 \<and> writeCompleteCallback cb then QueueInLoop WriteCompleteCallback c1 else c1)
           in rbind (sendInLoop_errno cb savedErrno c2) (\<lambda>c3.
              Inr (0, remaining,
                tc_errno c3 \<noteq> EAGAIN \<and> tc_errno c3 \<noteq> EINTR \<and> (tc_errno c3 = EPIPE \<or> tc_errno c3 = ECONNRESET), c3))
      else let (n, savedErrno, as) = SSL_write data (tc_writes c);
               c1 = c\<lparr>tc_writes := as, tc_tlsSent := tc_tlsSent c @ take n data, tc_trace := tc_trace c @ [SendAccepted data n]\<rparr>;
               remaining = length data - n;
               c2 = (if remaining = 0 \<and> writeCompleteCallback cb then QueueInLoop WriteCompleteCallback c1 else c1)
           in rbind (if savedErrno = SSL_ERROR_WANT_WRITE \<or> savedErrno = 0 then Inr c2 else handleClose cb c2) (\<lambda>c3.
              Inr (n, remaining, False, c3)))"

text \<open>What could not be written goes to the output buffer.\<close>

definition sendInLoop_append :: "'w tcp_callbacks \<Rightarrow> bytes \<Rightarrow> 'w TcpConnection \<Rightarrow> 'w TcpConnection res" where
  "sendInLoop_append cb rest c =
     (let oldLen = readableBytes (tc_outputBuffer c); remaining = length rest;
          c1 = (if oldLen + remaining \<ge> tc_highWaterMark c \<and> oldLen < tc_highWaterMark c \<and> highWaterMarkCallback cb
                then QueueInLoop (HighWaterMarkCallback (oldLen + remaining)) c else c)
      in rbind (append (tc_outputBuffer c1) rest) (\<lambda>out.
         let c2 = c1\<lparr>tc_outputBuffer := out\<rparr>
         in Inr (if \<not> isWriting (tc_channel c2) then tc_call (EnableWriting (tc_et c2)) c2 else c2)))"

definition sendInLoop :: "'w tcp_callbacks \<Rightarrow> bytes \<Rightarrow> 'w TcpConnection \<Rightarrow> 'w TcpConnection res" where
  "sendInLoop cb data c =
     (if tc_state c = kDisconnected then Inr c
      else
        rbind (if \<not> isWriting (tc_channel c) \<and> readableBytes (tc_outputBuffer c) = 0
               then sendInLoop_write cb data c
               else Inr (0, length data, False, c\<lparr>tc_trace := tc_trace c @ [SendAccepted data 0]\<rparr>)) (\<lambda>(nwrote, remaining, faultError, c1).
        if \<not> faultError \<and> remaining > 0 then sendInLoop_append cb (take remaining (drop nwrote data)) c1 else Inr c1))"

text \<open>\<open>inLoop\<close>: the caller is on the thread of the loop.\<close>

definition send :: "bool \<Rightarrow> 'w tcp_callbacks \<Rightarrow> bytes \<Rightarrow> 'w TcpConnection \<Rightarrow> 'w TcpConnection res" where
  "send inLoop cb message c =
     (if tc_state c = kConnected
      then if inLoop then sendInLoop cb message c else Inr (QueueInLoop (SendInLoop message) c)
      else Inr c)"

text \<open>\<^verbatim>\<open>send(Buffer*)\<close> also empties the buffer, when the connection is up.\<close>

definition send_buffer :: "bool \<Rightarrow> 'w tcp_callbacks \<Rightarrow> Buffer \<Rightarrow> 'w TcpConnection \<Rightarrow> (Buffer \<times> 'w TcpConnection) res" where
  "send_buffer inLoop cb buf c =
     (if tc_state c = kConnected
      then if inLoop then rbind (sendInLoop cb (toStringPiece buf) c) (\<lambda>c1. Inr (retrieveAll buf, c1))
           else rbind (retrieveAllAsString buf) (\<lambda>(message, buf1). Inr (buf1, QueueInLoop (SendInLoop message) c))
      else Inr (buf, c))"

section \<open>Shutting down\<close>

definition shutdownInLoop :: "'w TcpConnection \<Rightarrow> 'w TcpConnection" where
  "shutdownInLoop c = (if \<not> isWriting (tc_channel c) then c\<lparr>tc_fin := True\<rparr> else c)"

definition shutdown :: "bool \<Rightarrow> 'w TcpConnection \<Rightarrow> 'w TcpConnection" where
  "shutdown inLoop c =
     (if tc_state c = kConnected
      then let c1 = c\<lparr>tc_state := kDisconnecting\<rparr> in if inLoop then shutdownInLoop c1 else QueueInLoop ShutdownInLoop c1
      else c)"

definition forceClose :: "'w TcpConnection \<Rightarrow> 'w TcpConnection" where
  "forceClose c =
     (if tc_state c = kConnected \<or> tc_state c = kDisconnecting
      then QueueInLoop ForceCloseInLoop (c\<lparr>tc_state := kDisconnecting\<rparr>) else c)"

text \<open>The timer calls \<^verbatim>\<open>forceClose\<close> if the connection still exists then.\<close>

definition forceCloseWithDelay :: "int \<Rightarrow> 'w TcpConnection \<Rightarrow> 'w TcpConnection" where
  "forceCloseWithDelay seconds c =
     (if tc_state c = kConnected \<or> tc_state c = kDisconnecting
      then c\<lparr>tc_state := kDisconnecting, tc_delayed := tc_delayed c @ [seconds]\<rparr> else c)"

definition forceCloseInLoop :: "'w tcp_callbacks \<Rightarrow> 'w TcpConnection \<Rightarrow> 'w TcpConnection res" where
  "forceCloseInLoop cb c =
     (if tc_state c = kConnected \<or> tc_state c = kDisconnecting then handleClose cb c else Inr c)"

section \<open>Reading on and off\<close>

definition startReadInLoop :: "'w TcpConnection \<Rightarrow> 'w TcpConnection" where
  "startReadInLoop c =
     (if \<not> tc_reading c \<or> \<not> isReading (tc_channel c)
      then (tc_call (EnableReading (tc_et c)) c)\<lparr>tc_reading := True\<rparr> else c)"

definition startRead :: "bool \<Rightarrow> 'w TcpConnection \<Rightarrow> 'w TcpConnection" where
  "startRead inLoop c = (if inLoop then startReadInLoop c else QueueInLoop StartReadInLoop c)"

definition stopReadInLoop :: "'w TcpConnection \<Rightarrow> 'w TcpConnection" where
  "stopReadInLoop c =
     (if tc_reading c \<or> isReading (tc_channel c)
      then (tc_call (DisableReading (tc_et c)) c)\<lparr>tc_reading := False\<rparr> else c)"

definition stopRead :: "bool \<Rightarrow> 'w TcpConnection \<Rightarrow> 'w TcpConnection" where
  "stopRead inLoop c = (if inLoop then stopReadInLoop c else QueueInLoop StopReadInLoop c)"

section \<open>Beginning and end\<close>

definition connectEstablished :: "'w tcp_callbacks \<Rightarrow> 'w TcpConnection \<Rightarrow> 'w TcpConnection res" where
  "connectEstablished cb c =
     (let c1 = c\<lparr>tc_state := kConnected, tc_channel := (tc_channel c)\<lparr>ch_tied := True\<rparr>\<rparr>
      in call_connection cb (tc_call (EnableReading (tc_et c1)) c1))"

definition connectDestroyed :: "'w tcp_callbacks \<Rightarrow> 'w TcpConnection \<Rightarrow> 'w TcpConnection res" where
  "connectDestroyed cb c =
     rbind (if tc_state c = kConnected then call_connection cb (tc_call DisableAll (c\<lparr>tc_state := kDisconnected\<rparr>)) else Inr c)
       tc_remove"

section \<open>Events of the channel\<close>

definition handshake :: "'w tcp_callbacks \<Rightarrow> 'w TcpConnection \<Rightarrow> 'w TcpConnection res" where
  "handshake cb c =
     (let (connected, savedErrno, ssl, as) = SSL_handshake (tc_ssl c) (tc_handshakes c);
          c1 = c\<lparr>tc_sslConnected := connected, tc_ssl := ssl, tc_handshakes := as\<rparr>
      in if savedErrno = SSL_ERROR_WANT_READ then Inr (tc_call (EnableReading (tc_et c1)) c1)
         else if savedErrno = SSL_ERROR_WANT_WRITE then Inr (tc_call (EnableWriting (tc_et c1)) c1)
         else if savedErrno = 0 then Inr c1
         else handleClose cb c1)"

definition handleRead_errno :: "'w tcp_callbacks \<Rightarrow> int \<Rightarrow> 'w TcpConnection \<Rightarrow> 'w TcpConnection res" where
  "handleRead_errno cb savedErrno c =
     (if savedErrno = 0 then handleClose cb c
      else if tc_errno c \<in> {EAGAIN, EINTR} then Inr (tc_call (EnableReading (tc_et c)) (c\<lparr>tc_errno := 0\<rparr>))
      else if tc_errno c = 0 then Inr c
      else handleClose cb c)"

definition handleRead_ssl :: "'w tcp_callbacks \<Rightarrow> int \<Rightarrow> 'w TcpConnection \<Rightarrow> 'w TcpConnection res" where
  "handleRead_ssl cb savedErrno c =
     (if savedErrno = SSL_ERROR_WANT_READ then Inr (tc_call (EnableReading (tc_et c)) c)
      else if savedErrno = SSL_ERROR_WANT_WRITE then Inr (tc_call (EnableWriting (tc_et c)) c)
      else if savedErrno = 0
      then (let (et, c1) = tc_isETReading c in Inr (if et then tc_call (EnableReading (tc_et c1)) c1 else c1))
      else handleClose cb c)"

text \<open>\<open>msg\<close> is the message callback.  It may close the connection, and then the session \<open>tc_ssl\<close> is gone.\<close>

definition handleRead ::
  "'w tcp_callbacks \<Rightarrow> (timestamp \<Rightarrow> 'w TcpConnection \<Rightarrow> 'w TcpConnection res) \<Rightarrow> timestamp \<Rightarrow> 'w TcpConnection \<Rightarrow> 'w TcpConnection res" where
  "handleRead cb msg receiveTime c =
     (if tc_ssl_ctx c \<and> \<not> tc_sslConnected c then handshake cb c
      else rbind (if \<not> tc_ssl c
                  then rbind (readFull (tc_errno c) (tc_reads c) (tc_inputBuffer c)) (\<lambda>(n, savedErrno, errno, as, buf).
                    Inr (n, savedErrno, c\<lparr>tc_errno := errno, tc_reads := as, tc_inputBuffer := buf\<rparr>))
                  else rbind (SSL_read (tc_reads c) (tc_inputBuffer c)) (\<lambda>(n, savedErrno, as, buf).
                    Inr (n, savedErrno, c\<lparr>tc_reads := as, tc_inputBuffer := buf\<rparr>))) (\<lambda>(n, savedErrno, c1).
        rbind (if n > 0
               then let c2 = (if tc_errno c1 = EAGAIN \<or> tc_errno c1 = EINTR then c1\<lparr>tc_errno := 0\<rparr> else c1)
                    in msg receiveTime (c2\<lparr>tc_trace := tc_trace c2 @ [MessageCalled receiveTime]\<rparr>)
               else Inr c1) (\<lambda>c3.
        if tc_ssl c3 then handleRead_ssl cb savedErrno c3 else handleRead_errno cb savedErrno c3)))"

definition handleWrite_errno :: "'w tcp_callbacks \<Rightarrow> int \<Rightarrow> 'w TcpConnection \<Rightarrow> 'w TcpConnection res" where
  "handleWrite_errno cb savedErrno c =
     (if savedErrno > 0
      then (if tc_errno c \<in> {EINPROGRESS, EAGAIN, EINTR} then Inr (tc_call (EnableWriting (tc_et c)) (c\<lparr>tc_errno := 0\<rparr>))
            else if tc_errno c = 0 then Inr c else handleClose cb c)
      else if savedErrno = 0 then handleClose cb c
      else (if tc_errno c \<in> {EAGAIN, EINTR} then Inr (tc_call (EnableWriting (tc_et c)) (c\<lparr>tc_errno := 0\<rparr>))
            else if tc_errno c = 0 then Inr c else handleClose cb c))"

definition handleWrite_ssl :: "'w tcp_callbacks \<Rightarrow> int \<Rightarrow> 'w TcpConnection \<Rightarrow> 'w TcpConnection res" where
  "handleWrite_ssl cb savedErrno c =
     (if savedErrno = SSL_ERROR_WANT_WRITE then Inr (tc_call (EnableWriting (tc_et c)) c)
      else if savedErrno = 0 then Inr c
      else handleClose cb c)"

text \<open>After \<open>n\<close> bytes of the output have been written.\<close>

definition written :: "'w tcp_callbacks \<Rightarrow> nat \<Rightarrow> 'w TcpConnection \<Rightarrow> 'w TcpConnection res" where
  "written cb n c =
     rbind (retrieve (tc_outputBuffer c) n) (\<lambda>out.
     let c1 = c\<lparr>tc_outputBuffer := out\<rparr>
     in if readableBytes out = 0
        then let c2 = tc_call (DisableWriting (tc_et c1)) c1;
                 c3 = (if writeCompleteCallback cb then QueueInLoop WriteCompleteCallback c2 else c2)
             in Inr (if tc_state c3 = kDisconnecting then shutdownInLoop c3 else c3)
        else Inr c1)"

definition handleWrite :: "'w tcp_callbacks \<Rightarrow> 'w TcpConnection \<Rightarrow> 'w TcpConnection res" where
  "handleWrite cb c =
     (if tc_ssl_ctx c \<and> \<not> tc_sslConnected c then handshake cb c
      else if isWriting (tc_channel c)
      then let data = toStringPiece (tc_outputBuffer c) in
        if \<not> tc_ssl c
        then let (n, savedErrno, errno, as) = writeFull (tc_errno c) data (tc_writes c);
                 c1 = c\<lparr>tc_errno := errno, tc_writes := as, tc_sent := tc_sent c @ take n data\<rparr>
             in rbind (if n > 0 then written cb n c1 else Inr c1) (handleWrite_errno cb savedErrno)
        else let (n, savedErrno, as) = SSL_write data (tc_writes c);
                 c1 = c\<lparr>tc_writes := as, tc_tlsSent := tc_tlsSent c @ take n data\<rparr>
             in rbind (if n > 0 then written cb n c1 else Inr c1) (handleWrite_ssl cb savedErrno)
      else Inr c)"

fun tcp_event ::
  "'w tcp_callbacks \<Rightarrow> (timestamp \<Rightarrow> 'w TcpConnection \<Rightarrow> 'w TcpConnection res) \<Rightarrow> callback_kind \<Rightarrow> 'w TcpConnection \<Rightarrow> 'w TcpConnection res" where
  "tcp_event cb msg CloseCallback c = handleClose cb c"
| "tcp_event cb msg ErrorCallback c = Inr c"
| "tcp_event cb msg (ReadCallback t revents) c = handleRead cb msg t c"
| "tcp_event cb msg WriteCallback c = handleWrite cb c"

text \<open>The functors that are the connection's own; the others are calls of the user.\<close>

fun run_functor :: "'w tcp_callbacks \<Rightarrow> pending_functor \<Rightarrow> 'w TcpConnection \<Rightarrow> 'w TcpConnection res" where
  "run_functor cb ForceCloseInLoop c = forceCloseInLoop cb c"
| "run_functor cb (SendInLoop message) c = sendInLoop cb message c"
| "run_functor cb ShutdownInLoop c = Inr (shutdownInLoop c)"
| "run_functor cb StartReadInLoop c = Inr (startReadInLoop c)"
| "run_functor cb StopReadInLoop c = Inr (stopReadInLoop c)"
| "run_functor cb ConnectDestroyed c = connectDestroyed cb c"
| "run_functor cb _ c = Inr c"

end
