(* ===== verification/WS_EPoll.thy ===== *)
theory WS_EPoll
  imports WS_Channel
begin

text \<open>
  \<^verbatim>\<open>EPollPoller\<close> (\<^verbatim>\<open>poller/EPollPoller.cc\<close>), the default poller.  What it asks of the kernel is the sequence of
  its \<^verbatim>\<open>epoll_ctl\<close> calls, which the model records (the result of the call is only logged).  Replaying the calls by
  the rules of \<^verbatim>\<open>epoll_ctl(2)\<close> gives the interest list; a call that the kernel would refuse (\<^verbatim>\<open>EEXIST\<close>,
  \<^verbatim>\<open>ENOENT\<close>) makes the replay fail.  The poller meets the contract of \<^verbatim>\<open>Poller\<close>.
\<close>

section \<open>The code\<close>

datatype ctl_op = EPOLL_CTL_ADD | EPOLL_CTL_MOD | EPOLL_CTL_DEL

record EPollPoller =
  ep_channels :: "int \<Rightarrow> nat option"
  ep_calls :: "(ctl_op \<times> int \<times> nat \<times> poll_events) list"
  ep_events_size :: nat

definition kNew :: int where "kNew = -1"
definition kAdded :: int where "kAdded = 1"
definition kDeleted :: int where "kDeleted = 2"
definition kInitEventListSize :: nat where "kInitEventListSize = 16"

definition EPollPoller_ctor :: EPollPoller where
  "EPollPoller_ctor = \<lparr>ep_channels = (\<lambda>fd. None), ep_calls = [], ep_events_size = kInitEventListSize\<rparr>"

definition epoll_update :: "ctl_op \<Rightarrow> nat \<Rightarrow> EPollPoller loop_state \<Rightarrow> EPollPoller loop_state" where
  "epoll_update operation c w =
     (let ch = chans w c
      in w\<lparr>poller := (poller w)\<lparr>ep_calls := ep_calls (poller w) @ [(operation, ch_fd ch, c, ch_events ch)]\<rparr>\<rparr>)"

definition set_index :: "int \<Rightarrow> nat \<Rightarrow> 'p loop_state \<Rightarrow> 'p loop_state" where
  "set_index idx c w = with_channel c (\<lambda>ch. ch\<lparr>ch_index := idx\<rparr>) w"

definition epoll_updateChannel :: "EPollPoller poller_op" where
  "epoll_updateChannel c w =
     (let index = ch_index (chans w c); fd = ch_fd (chans w c); m = ep_channels (poller w) in
      if index = kNew \<or> index = kDeleted
      then (if index = kNew
            then require EPollPoller_cc 157 (m fd = None)
              (Inr (epoll_update EPOLL_CTL_ADD c (set_index kAdded c (w\<lparr>poller := (poller w)\<lparr>ep_channels := m(fd := Some c)\<rparr>\<rparr>))))
            else require EPollPoller_cc 162 (m fd \<noteq> None)
              (require EPollPoller_cc 163 (m fd = Some c)
                (Inr (epoll_update EPOLL_CTL_ADD c (set_index kAdded c w)))))
      else require EPollPoller_cc 174 (m fd \<noteq> None)
        (require EPollPoller_cc 175 (m fd = Some c)
          (require EPollPoller_cc 176 (index = kAdded)
            (Inr (if isNoneEvent (chans w c)
                  then set_index kDeleted c (epoll_update EPOLL_CTL_DEL c w)
                  else epoll_update EPOLL_CTL_MOD c w)))))"

definition epoll_removeChannel :: "EPollPoller poller_op" where
  "epoll_removeChannel c w =
     (let fd = ch_fd (chans w c); m = ep_channels (poller w); index = ch_index (chans w c) in
      require EPollPoller_cc 214 (m fd \<noteq> None)
      (require EPollPoller_cc 215 (m fd = Some c)
      (require EPollPoller_cc 216 (isNoneEvent (chans w c))
      (require EPollPoller_cc 218 (index = kAdded \<or> index = kDeleted)
        (let w1 = w\<lparr>poller := (poller w)\<lparr>ep_channels := m(fd := None)\<rparr>\<rparr>;
             w2 = (if index = kAdded then epoll_update EPOLL_CTL_DEL c w1 else w1)
         in Inr (set_index kNew c w2))))))"

text \<open>
  \<open>ready\<close> is what \<^verbatim>\<open>epoll_wait\<close> wrote: the events and the channel of each ready descriptor, at most as many as the
  list of events has places.  The list doubles when it came back full.
\<close>

fun epoll_fillActiveChannels :: "(poll_events \<times> nat) list \<Rightarrow> EPollPoller loop_state \<Rightarrow> EPollPoller loop_state res" where
  "epoll_fillActiveChannels [] w = Inr w"
| "epoll_fillActiveChannels ((ev, c) # ready) w =
     require EPollPoller_cc 124 (ep_channels (poller w) (ch_fd (chans w c)) \<noteq> None)
     (require EPollPoller_cc 125 (ep_channels (poller w) (ch_fd (chans w c)) = Some c)
       (epoll_fillActiveChannels ready
          (with_channel c (\<lambda>ch. ch\<lparr>ch_revents := ev\<rparr>) (w\<lparr>activeChannels := activeChannels w @ [c]\<rparr>))))"

definition epoll_poll :: "(poll_events \<times> nat) list \<Rightarrow> EPollPoller loop_state \<Rightarrow> EPollPoller loop_state res" where
  "epoll_poll ready w =
     (if ready = [] then Inr w
      else require EPollPoller_cc 117 (length ready \<le> ep_events_size (poller w))
        (rbind (epoll_fillActiveChannels ready w) (\<lambda>w1.
          Inr (if length ready = ep_events_size (poller w1)
               then w1\<lparr>poller := (poller w1)\<lparr>ep_events_size := ep_events_size (poller w1) * 2\<rparr>\<rparr>
               else w1))))"

section \<open>The interest list of the kernel\<close>

fun epoll_ctl :: "ctl_op \<times> int \<times> nat \<times> poll_events \<Rightarrow> (int \<Rightarrow> (nat \<times> poll_events) option) \<Rightarrow> (int \<Rightarrow> (nat \<times> poll_events) option) option" where
  "epoll_ctl (EPOLL_CTL_ADD, fd, c, e) k = (if k fd = None then Some (k(fd := Some (c, e))) else None)"
| "epoll_ctl (EPOLL_CTL_MOD, fd, c, e) k = (if k fd = None then None else Some (k(fd := Some (c, e))))"
| "epoll_ctl (EPOLL_CTL_DEL, fd, c, e) k = (if k fd = None then None else Some (k(fd := None)))"

fun epoll_replay :: "(ctl_op \<times> int \<times> nat \<times> poll_events) list \<Rightarrow> (int \<Rightarrow> (nat \<times> poll_events) option) \<Rightarrow> (int \<Rightarrow> (nat \<times> poll_events) option) option" where
  "epoll_replay [] k = Some k"
| "epoll_replay (x # xs) k = (case epoll_ctl x k of None \<Rightarrow> None | Some k' \<Rightarrow> epoll_replay xs k')"

lemma epoll_replay_append:
  "epoll_replay (xs @ ys) k = (case epoll_replay xs k of None \<Rightarrow> None | Some k' \<Rightarrow> epoll_replay ys k')"
  by (induction xs arbitrary: k) (simp_all split: option.splits)

definition epoll_list :: "EPollPoller loop_state \<Rightarrow> (int \<Rightarrow> (nat \<times> poll_events) option) option" where
  "epoll_list w = epoll_replay (ep_calls (poller w)) (\<lambda>fd. None)"

definition epoll_kernel :: "EPollPoller loop_state \<Rightarrow> int \<Rightarrow> (nat \<times> poll_events) option" where
  "epoll_kernel w = the (epoll_list w)"

text \<open>
  The entries with a mask.  An entry without one is possible: \<^verbatim>\<open>updateChannel\<close> on a channel in state \<^verbatim>\<open>kDeleted\<close> adds the
  descriptor again even when the channel wants nothing, so a second \<^verbatim>\<open>disableAll()\<close> undoes the removal that
  the first one made, and the kernel reports hang-ups of the descriptor.
\<close>

definition masked :: "(nat \<times> poll_events) option \<Rightarrow> (nat \<times> poll_events) option" where
  "masked v = (case v of Some (c, e) \<Rightarrow> if e = 0 then None else Some (c, e) | None \<Rightarrow> None)"

definition epoll_interest :: "EPollPoller loop_state \<Rightarrow> int \<Rightarrow> (nat \<times> poll_events) option" where
  "epoll_interest w fd = masked (epoll_kernel w fd)"

definition epoll_fresh :: "EPollPoller loop_state \<Rightarrow> nat \<Rightarrow> bool" where
  "epoll_fresh w c \<longleftrightarrow> ch_index (chans w c) = kNew"

definition epoll_registered :: "EPollPoller loop_state \<Rightarrow> nat \<Rightarrow> bool" where
  "epoll_registered w c \<longleftrightarrow> ch_index (chans w c) \<noteq> kNew"

section \<open>Invariant\<close>

text \<open>
  No call was refused; a channel is new, added or deleted; the map holds the channels that are not new; the kernel watches
  the added ones.
\<close>

definition epoll_inv :: "EPollPoller loop_state \<Rightarrow> bool" where
  "epoll_inv w \<longleftrightarrow> (\<exists>k. epoll_list w = Some k \<and>
     (\<forall>c. ch_index (chans w c) \<in> {kNew, kAdded, kDeleted}) \<and>
     (\<forall>fd c. ep_channels (poller w) fd = Some c \<longleftrightarrow> ch_fd (chans w c) = fd \<and> ch_index (chans w c) \<noteq> kNew) \<and>
     (\<forall>fd. map_option fst (k fd) =
        (case ep_channels (poller w) fd of None \<Rightarrow> None
         | Some c \<Rightarrow> if ch_index (chans w c) = kAdded then Some c else None)))"

lemmas epoll_defs = epoll_list_def epoll_update_def set_index_def with_channel_def epoll_replay_append

lemmas index_values = kNew_def kAdded_def kDeleted_def

lemma epoll_invD:
  assumes "epoll_inv w"
  shows "epoll_list w = Some (epoll_kernel w)"
    "ch_index (chans w c) = kNew \<or> ch_index (chans w c) = kAdded \<or> ch_index (chans w c) = kDeleted"
    "ep_channels (poller w) fd = Some c \<longleftrightarrow> ch_fd (chans w c) = fd \<and> ch_index (chans w c) \<noteq> kNew"
    "map_option fst (epoll_kernel w fd) =
       (case ep_channels (poller w) fd of None \<Rightarrow> None
        | Some c \<Rightarrow> if ch_index (chans w c) = kAdded then Some c else None)"
proof -
  obtain k where k: "epoll_list w = Some k"
     "\<forall>c. ch_index (chans w c) \<in> {kNew, kAdded, kDeleted}"
     "\<forall>fd c. ep_channels (poller w) fd = Some c \<longleftrightarrow> ch_fd (chans w c) = fd \<and> ch_index (chans w c) \<noteq> kNew"
     "\<forall>fd. map_option fst (k fd) =
        (case ep_channels (poller w) fd of None \<Rightarrow> None
         | Some c \<Rightarrow> if ch_index (chans w c) = kAdded then Some c else None)"
    using assms unfolding epoll_inv_def by blast
  have e: "epoll_kernel w = k" by (simp add: epoll_kernel_def k(1))
  show "epoll_list w = Some (epoll_kernel w)" by (simp add: e k(1))
  show "ch_index (chans w c) = kNew \<or> ch_index (chans w c) = kAdded \<or> ch_index (chans w c) = kDeleted"
    using k(2) by simp
  show "ep_channels (poller w) fd = Some c \<longleftrightarrow> ch_fd (chans w c) = fd \<and> ch_index (chans w c) \<noteq> kNew"
    using k(3) by simp
  show "map_option fst (epoll_kernel w fd) =
       (case ep_channels (poller w) fd of None \<Rightarrow> None
        | Some c \<Rightarrow> if ch_index (chans w c) = kAdded then Some c else None)"
    using k(4) e by simp
qed

lemma epoll_invI:
  assumes "epoll_list w = Some k"
    "\<And>c. ch_index (chans w c) = kNew \<or> ch_index (chans w c) = kAdded \<or> ch_index (chans w c) = kDeleted"
    "\<And>fd c. ep_channels (poller w) fd = Some c \<longleftrightarrow> ch_fd (chans w c) = fd \<and> ch_index (chans w c) \<noteq> kNew"
    "\<And>fd. map_option fst (k fd) =
        (case ep_channels (poller w) fd of None \<Rightarrow> None
         | Some c \<Rightarrow> if ch_index (chans w c) = kAdded then Some c else None)"
  shows "epoll_inv w" "epoll_kernel w = k"
  using assms by (simp_all add: epoll_inv_def epoll_kernel_def)

lemma epoll_list_update:
  "epoll_list (epoll_update op c w) =
     (case epoll_list w of None \<Rightarrow> None | Some k \<Rightarrow> epoll_ctl (op, ch_fd (chans w c), c, ch_events (chans w c)) k)"
  by (simp add: epoll_defs Let_def split: option.splits)

lemma epoll_list_frame [simp]:
  "epoll_list (set_index i c w) = epoll_list w"
  "epoll_list (w\<lparr>poller := (poller w)\<lparr>ep_channels := m\<rparr>\<rparr>) = epoll_list w"
  by (simp_all add: epoll_list_def set_index_def with_channel_def)

lemma epoll_update_frame [simp]:
  "chans (epoll_update op c w) = chans w"
  "ep_channels (poller (epoll_update op c w)) = ep_channels (poller w)"
  "same_loop w' (epoll_update op c w) = same_loop w' w"
  by (simp_all add: epoll_update_def same_loop_def Let_def)

lemma set_index_frame [simp]:
  "chans (set_index i c w) = (chans w)(c := (chans w c)\<lparr>ch_index := i\<rparr>)"
  "poller (set_index i c w) = poller w"
  "same_loop w' (set_index i c w) = same_loop w' w"
  by (simp_all add: set_index_def with_channel_def same_loop_def)

text \<open>The three cases of \<^verbatim>\<open>updateChannel\<close> and the removal, by the new state.\<close>

lemma epoll_step:
  assumes w: "epoll_inv w"
    and list: "epoll_list w' = Some ((epoll_kernel w)(ch_fd (chans w c) := v))"
    and ch: "chans w' = (chans w)(c := (chans w c)\<lparr>ch_index := i\<rparr>)" "i \<in> {kNew, kAdded, kDeleted}"
    and m: "ep_channels (poller w') = (ep_channels (poller w))(ch_fd (chans w c) := if i = kNew then None else Some c)"
    and v: "map_option fst v = (if i = kAdded then Some c else None)"
    and alone: "ep_channels (poller w) (ch_fd (chans w c)) = None \<or> ep_channels (poller w) (ch_fd (chans w c)) = Some c"
  shows "epoll_inv w'" "epoll_kernel w' = (epoll_kernel w)(ch_fd (chans w c) := v)"
    "epoll_registered w' = (epoll_registered w)(c := (i \<noteq> kNew))"
    "\<forall>d. ch_events (chans w' d) = ch_events (chans w d) \<and> ch_fd (chans w' d) = ch_fd (chans w d)"
proof -
  note wD = epoll_invD [OF w]
  let ?fd = "ch_fd (chans w c)"
  have others: "ch_index (chans w d) = kNew" if "d \<noteq> c" "ch_fd (chans w d) = ?fd" for d
    using alone wD(3) [of ?fd d] that by auto
  have 1: "ch_index (chans w' d) = kNew \<or> ch_index (chans w' d) = kAdded \<or> ch_index (chans w' d) = kDeleted" for d
    using ch wD(2) [of d] by auto
  have 2: "ep_channels (poller w') fd = Some d \<longleftrightarrow> ch_fd (chans w' d) = fd \<and> ch_index (chans w' d) \<noteq> kNew" for fd d
    using wD(3) [of fd d] others [of d] by (auto simp: ch(1) m)
  have 3: "map_option fst (((epoll_kernel w)(?fd := v)) fd) =
        (case ep_channels (poller w') fd of None \<Rightarrow> None
         | Some d \<Rightarrow> if ch_index (chans w' d) = kAdded then Some d else None)" for fd
  proof (cases "fd = ?fd")
    case True
    then show ?thesis using v by (simp add: m ch(1) index_values)
  next
    case False
    then have "ep_channels (poller w) fd \<noteq> Some c" using wD(3) [of fd c] by simp
    with False show ?thesis using wD(4) [of fd] by (simp add: m ch(1) split: option.splits)
  qed
  show "epoll_inv w'" "epoll_kernel w' = (epoll_kernel w)(?fd := v)"
    using epoll_invI [OF list 1 2 3] by (blast, blast)
  show "epoll_registered w' = (epoll_registered w)(c := (i \<noteq> kNew))"
    by (rule ext) (simp add: epoll_registered_def ch(1))
  show "\<forall>d. ch_events (chans w' d) = ch_events (chans w d) \<and> ch_fd (chans w' d) = ch_fd (chans w d)"
    by (simp add: ch(1))
qed

lemma epoll_interest_upd:
  "epoll_kernel w' = (epoll_kernel w)(fd := v) \<Longrightarrow> epoll_interest w' = (epoll_interest w)(fd := masked v)"
  by (auto simp: epoll_interest_def)

lemma masked_simps [simp]:
  "masked None = None"
  "masked (Some (c, e)) = (if e = 0 then None else Some (c, e))"
  by (simp_all add: masked_def)

lemma epoll_upd_ok:
  assumes w: "epoll_inv w"
    and adm: "epoll_registered w c \<or> epoll_fresh w c \<and> \<not> isNoneEvent (chans w c) \<and>
      (\<forall>d. epoll_registered w d \<longrightarrow> ch_fd (chans w d) \<noteq> ch_fd (chans w c))"
  shows "\<exists>w'. epoll_updateChannel c w = Inr w' \<and> epoll_inv w' \<and> same_loop w w' \<and>
        (\<forall>d. ch_events (chans w' d) = ch_events (chans w d) \<and> ch_fd (chans w' d) = ch_fd (chans w d)) \<and>
        epoll_registered w' = (epoll_registered w)(c := True) \<and> (\<forall>d. d \<noteq> c \<and> epoll_fresh w d \<longrightarrow> epoll_fresh w' d) \<and>
        epoll_interest w' = (epoll_interest w)(ch_fd (chans w c) :=
          if isNoneEvent (chans w c) then None else Some (c, ch_events (chans w c)))"
proof -
  note wD = epoll_invD [OF w]
  let ?fd = "ch_fd (chans w c)" and ?e = "ch_events (chans w c)" and ?k = "epoll_kernel w"
  let ?m = "ep_channels (poller w)"
  have conclude: ?thesis
    if "epoll_updateChannel c w = Inr w'" "epoll_list w' = Some (?k(?fd := v))" "i = kAdded \<or> i = kDeleted"
      "chans w' = (chans w)(c := (chans w c)\<lparr>ch_index := i\<rparr>)" "same_loop w w'"
      "ep_channels (poller w') = ?m(?fd := Some c)" "?m ?fd = None \<or> ?m ?fd = Some c"
      "v = (if i = kAdded then Some (c, ?e) else None)" "i = kDeleted \<longrightarrow> ?e = 0" for w' v i
  proof -
    have "i \<noteq> kNew" using that(3) by (auto simp: index_values)
    note step = epoll_step [OF w that(2,4)]
    have "epoll_inv w'" "epoll_kernel w' = ?k(?fd := v)" "epoll_registered w' = (epoll_registered w)(c := True)"
      "\<forall>d. ch_events (chans w' d) = ch_events (chans w d) \<and> ch_fd (chans w' d) = ch_fd (chans w d)"
      using step that(3,6-8) \<open>i \<noteq> kNew\<close> by (simp_all add: index_values)
    moreover have "masked v = (if isNoneEvent (chans w c) then None else Some (c, ?e))"
      using that(3,8,9) by (auto simp: isNoneEvent_def kNoneEvent_def index_values)
    moreover have "\<forall>d. d \<noteq> c \<and> epoll_fresh w d \<longrightarrow> epoll_fresh w' d" by (simp add: epoll_fresh_def that(4))
    ultimately show ?thesis using epoll_interest_upd [of w' w ?fd v] that(1,5) by simp
  qed
  consider (new) "ch_index (chans w c) = kNew" | (deleted) "ch_index (chans w c) = kDeleted"
    | (added) "ch_index (chans w c) = kAdded"
    using wD(2) by blast
  then show ?thesis
  proof cases
    case new
    define w' where "w' = epoll_update EPOLL_CTL_ADD c (set_index kAdded c (w\<lparr>poller := (poller w)\<lparr>ep_channels := ?m(?fd := Some c)\<rparr>\<rparr>))"
    from new adm have none: "?m ?fd = None"
      using wD(3) [of ?fd] by (cases "?m ?fd") (auto simp: epoll_registered_def)
    then have list: "epoll_list w' = Some (?k(?fd := Some (c, ?e)))"
      using wD(4) [of ?fd] wD(1) by (simp add: w'_def epoll_list_update)
    show ?thesis
      by (rule conclude [OF _ list, of kAdded])
        (use new none in \<open>simp_all add: epoll_updateChannel_def Let_def w'_def index_values same_loop_def epoll_update_def set_index_def with_channel_def\<close>)
  next
    case deleted
    define w' where "w' = epoll_update EPOLL_CTL_ADD c (set_index kAdded c w)"
    from deleted have m: "?m ?fd = Some c" using wD(3) [of ?fd c] by (simp add: index_values)
    have "?k ?fd = None" using wD(4) [of ?fd] m deleted by (simp add: index_values)
    then have list: "epoll_list w' = Some (?k(?fd := Some (c, ?e)))"
      using wD(1) by (simp add: w'_def epoll_list_update)
    show ?thesis
      by (rule conclude [OF _ list, of kAdded])
        (use deleted m in \<open>simp_all add: epoll_updateChannel_def Let_def w'_def index_values same_loop_def epoll_update_def set_index_def with_channel_def fun_upd_idem\<close>)
  next
    case added
    from added have m: "?m ?fd = Some c" using wD(3) [of ?fd c] by (simp add: index_values)
    have k: "?k ?fd \<noteq> None" using wD(4) [of ?fd] m added by auto
    show ?thesis
    proof (cases "isNoneEvent (chans w c)")
      case True
      define w' where "w' = set_index kDeleted c (epoll_update EPOLL_CTL_DEL c w)"
      have list: "epoll_list w' = Some (?k(?fd := None))"
        using wD(1) k by (simp add: w'_def epoll_list_update)
      show ?thesis
        by (rule conclude [OF _ list, of kDeleted])
          (use added m True in \<open>simp_all add: epoll_updateChannel_def Let_def w'_def index_values same_loop_def epoll_update_def set_index_def with_channel_def fun_upd_idem isNoneEvent_def kNoneEvent_def\<close>)
    next
      case False
      define w' where "w' = epoll_update EPOLL_CTL_MOD c w"
      have list: "epoll_list w' = Some (?k(?fd := Some (c, ?e)))"
        using wD(1) k by (simp add: w'_def epoll_list_update)
      show ?thesis
        by (rule conclude [OF _ list, of kAdded])
          (use added m False in \<open>simp_all add: epoll_updateChannel_def Let_def w'_def index_values same_loop_def epoll_update_def set_index_def with_channel_def fun_upd_idem\<close>)
    qed
  qed
qed

lemma epoll_rem_ok:
  assumes w: "epoll_inv w" and c: "epoll_registered w c" "isNoneEvent (chans w c)"
    and unwatched: "epoll_interest w (ch_fd (chans w c)) = None"
  shows "\<exists>w'. epoll_removeChannel c w = Inr w' \<and> epoll_inv w' \<and> same_loop w w' \<and>
        (\<forall>d. ch_events (chans w' d) = ch_events (chans w d) \<and> ch_fd (chans w' d) = ch_fd (chans w d)) \<and>
        epoll_registered w' = (epoll_registered w)(c := False) \<and>
        (\<forall>d. d \<noteq> c \<and> epoll_fresh w d \<longrightarrow> epoll_fresh w' d) \<and> epoll_interest w' = epoll_interest w"
proof -
  note wD = epoll_invD [OF w]
  let ?fd = "ch_fd (chans w c)" and ?k = "epoll_kernel w" and ?m = "ep_channels (poller w)"
  have m: "?m ?fd = Some c" using wD(3) [of ?fd c] c(1) by (simp add: epoll_registered_def)
  define w1 where "w1 = w\<lparr>poller := (poller w)\<lparr>ep_channels := ?m(?fd := None)\<rparr>\<rparr>"
  define w2 where "w2 = (if ch_index (chans w c) = kAdded then epoll_update EPOLL_CTL_DEL c w1 else w1)"
  define w' where "w' = set_index kNew c w2"
  have idx: "ch_index (chans w c) = kAdded \<or> ch_index (chans w c) = kDeleted"
    using wD(2) [of c] c(1) by (auto simp: epoll_registered_def)
  have "?k ?fd = None \<longleftrightarrow> ch_index (chans w c) \<noteq> kAdded"
    using wD(4) [of ?fd] m by (cases "?k ?fd") (auto split: if_splits)
  then have list: "epoll_list w' = Some (?k(?fd := None))"
    using wD(1) by (auto simp: w'_def w2_def w1_def epoll_list_update)
  have ch: "chans w' = (chans w)(c := (chans w c)\<lparr>ch_index := kNew\<rparr>)" "same_loop w w'"
    "ep_channels (poller w') = ?m(?fd := None)"
    by (simp_all add: w'_def w2_def w1_def same_loop_def epoll_update_def set_index_def with_channel_def Let_def)
  have "epoll_inv w'" "epoll_kernel w' = ?k(?fd := None)" "epoll_registered w' = (epoll_registered w)(c := False)"
      "\<forall>d. ch_events (chans w' d) = ch_events (chans w d) \<and> ch_fd (chans w' d) = ch_fd (chans w d)"
    using epoll_step [OF w list ch(1)] ch(3) m by (simp_all add: index_values)
  moreover have "epoll_removeChannel c w = Inr w'"
    using m c(2) idx by (simp add: epoll_removeChannel_def Let_def w'_def w2_def w1_def)
  moreover have "epoll_interest w' = epoll_interest w"
    using epoll_interest_upd [OF calculation(2)] unwatched by (simp add: fun_upd_idem)
  moreover have "\<forall>d. d \<noteq> c \<and> epoll_fresh w d \<longrightarrow> epoll_fresh w' d" by (simp add: epoll_fresh_def ch(1))
  ultimately show ?thesis using ch(2) by blast
qed

lemma epoll_channels_free:
  assumes "epoll_inv w" "poller w' = poller w"
    "\<And>d. ch_fd (chans w' d) = ch_fd (chans w d) \<and> ch_index (chans w' d) = ch_index (chans w d)"
  shows "epoll_inv w' \<and> epoll_registered w' = epoll_registered w \<and> epoll_fresh w' = epoll_fresh w \<and> epoll_interest w' = epoll_interest w"
proof -
  have l: "epoll_list w' = epoll_list w" by (simp add: epoll_list_def assms(2))
  then have "epoll_registered w' = epoll_registered w" "epoll_interest w' = epoll_interest w" "epoll_fresh w' = epoll_fresh w"
    using assms(3) by (auto simp: epoll_registered_def epoll_fresh_def epoll_interest_def epoll_kernel_def)
  moreover have "epoll_inv w'"
  proof (rule epoll_invI(1) [of w' "epoll_kernel w"])
    fix fd
    show "map_option fst (epoll_kernel w fd) =
        (case ep_channels (poller w') fd of None \<Rightarrow> None
         | Some c \<Rightarrow> if ch_index (chans w' c) = kAdded then Some c else None)"
      using epoll_invD(4) [OF assms(1), of fd] assms(2,3) by (cases "ep_channels (poller w) fd") simp_all
  qed (use epoll_invD [OF assms(1)] assms(2,3) l in simp_all)
  ultimately show ?thesis by simp
qed

interpretation ep: poller_contract epoll_updateChannel epoll_removeChannel "\<lambda>e. e" epoll_registered epoll_fresh epoll_interest epoll_inv
  by unfold_locales (erule epoll_upd_ok epoll_rem_ok, assumption+ | rule epoll_channels_free, assumption+)+

end
