(* ===== verification/WS_Poll.thy ===== *)
theory WS_Poll
  imports WS_EPoll
begin

text \<open>
  \<^verbatim>\<open>PollPoller\<close> (\<^verbatim>\<open>poller/PollPoller.cc\<close>): the vector handed to \<^verbatim>\<open>poll(2)\<close>, in which each registered channel owns the
  entry at its index.  An entry is disabled by the negative descriptor \<^verbatim>\<open>-fd-1\<close>, and removal swaps the last entry into
  the hole.  It meets the same contract as \<^verbatim>\<open>EPollPoller\<close>, so both pollers watch the same descriptors.
\<close>

section \<open>The code\<close>

record pollfd =
  pfd_fd :: int
  pfd_events :: "16 word"
  pfd_revents :: "16 word"

record PollPoller =
  pp_pollfds :: "pollfd list"
  pp_channels :: "int \<Rightarrow> nat option"

definition PollPoller_ctor :: PollPoller where
  "PollPoller_ctor = \<lparr>pp_pollfds = [], pp_channels = (\<lambda>fd. None)\<rparr>"

definition poll_updateChannel :: "PollPoller poller_op" where
  "poll_updateChannel c w =
     (let ch = chans w c; fd = ch_fd ch; m = pp_channels (poller w); v = pp_pollfds (poller w) in
      if ch_index ch < 0
      then require PollPoller_cc 82 (m fd = None)
        (let v1 = v @ [\<lparr>pfd_fd = fd, pfd_events = ucast (ch_events ch), pfd_revents = 0\<rparr>]
         in Inr (set_index (int (length v1) - 1) c (w\<lparr>poller := \<lparr>pp_pollfds = v1, pp_channels = m(fd := Some c)\<rparr>\<rparr>)))
      else require PollPoller_cc 95 (m fd \<noteq> None)
        (require PollPoller_cc 96 (m fd = Some c)
        (let idx = ch_index ch in
         require PollPoller_cc 98 (0 \<le> idx \<and> idx < int (length v))
        (let pfd = v ! nat idx in
         require PollPoller_cc 100 (pfd_fd pfd = fd \<or> pfd_fd pfd = - fd - 1)
        (let pfd1 = \<lparr>pfd_fd = if isNoneEvent ch then - fd - 1 else fd, pfd_events = ucast (ch_events ch), pfd_revents = 0\<rparr>
         in Inr (w\<lparr>poller := (poller w)\<lparr>pp_pollfds := v[nat idx := pfd1]\<rparr>\<rparr>))))))"

definition poll_removeChannel :: "PollPoller poller_op" where
  "poll_removeChannel c w =
     (let ch = chans w c; fd = ch_fd ch; m = pp_channels (poller w); v = pp_pollfds (poller w); idx = ch_index ch in
      require PollPoller_cc 116 (m fd \<noteq> None)
      (require PollPoller_cc 117 (m fd = Some c)
      (require PollPoller_cc 118 (isNoneEvent ch)
      (require PollPoller_cc 120 (0 \<le> idx \<and> idx < int (length v))
      (require PollPoller_cc 122 (pfd_fd (v ! nat idx) = - fd - 1 \<and> scast (pfd_events (v ! nat idx)) = ch_events ch)
        (let m1 = m(fd := None) in
         if nat idx = length v - 1
         then Inr (w\<lparr>poller := \<lparr>pp_pollfds = butlast v, pp_channels = m1\<rparr>\<rparr>)
         else let e = pfd_fd (last v);
                  channelAtEnd = (if e < 0 then - e - 1 else e);
                  v1 = butlast (v[nat idx := last v, length v - 1 := v ! nat idx])
              in case m1 channelAtEnd of
                   None \<Rightarrow> Inl (Undefined PollPoller_cc 137)
                 | Some d \<Rightarrow> Inr (set_index idx d (w\<lparr>poller := \<lparr>pp_pollfds = v1, pp_channels = m1\<rparr>\<rparr>))))))))"

text \<open>
  \<open>numEvents\<close> is the result of \<^verbatim>\<open>poll(2)\<close>, which has written the \<^verbatim>\<open>revents\<close> of the entries; a negative
  \<^verbatim>\<open>short\<close> is not taken as an event.
\<close>

fun poll_fillActiveChannels :: "nat \<Rightarrow> pollfd list \<Rightarrow> PollPoller loop_state \<Rightarrow> PollPoller loop_state res" where
  "poll_fillActiveChannels numEvents [] w = Inr w"
| "poll_fillActiveChannels numEvents (pfd # pfds) w =
     (if numEvents = 0 then Inr w
      else if sint (pfd_revents pfd) > 0
      then (case pp_channels (poller w) (pfd_fd pfd) of
              None \<Rightarrow> Inl (AssertFail PollPoller_cc 65)
            | Some c \<Rightarrow> require PollPoller_cc 67 (ch_fd (chans w c) = pfd_fd pfd)
                (poll_fillActiveChannels (numEvents - 1) pfds
                  (with_channel c (\<lambda>ch. ch\<lparr>ch_revents := scast (pfd_revents pfd)\<rparr>) (w\<lparr>activeChannels := activeChannels w @ [c]\<rparr>))))
      else poll_fillActiveChannels numEvents pfds w)"

definition poll_poll :: "nat \<Rightarrow> 16 word list \<Rightarrow> PollPoller loop_state \<Rightarrow> PollPoller loop_state res" where
  "poll_poll numEvents revents w =
     (let v = map2 (\<lambda>pfd r. pfd\<lparr>pfd_revents := r\<rparr>) (pp_pollfds (poller w)) revents;
          w1 = w\<lparr>poller := (poller w)\<lparr>pp_pollfds := v\<rparr>\<rparr>
      in if numEvents > 0 then poll_fillActiveChannels numEvents v w1 else Inr w1)"

section \<open>What \<^verbatim>\<open>poll(2)\<close> watches\<close>

definition poll_seen :: "poll_events \<Rightarrow> poll_events" where
  "poll_seen e = ucast (ucast e :: 16 word)"

definition poll_interest :: "PollPoller loop_state \<Rightarrow> int \<Rightarrow> (nat \<times> poll_events) option" where
  "poll_interest w fd =
     (if fd < 0 then None
      else case find (\<lambda>p. pfd_fd p = fd) (pp_pollfds (poller w)) of
        None \<Rightarrow> None
      | Some p \<Rightarrow> map_option (\<lambda>c. (c, ucast (pfd_events p))) (pp_channels (poller w) fd))"

definition poll_registered :: "PollPoller loop_state \<Rightarrow> nat \<Rightarrow> bool" where
  "poll_registered w c \<longleftrightarrow> pp_channels (poller w) (ch_fd (chans w c)) = Some c"

definition poll_fresh :: "PollPoller loop_state \<Rightarrow> nat \<Rightarrow> bool" where
  "poll_fresh w c \<longleftrightarrow> ch_index (chans w c) < 0"

section \<open>Invariant\<close>

text \<open>The entry of a channel: its descriptor, or disabled.\<close>

definition slot_of :: "pollfd \<Rightarrow> int \<Rightarrow> bool" where
  "slot_of p fd \<longleftrightarrow> 0 \<le> fd \<and> (pfd_fd p = fd \<or> pfd_fd p = - fd - 1 \<and> pfd_events p = 0)"

lemma slot_of_unique: "slot_of p fd \<Longrightarrow> slot_of p fd' \<Longrightarrow> fd = fd'"
  by (auto simp: slot_of_def)

definition poll_inv :: "PollPoller loop_state \<Rightarrow> bool" where
  "poll_inv w \<longleftrightarrow>
     (\<forall>fd c. pp_channels (poller w) fd = Some c \<longrightarrow>
        ch_fd (chans w c) = fd \<and> 0 \<le> ch_index (chans w c) \<and> ch_index (chans w c) < int (length (pp_pollfds (poller w))) \<and>
        slot_of (pp_pollfds (poller w) ! nat (ch_index (chans w c))) fd) \<and>
     (\<forall>i < length (pp_pollfds (poller w)). \<exists>fd c. pp_channels (poller w) fd = Some c \<and> ch_index (chans w c) = int i)"

lemma poll_invD:
  assumes "poll_inv w" "pp_channels (poller w) fd = Some c"
  shows "ch_fd (chans w c) = fd" "0 \<le> ch_index (chans w c)" "nat (ch_index (chans w c)) < length (pp_pollfds (poller w))"
    "slot_of (pp_pollfds (poller w) ! nat (ch_index (chans w c))) fd" "0 \<le> fd"
  using assms by (fastforce simp: poll_inv_def slot_of_def)+

lemma poll_inv_owner:
  assumes "poll_inv w" "i < length (pp_pollfds (poller w))"
  obtains fd c where "pp_channels (poller w) fd = Some c" "ch_index (chans w c) = int i"
  using assms unfolding poll_inv_def by blast

lemma poll_index_unique:
  assumes "poll_inv w" "pp_channels (poller w) fd = Some c" "pp_channels (poller w) fd' = Some d"
    "ch_index (chans w c) = ch_index (chans w d)"
  shows "c = d" "fd = fd'"
  using poll_invD(4) [OF assms(1,2)] poll_invD(4) [OF assms(1,3)] assms slot_of_unique by fastforce+

lemma find_nth:
  assumes "i < length xs" "P (xs ! i)" "\<And>j. j < length xs \<Longrightarrow> P (xs ! j) \<Longrightarrow> j = i"
  shows "find P xs = Some (xs ! i)"
  unfolding find_Some_iff using assms by (metis less_trans less_irrefl)

lemma poll_interest_channel:
  assumes w: "poll_inv w"
  shows "poll_interest w fd = (case pp_channels (poller w) fd of None \<Rightarrow> None
     | Some c \<Rightarrow> let p = pp_pollfds (poller w) ! nat (ch_index (chans w c))
                 in if pfd_fd p = fd then Some (c, ucast (pfd_events p)) else None)"
proof (cases "pp_channels (poller w) fd")
  case None
  then show ?thesis by (simp add: poll_interest_def split: option.splits)
next
  case (Some c)
  note c = poll_invD [OF w Some]
  let ?v = "pp_pollfds (poller w)" and ?i = "nat (ch_index (chans w c))"
  have owner: "j = ?i" if j: "j < length ?v" "pfd_fd (?v ! j) = fd" for j
  proof -
    obtain fd' d where d: "pp_channels (poller w) fd' = Some d" "ch_index (chans w d) = int j"
      using poll_inv_owner [OF w j(1)] .
    have "slot_of (?v ! j) fd'" using poll_invD(4) [OF w d(1)] d(2) by simp
    then have "fd' = fd" using j(2) c(5) by (auto simp: slot_of_def)
    then show ?thesis using d Some by simp
  qed
  show ?thesis
  proof (cases "pfd_fd (?v ! ?i) = fd")
    case True
    then have "find (\<lambda>p. pfd_fd p = fd) ?v = Some (?v ! ?i)" by (rule find_nth [OF c(3)]) (use True owner in blast)+
    then show ?thesis using Some True c(5) by (simp add: poll_interest_def)
  next
    case False
    have "find (\<lambda>p. pfd_fd p = fd) ?v = None"
      unfolding find_None_iff by (metis False in_set_conv_nth owner)
    then show ?thesis using Some False by (simp add: poll_interest_def)
  qed
qed

section \<open>The contract\<close>

lemma poll_seen_0 [simp]: "poll_seen 0 = 0"
  by (simp add: poll_seen_def)

lemma poll_upd_new:
  assumes w: "poll_inv w" and fd: "0 \<le> ch_fd (chans w c)"
    and new: "poll_fresh w c" "\<not> isNoneEvent (chans w c)"
      "\<forall>d. poll_registered w d \<longrightarrow> ch_fd (chans w d) \<noteq> ch_fd (chans w c)"
  shows "\<exists>w'. poll_updateChannel c w = Inr w' \<and> poll_inv w' \<and> same_loop w w' \<and>
        chans w' = (chans w)(c := (chans w c)\<lparr>ch_index := int (length (pp_pollfds (poller w)))\<rparr>) \<and>
        pp_channels (poller w') = (pp_channels (poller w))(ch_fd (chans w c) := Some c) \<and>
        (\<forall>x. poll_interest w' x = ((poll_interest w)(ch_fd (chans w c) := Some (c, poll_seen (ch_events (chans w c))))) x)"
proof -
  let ?fd = "ch_fd (chans w c)" and ?v = "pp_pollfds (poller w)" and ?m = "pp_channels (poller w)"
  define p where "p = \<lparr>pfd_fd = ?fd, pfd_events = ucast (ch_events (chans w c)), pfd_revents = 0\<rparr>"
  have none: "?m ?fd = None"
  proof (cases "?m ?fd")
    case (Some d)
    with new(3) poll_invD(1) [OF w Some] show ?thesis unfolding poll_registered_def by metis
  qed
  define w' where "w' = set_index (int (length ?v)) c (w\<lparr>poller := \<lparr>pp_pollfds = ?v @ [p], pp_channels = ?m(?fd := Some c)\<rparr>\<rparr>)"
  have upd: "poll_updateChannel c w = Inr w'"
    using new(1) none by (simp add: poll_updateChannel_def poll_fresh_def Let_def w'_def p_def)
  have ch: "chans w' = (chans w)(c := (chans w c)\<lparr>ch_index := int (length ?v)\<rparr>)"
      "pp_channels (poller w') = ?m(?fd := Some c)" "pp_pollfds (poller w') = ?v @ [p]" "same_loop w w'"
    by (simp_all add: w'_def same_loop_def set_index_def with_channel_def)
  have other: "d \<noteq> c" if "?m fd = Some d" for fd d
    using poll_invD(2) [OF w that] new(1) by (auto simp: poll_fresh_def)
  have inv: "poll_inv w'"
    unfolding poll_inv_def
  proof (intro conjI allI impI)
    fix fd d assume "pp_channels (poller w') fd = Some d"
    then consider "fd = ?fd" "d = c" | "fd \<noteq> ?fd" "?m fd = Some d" by (auto simp: ch split: if_splits)
    then have "ch_fd (chans w' d) = fd \<and> 0 \<le> ch_index (chans w' d) \<and>
        ch_index (chans w' d) < int (length (pp_pollfds (poller w'))) \<and>
        slot_of (pp_pollfds (poller w') ! nat (ch_index (chans w' d))) fd"
    proof cases
      case 1
      then show ?thesis using fd by (simp add: ch slot_of_def p_def)
    next
      case 2
      note dD = poll_invD [OF w 2(2)]
      have "ch_index (chans w d) < int (length ?v + 1)" using dD(2,3) by simp
      then show ?thesis using dD other [OF 2(2)] by (simp add: ch nth_append)
    qed
    then show "ch_fd (chans w' d) = fd" "0 \<le> ch_index (chans w' d)"
        "ch_index (chans w' d) < int (length (pp_pollfds (poller w')))"
        "slot_of (pp_pollfds (poller w') ! nat (ch_index (chans w' d))) fd" by blast+
  next
    fix i assume "i < length (pp_pollfds (poller w'))"
    then consider "i < length ?v" | "i = length ?v" by (auto simp: ch less_Suc_eq)
    then show "\<exists>fd d. pp_channels (poller w') fd = Some d \<and> ch_index (chans w' d) = int i"
    proof cases
      case 1
      then obtain fd d where d: "?m fd = Some d" "ch_index (chans w d) = int i" by (rule poll_inv_owner [OF w])
      with other [OF d(1)] none show ?thesis by (intro exI [of _ fd] exI [of _ d]) (auto simp: ch)
    next
      case 2
      then show ?thesis by (intro exI [of _ ?fd] exI [of _ c]) (simp add: ch)
    qed
  qed
  have "poll_interest w' x = ((poll_interest w)(?fd := Some (c, poll_seen (ch_events (chans w c))))) x" for x
  proof (cases "x = ?fd")
    case True
    then show ?thesis by (simp add: poll_interest_channel [OF inv] ch nth_append p_def poll_seen_def)
  next
    case False
    show ?thesis
    proof (cases "?m x")
      case (Some d)
      then show ?thesis using False other [OF Some] poll_invD(3) [OF w Some]
        by (simp add: poll_interest_channel [OF inv] poll_interest_channel [OF w] ch nth_append)
    qed (use False in \<open>simp add: poll_interest_channel [OF inv] poll_interest_channel [OF w] ch\<close>)
  qed
  then show ?thesis using upd inv ch by blast
qed

lemma poll_upd_old:
  assumes w: "poll_inv w" and c: "poll_registered w c"
  shows "\<exists>w'. poll_updateChannel c w = Inr w' \<and> poll_inv w' \<and> same_loop w w' \<and> chans w' = chans w \<and>
        pp_channels (poller w') = pp_channels (poller w) \<and>
        (\<forall>x. poll_interest w' x = ((poll_interest w)(ch_fd (chans w c) :=
          if isNoneEvent (chans w c) then None else Some (c, poll_seen (ch_events (chans w c))))) x)"
proof -
  let ?fd = "ch_fd (chans w c)" and ?v = "pp_pollfds (poller w)" and ?m = "pp_channels (poller w)"
    and ?i = "nat (ch_index (chans w c))"
  have m: "?m ?fd = Some c" using c by (simp add: poll_registered_def)
  note cD = poll_invD [OF w m]
  define p where "p = \<lparr>pfd_fd = if isNoneEvent (chans w c) then - ?fd - 1 else ?fd,
    pfd_events = ucast (ch_events (chans w c)), pfd_revents = 0\<rparr>"
  define w' where "w' = w\<lparr>poller := (poller w)\<lparr>pp_pollfds := ?v[?i := p]\<rparr>\<rparr>"
  have upd: "poll_updateChannel c w = Inr w'"
    using m cD(2-4) unfolding poll_updateChannel_def Let_def w'_def p_def slot_of_def by (auto simp: nat_less_iff)
  have ch: "chans w' = chans w" "pp_channels (poller w') = ?m" "pp_pollfds (poller w') = ?v[?i := p]" "same_loop w w'"
    by (simp_all add: w'_def same_loop_def)
  have slot: "slot_of p ?fd" using cD(5) by (auto simp: slot_of_def p_def isNoneEvent_def kNoneEvent_def)
  have other: "nat (ch_index (chans w d)) \<noteq> ?i" if "?m fd = Some d" "fd \<noteq> ?fd" for fd d
    using poll_index_unique(2) [OF w m that(1)] that(2) cD(2) poll_invD(2) [OF w that(1)] by (metis eq_nat_nat_iff)
  have inv: "poll_inv w'"
    unfolding poll_inv_def
  proof (intro conjI allI impI)
    fix fd d assume "pp_channels (poller w') fd = Some d"
    then have d: "?m fd = Some d" by (simp add: ch)
    note dD = poll_invD [OF w d]
    show "ch_fd (chans w' d) = fd" "0 \<le> ch_index (chans w' d)" "ch_index (chans w' d) < int (length (pp_pollfds (poller w')))"
      using dD by (simp_all add: ch nat_less_iff)
    show "slot_of (pp_pollfds (poller w') ! nat (ch_index (chans w' d))) fd"
      using dD(4) other [OF d] d m slot cD(3) by (cases "fd = ?fd") (simp_all add: ch)
  next
    fix i assume "i < length (pp_pollfds (poller w'))"
    then show "\<exists>fd d. pp_channels (poller w') fd = Some d \<and> ch_index (chans w' d) = int i"
      using poll_inv_owner [OF w, of i] unfolding ch length_list_update by metis
  qed
  have "poll_interest w' x = ((poll_interest w)(?fd := if isNoneEvent (chans w c) then None else Some (c, poll_seen (ch_events (chans w c))))) x" for x
  proof (cases "x = ?fd")
    case True
    then show ?thesis using m cD by (simp add: poll_interest_channel [OF inv] ch p_def poll_seen_def)
  next
    case False
    show ?thesis
    proof (cases "?m x")
      case (Some d)
      then show ?thesis using False other [OF Some]
        by (simp add: poll_interest_channel [OF inv] poll_interest_channel [OF w] ch)
    qed (use False in \<open>simp add: poll_interest_channel [OF inv] poll_interest_channel [OF w] ch\<close>)
  qed
  then show ?thesis using upd inv ch by blast
qed

text \<open>
  Removal: the entry of the last channel, if it is another one, moves to the place of the removed entry.
\<close>

lemma poll_rem_ok:
  assumes w: "poll_inv w" and c: "poll_registered w c" "isNoneEvent (chans w c)"
    and unwatched: "poll_interest w (ch_fd (chans w c)) = None"
  shows "\<exists>w'. poll_removeChannel c w = Inr w' \<and> poll_inv w' \<and> same_loop w w' \<and>
        (\<forall>d. ch_events (chans w' d) = ch_events (chans w d) \<and> ch_fd (chans w' d) = ch_fd (chans w d)) \<and>
        (\<forall>d. poll_fresh w d \<longrightarrow> poll_fresh w' d) \<and>
        pp_channels (poller w') = (pp_channels (poller w))(ch_fd (chans w c) := None) \<and> (\<forall>x. poll_interest w' x = poll_interest w x)"
proof -
  let ?fd = "ch_fd (chans w c)" and ?v = "pp_pollfds (poller w)" and ?m = "pp_channels (poller w)"
    and ?i = "nat (ch_index (chans w c))"
  let ?n = "length ?v - 1"
  have m: "?m ?fd = Some c" using c by (simp add: poll_registered_def)
  note cD = poll_invD [OF w m]
  have "pfd_fd (?v ! ?i) \<noteq> ?fd" using unwatched m by (auto simp: poll_interest_channel [OF w] Let_def split: if_splits)
  then have off: "pfd_fd (?v ! ?i) = - ?fd - 1" "pfd_events (?v ! ?i) = 0" using cD(4) by (auto simp: slot_of_def)
  have n: "?n < length ?v" "?i \<le> ?n" using cD(3) by simp_all
  obtain e d where d: "?m e = Some d" "ch_index (chans w d) = int ?n" using poll_inv_owner [OF w n(1)] .
  note dD = poll_invD [OF w d(1)]
  have last: "last ?v = ?v ! ?n" using n(1) by (intro last_conv_nth) auto
  define m1 where "m1 = ?m(?fd := None)"
  define v1 where "v1 = butlast (?v[?i := last ?v])"
  define w' where "w' = (if ?i = ?n then id else set_index (ch_index (chans w c)) d) (w\<lparr>poller := \<lparr>pp_pollfds = v1, pp_channels = m1\<rparr>\<rparr>)"
  have same: "d = c" "e = ?fd" if "?i = ?n"
  proof -
    have "ch_index (chans w d) = ch_index (chans w c)" using that d(2) cD(2) by simp
    then show "d = c" "e = ?fd" using poll_index_unique [OF w d(1) m] by blast+
  qed
  have diff: "e \<noteq> ?fd" "d \<noteq> c" if "?i \<noteq> ?n"
  proof -
    show "d \<noteq> c" using that d(2) by auto
    then show "e \<noteq> ?fd" using d(1) m by auto
  qed
  have idx: "ch_index (chans w c) < int (length ?v)" using cD(2,3) by (simp add: nat_less_iff)
  have rem: "poll_removeChannel c w = Inr w'"
  proof (cases "?i = ?n")
    case True
    have "butlast (?v[?n := last ?v]) = butlast ?v" using n(1) by (simp add: last list_update_id)
    then show ?thesis using True m c(2) cD off idx
      by (simp add: poll_removeChannel_def Let_def w'_def v1_def m1_def isNoneEvent_def kNoneEvent_def nat_less_iff)
  next
    case False
    have at_end: "(if pfd_fd (last ?v) < 0 then - pfd_fd (last ?v) - 1 else pfd_fd (last ?v)) = e"
      using dD(4,5) d(2) by (auto simp: last slot_of_def)
    have "butlast (?v[?i := last ?v, ?n := ?v ! ?i]) = v1"
      using n by (simp add: v1_def butlast_list_update)
    then show ?thesis using False m c(2) cD off diff d(1) idx
      by (simp add: poll_removeChannel_def Let_def w'_def m1_def isNoneEvent_def kNoneEvent_def nat_less_iff at_end)
  qed
  have ch: "pp_pollfds (poller w') = v1" "pp_channels (poller w') = m1" "same_loop w w'"
      "chans w' = (if ?i = ?n then chans w else (chans w)(d := (chans w d)\<lparr>ch_index := ch_index (chans w c)\<rparr>))"
    by (simp_all add: w'_def same_loop_def set_index_def with_channel_def)
  have entry: "nat (ch_index (chans w' x)) < length v1 \<and> 0 \<le> ch_index (chans w' x) \<and>
      v1 ! nat (ch_index (chans w' x)) = ?v ! nat (ch_index (chans w x))" if x: "m1 fd = Some x" for fd x
  proof -
    from x have fd: "fd \<noteq> ?fd" "?m fd = Some x" by (auto simp: m1_def split: if_splits)
    note xD = poll_invD [OF w fd(2)]
    have xi: "nat (ch_index (chans w x)) \<noteq> ?i"
      using poll_index_unique(2) [OF w fd(2) m] fd(1) xD(2) cD(2) by (metis eq_nat_nat_iff)
    show ?thesis
    proof (cases "x = d")
      case True
      with xi d(2) have "?i \<noteq> ?n" by auto
      moreover have "nat (ch_index (chans w d)) = ?n" using d(2) by simp
      ultimately show ?thesis using True n cD(2) by (simp add: ch v1_def nth_butlast last)
    next
      case False
      have "nat (ch_index (chans w x)) \<noteq> ?n"
        using poll_index_unique(1) [OF w fd(2) d(1)] False d(2) xD(2) by (metis int_nat_eq)
      then have "nat (ch_index (chans w x)) < ?n" using xD(3) by linarith
      then show ?thesis using False xi xD(2) by (simp add: ch v1_def nth_butlast)
    qed
  qed
  have fds: "ch_fd (chans w' x) = ch_fd (chans w x)" "ch_events (chans w' x) = ch_events (chans w x)" for x
    by (simp_all add: ch)
  have inv: "poll_inv w'"
    unfolding poll_inv_def
  proof (intro conjI allI impI)
    fix fd x assume "pp_channels (poller w') fd = Some x"
    then have x: "m1 fd = Some x" "?m fd = Some x" by (auto simp: ch m1_def split: if_splits)
    note xD = poll_invD [OF w x(2)] and xE = entry [OF x(1)]
    have "ch_index (chans w' x) < int (length v1)" using xE by linarith
    then
    show "ch_fd (chans w' x) = fd" "0 \<le> ch_index (chans w' x)" "ch_index (chans w' x) < int (length (pp_pollfds (poller w')))"
        "slot_of (pp_pollfds (poller w') ! nat (ch_index (chans w' x))) fd"
      using xD xE by (simp_all add: fds ch(1))
  next
    fix i assume "i < length (pp_pollfds (poller w'))"
    then have i: "i < ?n" by (simp add: ch v1_def)
    show "\<exists>fd x. pp_channels (poller w') fd = Some x \<and> ch_index (chans w' x) = int i"
    proof (cases "i = ?i")
      case True
      with i have "?i \<noteq> ?n" by simp
      then show ?thesis using diff d(1) True cD(2) by (intro exI [of _ e] exI [of _ d]) (simp add: ch m1_def)
    next
      case False
      obtain fd x where x: "?m fd = Some x" "ch_index (chans w x) = int i"
        using poll_inv_owner [OF w, of i] i n by auto
      have "fd \<noteq> ?fd" using x m False by auto
      moreover have "x \<noteq> d" using x(2) d(2) i by auto
      ultimately show ?thesis using x by (intro exI [of _ fd] exI [of _ x]) (simp add: ch m1_def)
    qed
  qed
  have "poll_interest w' x = poll_interest w x" for x
  proof (cases "m1 x")
    case None
    then show ?thesis using unwatched
      by (cases "x = ?fd") (simp_all add: poll_interest_channel [OF inv] poll_interest_channel [OF w] ch m1_def)
  next
    case (Some y)
    then have "?m x = Some y" by (simp add: m1_def split: if_splits)
    with Some entry [OF Some] show ?thesis
      by (simp add: poll_interest_channel [OF inv] poll_interest_channel [OF w] ch(1,2))
  qed
  moreover have "poll_fresh w x \<longrightarrow> poll_fresh w' x" for x
    using dD(2) by (auto simp: poll_fresh_def ch)
  ultimately show ?thesis using rem inv ch(2,3) fds unfolding m1_def by blast
qed

lemma poll_upd_ok:
  assumes w: "poll_inv w" "0 \<le> ch_fd (chans w c)"
    and adm: "poll_registered w c \<or> poll_fresh w c \<and> \<not> isNoneEvent (chans w c) \<and>
      (\<forall>d. poll_registered w d \<longrightarrow> ch_fd (chans w d) \<noteq> ch_fd (chans w c))"
  shows "\<exists>w'. poll_updateChannel c w = Inr w' \<and> poll_inv w' \<and> same_loop w w' \<and>
        (\<forall>d. ch_events (chans w' d) = ch_events (chans w d) \<and> ch_fd (chans w' d) = ch_fd (chans w d)) \<and>
        poll_registered w' = (poll_registered w)(c := True) \<and> (\<forall>d. d \<noteq> c \<and> poll_fresh w d \<longrightarrow> poll_fresh w' d) \<and>
        poll_interest w' = (poll_interest w)(ch_fd (chans w c) :=
          if isNoneEvent (chans w c) then None else Some (c, poll_seen (ch_events (chans w c))))"
proof (cases "poll_registered w c")
  case True
  obtain w' where w': "poll_updateChannel c w = Inr w'" "poll_inv w'" "same_loop w w'" "chans w' = chans w"
      "pp_channels (poller w') = pp_channels (poller w)"
      "\<forall>x. poll_interest w' x = ((poll_interest w)(ch_fd (chans w c) :=
          if isNoneEvent (chans w c) then None else Some (c, poll_seen (ch_events (chans w c))))) x"
    using poll_upd_old [OF w(1) True] by blast
  moreover have "poll_registered w' = (poll_registered w)(c := True)"
    using w'(4,5) True by (auto simp: fun_eq_iff poll_registered_def)
  ultimately show ?thesis by (intro exI [of _ w'] conjI ext) (simp_all add: poll_fresh_def)
next
  case False
  with adm have new: "poll_fresh w c" "\<not> isNoneEvent (chans w c)"
      "\<forall>d. poll_registered w d \<longrightarrow> ch_fd (chans w d) \<noteq> ch_fd (chans w c)" by simp_all
  obtain w' where w': "poll_updateChannel c w = Inr w'" "poll_inv w'" "same_loop w w'"
      "chans w' = (chans w)(c := (chans w c)\<lparr>ch_index := int (length (pp_pollfds (poller w)))\<rparr>)"
      "pp_channels (poller w') = (pp_channels (poller w))(ch_fd (chans w c) := Some c)"
      "\<forall>x. poll_interest w' x = ((poll_interest w)(ch_fd (chans w c) := Some (c, poll_seen (ch_events (chans w c))))) x"
    using poll_upd_new [OF w new] by blast
  moreover have "poll_registered w' d = ((poll_registered w)(c := True)) d" for d
    using w'(4,5) new(3) [rule_format, of d] by (auto simp: poll_registered_def)
  ultimately show ?thesis using new(2) by (intro exI [of _ w'] conjI ext) (simp_all add: poll_fresh_def)
qed

lemma poll_channels_free:
  assumes "poll_inv w" "poller w' = poller w"
    "\<And>d. ch_fd (chans w' d) = ch_fd (chans w d) \<and> ch_index (chans w' d) = ch_index (chans w d)"
  shows "poll_inv w' \<and> poll_registered w' = poll_registered w \<and> poll_fresh w' = poll_fresh w \<and> poll_interest w' = poll_interest w"
proof -
  have "poll_registered w' = poll_registered w" "poll_fresh w' = poll_fresh w"
    using assms(2,3) by (simp_all add: fun_eq_iff poll_registered_def poll_fresh_def)
  moreover have "poll_interest w' = poll_interest w" by (rule ext) (simp only: poll_interest_def assms(2))
  moreover have "poll_inv w'" using assms unfolding poll_inv_def by simp
  ultimately show ?thesis by simp
qed

lemma poll_rem_contract:
  assumes "poll_inv w" "poll_registered w c" "isNoneEvent (chans w c)" "poll_interest w (ch_fd (chans w c)) = None"
  shows "\<exists>w'. poll_removeChannel c w = Inr w' \<and> poll_inv w' \<and> same_loop w w' \<and>
        (\<forall>d. ch_events (chans w' d) = ch_events (chans w d) \<and> ch_fd (chans w' d) = ch_fd (chans w d)) \<and>
        poll_registered w' = (poll_registered w)(c := False) \<and> (\<forall>d. d \<noteq> c \<and> poll_fresh w d \<longrightarrow> poll_fresh w' d) \<and>
        poll_interest w' = poll_interest w"
proof -
  obtain w' where w': "poll_removeChannel c w = Inr w'" "poll_inv w'" "same_loop w w'"
      "\<And>d. ch_events (chans w' d) = ch_events (chans w d) \<and> ch_fd (chans w' d) = ch_fd (chans w d)"
      "\<forall>d. poll_fresh w d \<longrightarrow> poll_fresh w' d"
      "pp_channels (poller w') = (pp_channels (poller w))(ch_fd (chans w c) := None)" "\<And>x. poll_interest w' x = poll_interest w x"
    using poll_rem_ok [OF assms] by blast
  have "poll_registered w' = (poll_registered w)(c := False)"
    using w'(4,6) assms(2) by (auto simp: fun_eq_iff poll_registered_def)
  moreover have "poll_interest w' = poll_interest w" using w'(7) by blast
  ultimately show ?thesis using w' by blast
qed

interpretation pp: poller_contract poll_updateChannel poll_removeChannel poll_seen poll_registered poll_fresh poll_interest poll_inv
  by unfold_locales (erule (1) poll_upd_ok, assumption | erule (3) poll_rem_contract | rule poll_channels_free, assumption+)+

section \<open>Both pollers do what the channels ask for\<close>

definition new_loop :: "'p \<Rightarrow> (nat \<Rightarrow> int) \<Rightarrow> 'p loop_state" where
  "new_loop p fds = \<lparr>chans = (\<lambda>c. Channel_ctor (fds c)), poller = p, loop_eventHandling = False,
     activeChannels = [], currentActiveChannel = None\<rparr>"

lemma new_loop_epoll: "ep.in_step n fds (\<lambda>c. None) [] (new_loop EPollPoller_ctor fds)"
  by (simp add: ep.in_step_def new_loop_def Channel_ctor_def EPollPoller_ctor_def epoll_inv_def epoll_registered_def
      epoll_fresh_def epoll_interest_def epoll_kernel_def epoll_list_def kNew_def)

lemma new_loop_poll: "pp.in_step n fds (\<lambda>c. None) [] (new_loop PollPoller_ctor fds)"
  by (simp add: pp.in_step_def new_loop_def Channel_ctor_def PollPoller_ctor_def poll_inv_def poll_registered_def
      poll_fresh_def poll_interest_def)

text \<open>
  The list the kernel keeps for epoll.  A channel is on it after an update that leaves it wanting something.  An update that leaves
  it wanting nothing takes a channel that is on the list off, but it puts one that is off the list on it again, with an empty mask: a second
  \<^verbatim>\<open>disableAll()\<close> undoes the first.  A removal takes the channel off.
\<close>

fun epoll_listed :: "(nat \<times> channel_call) list \<Rightarrow> (nat \<Rightarrow> poll_events option) \<Rightarrow> (nat \<Rightarrow> bool) \<Rightarrow> nat \<Rightarrow> bool" where
  "epoll_listed [] s on = on"
| "epoll_listed ((c, call) # calls) s on =
     (if call = Remove then epoll_listed calls (s(c := None)) (on(c := False))
      else let e = wanted call (case s c of Some e \<Rightarrow> e | None \<Rightarrow> 0)
           in epoll_listed calls (s(c := Some e)) (on(c := (e \<noteq> 0 \<or> \<not> on c))))"

definition spec_epoll_list :: "nat \<Rightarrow> (nat \<Rightarrow> int) \<Rightarrow> (nat \<Rightarrow> poll_events option) \<Rightarrow> (nat \<Rightarrow> bool) \<Rightarrow> int \<Rightarrow> (nat \<times> poll_events) option" where
  "spec_epoll_list n fds s on fd =
     (case find (\<lambda>c. fds c = fd \<and> s c \<noteq> None \<and> on c) [0..<n] of None \<Rightarrow> None | Some c \<Rightarrow> Some (c, the (s c)))"

abbreviation added :: "EPollPoller loop_state \<Rightarrow> nat \<Rightarrow> bool" where
  "added w c \<equiv> ch_index (chans w c) = kAdded"

lemma epoll_update_added:
  assumes "epoll_updateChannel c w = Inr w'"
  shows "added w' = (added w)(c := (\<not> isNoneEvent (chans w c) \<or> \<not> added w c))"
  using assms
  by (auto simp: epoll_updateChannel_def Let_def require_def index_values fun_eq_iff split: if_splits)

lemma epoll_remove_added:
  assumes "epoll_removeChannel c w = Inr w'"
  shows "added w' = (added w)(c := False)"
  using assms
  by (auto simp: epoll_removeChannel_def Let_def require_def index_values fun_eq_iff split: if_splits)

lemma do_call_added:
  assumes w: "ep.in_step n fds s gone w" and w': "do_call epoll_updateChannel epoll_removeChannel call c w = Inr w'"
  shows "added w' = (added w)(c := (call \<noteq> Remove \<and>
    (wanted call (case s c of Some e \<Rightarrow> e | None \<Rightarrow> 0) \<noteq> 0 \<or> \<not> added w c)))"
proof (cases "call = Remove")
  case True
  with w' have "\<exists>w1. epoll_removeChannel c w1 = Inr w' \<and> added w1 = added w"
    by (auto simp: Channel_remove_def EventLoop_removeChannel_def with_channel_def require_def fun_eq_iff split: if_splits)
  with True epoll_remove_added show ?thesis by fastforce
next
  case False
  then have "do_call epoll_updateChannel epoll_removeChannel call c w = set_events epoll_updateChannel (wanted call) c w"
    by (cases call) (simp_all add: enableReading_def disableReading_def enableWriting_def disableWriting_def disableAll_def kNoneEvent_def
        wanted.simps [abs_def])
  moreover define w1 where "w1 = w\<lparr>chans := (chans w)(c := (chans w c)\<lparr>ch_events := wanted call (ch_events (chans w c)), ch_addedToLoop := True\<rparr>)\<rparr>"
  ultimately have "epoll_updateChannel c w1 = Inr w'"
    using w' by (simp add: set_events_def Channel_update_def EventLoop_updateChannel_def with_channel_def)
  note upd = epoll_update_added [OF this]
  have "added w1 = added w" "isNoneEvent (chans w1 c) \<longleftrightarrow> wanted call (ch_events (chans w c)) = 0"
    by (simp_all add: w1_def fun_eq_iff isNoneEvent_def kNoneEvent_def)
  with upd False ep.in_stepD(6) [OF w, of c] show ?thesis by (simp add: fun_eq_iff)
qed

lemma do_calls_added:
  assumes "ep.in_step n fds s gone w" "\<And>c. c < n \<Longrightarrow> 0 \<le> fds c" "spec_calls n fds calls (s, gone) = Some (s', gone')"
    "do_calls epoll_updateChannel epoll_removeChannel calls w = Inr w'"
  shows "added w' = epoll_listed calls s (added w)"
  using assms(1,3,4)
proof (induction calls arbitrary: s gone w)
  case (Cons x calls)
  obtain c call where x: "x = (c, call)" by (cases x)
  with Cons.prems(2) obtain s1 gone1 where s1: "spec_call n fds c call (s, gone) = Some (s1, gone1)"
      "spec_calls n fds calls (s1, gone1) = Some (s', gone')"
    by (auto split: option.splits)
  obtain w1 where w1: "do_call epoll_updateChannel epoll_removeChannel call c w = Inr w1" "ep.in_step n fds s1 gone1 w1"
    using ep.do_call_in_step [OF Cons.prems(1) assms(2) s1(1)] by blast
  have "added w' = epoll_listed calls s1 (added w1)"
    using Cons.IH [OF w1(2) s1(2)] Cons.prems(3) w1(1) by (simp add: x)
  with do_call_added [OF Cons.prems(1) w1(1)] s1(1) show ?case
    by (auto simp: x spec_call.simps Let_def split: if_splits)
qed simp

lemma epoll_list_exact:
  assumes w: "ep.in_step n fds s gone w"
  shows "epoll_list w = Some (spec_epoll_list n fds s (added w))"
proof -
  note inv = ep.in_stepD(1) [OF w]
  have "epoll_kernel w fd = spec_epoll_list n fds s (added w) fd" for fd
  proof -
    let ?P = "\<lambda>c. fds c = fd \<and> s c \<noteq> None \<and> added w c"
    have m: "ep_channels (poller w) fd = Some c \<longleftrightarrow> fds c = fd \<and> s c \<noteq> None" for c
      using epoll_invD(3) [OF inv, of fd c] ep.in_stepD(3,4) [OF w, of c] by (simp add: epoll_registered_def)
    have on: "map_option fst (epoll_kernel w fd) = Some c \<longleftrightarrow> ?P c" for c
      unfolding epoll_invD(4) [OF inv] using m [of c] by (auto split: option.splits if_splits)
    show ?thesis
    proof (cases "find ?P [0..<n]")
      case None
      then have "\<not> ?P c" for c using ep.in_stepD(5) [OF w, of c] by (auto simp: find_None_iff)
      with on have "map_option fst (epoll_kernel w fd) \<noteq> Some c" for c by blast
      then have "epoll_kernel w fd = None" by (cases "epoll_kernel w fd") auto
      with None show ?thesis by (simp add: spec_epoll_list_def)
    next
      case (Some c)
      then have c: "?P c" by (auto simp: find_Some_iff)
      with on [of c] obtain e where e: "epoll_kernel w fd = Some (c, e)" by (cases "epoll_kernel w fd") auto
      from c obtain e' where e': "s c = Some e'" by blast
      have "e = e'"
        using ep.in_stepD(8) [OF w, of fd c e] ep.in_stepD(8) [OF w, of fd c e'] e e' c by (auto simp: epoll_interest_def split: if_splits)
      with e e' Some show ?thesis by (simp add: spec_epoll_list_def)
    qed
  qed
  then have "epoll_kernel w = spec_epoll_list n fds s (added w)" by (rule ext)
  with epoll_invD(1) [OF inv] show ?thesis by simp
qed


definition demo_calls :: "(nat \<times> channel_call) list" where
  "demo_calls = [(0, EnableReading True), (1, EnableReading False), (0, EnableWriting True), (0, DisableAll),
     (0, Remove), (2, EnableWriting False), (1, DisableAll), (1, EnableReading False)]"

definition demo_fds :: "nat \<Rightarrow> int" where
  "demo_fds c = (if c = 1 then 8 else 7)"

lemma demo_calls_admissible: "spec_calls 3 demo_fds demo_calls (\<lambda>c. None, []) =
    Some ((\<lambda>c. None)(0 := None, 1 := Some 3, 2 := Some 4), [0])"
proof -
  have "[0..<3] = [0, 1, 2 :: nat]" by (simp add: upt_rec)
  then show ?thesis
    by (simp add: demo_calls_def demo_fds_def spec_call.simps readEvent_def writeEvent_def kReadEvent_def kReadEventET_def
        kWriteEvent_def kWriteEventET_def poll_bits fun_upd_def fun_eq_iff)
qed

definition demo_disabled :: "(nat \<times> channel_call) list" where
  "demo_disabled = [(0, EnableReading False), (1, EnableReading False), (0, DisableAll), (0, DisableAll), (1, DisableAll)]"

lemma demo_disabled_admissible: "spec_calls 2 demo_fds demo_disabled (\<lambda>c. None, []) =
    Some ((\<lambda>c. None)(0 := Some 0, 1 := Some 0), [])"
proof -
  have "[0..<2] = [0, 1 :: nat]" by (simp add: upt_rec)
  then show ?thesis
    by (simp add: demo_disabled_def demo_fds_def spec_call.simps readEvent_def kReadEvent_def poll_bits fun_upd_def fun_eq_iff)
qed


lemma fill_delivers:
  "epoll_inv w \<Longrightarrow> distinct (map snd ready) \<Longrightarrow> (\<forall>r \<in> set ready. epoll_kernel w (ch_fd (chans w (snd r))) \<noteq> None \<and> epoll_registered w (snd r)) \<Longrightarrow>
     \<exists>w1. epoll_fillActiveChannels ready w = Inr w1 \<and> activeChannels w1 = activeChannels w @ map snd ready \<and>
       (\<forall>r \<in> set ready. ch_revents (chans w1 (snd r)) = fst r) \<and> (\<forall>d. d \<notin> snd ` set ready \<longrightarrow> chans w1 d = chans w d) \<and>
       (\<forall>d. ch_fd (chans w1 d) = ch_fd (chans w d) \<and> ch_index (chans w1 d) = ch_index (chans w d)) \<and> poller w1 = poller w"
proof (induction ready arbitrary: w)
  case (Cons r ready)
  obtain ev c where r: "r = (ev, c)" by (cases r)
  define w1 where "w1 = with_channel c (\<lambda>ch. ch\<lparr>ch_revents := ev\<rparr>) (w\<lparr>activeChannels := activeChannels w @ [c]\<rparr>)"
  have w1: "poller w1 = poller w" "\<And>d. ch_fd (chans w1 d) = ch_fd (chans w d) \<and> ch_index (chans w1 d) = ch_index (chans w d)"
      "ch_revents (chans w1 c) = ev" "\<And>d. d \<noteq> c \<Longrightarrow> chans w1 d = chans w d" "activeChannels w1 = activeChannels w @ [c]"
    by (simp_all add: w1_def with_channel_def)
  note free = epoll_channels_free [OF Cons.prems(1) w1(1,2)]
  have k: "epoll_kernel w1 = epoll_kernel w" by (simp add: epoll_kernel_def epoll_list_def w1(1))
  have "\<forall>r \<in> set ready. epoll_kernel w1 (ch_fd (chans w1 (snd r))) \<noteq> None \<and> epoll_registered w1 (snd r)"
    using Cons.prems(3) free w1(2) k by simp
  with Cons.IH [of w1] Cons.prems(2) free obtain w2 where w2: "epoll_fillActiveChannels ready w1 = Inr w2"
      "activeChannels w2 = activeChannels w1 @ map snd ready" "\<forall>r \<in> set ready. ch_revents (chans w2 (snd r)) = fst r"
      "\<forall>d. d \<notin> snd ` set ready \<longrightarrow> chans w2 d = chans w1 d"
      "\<forall>d. ch_fd (chans w2 d) = ch_fd (chans w1 d) \<and> ch_index (chans w2 d) = ch_index (chans w1 d)" "poller w2 = poller w1"
    by auto
  have "ep_channels (poller w) (ch_fd (chans w c)) = Some c"
    using epoll_invD(3) [OF Cons.prems(1)] Cons.prems(3) by (simp add: r epoll_registered_def)
  then have "epoll_fillActiveChannels (r # ready) w = Inr w2" using w2(1) by (simp add: r w1_def)
  moreover have "c \<notin> snd ` set ready" using Cons.prems(2) by (simp add: r)
  ultimately show ?case using w2 w1 by (intro exI [of _ w2]) (auto simp: r)
qed simp

text \<open>
  C25.  Delivery.  When \<^verbatim>\<open>epoll_wait\<close> reports events of watched channels, each channel once and no more than
  the list has places for, \<^verbatim>\<open>poll\<close> passes the debug checks, hands the loop exactly these channels in order, each with
  its events, changes nothing the kernel watches, and leaves room for more events than it just received.
\<close>

theorem epoll_poll_delivers:
  assumes "epoll_inv w" "activeChannels w = []" "distinct (map snd ready)" "length ready \<le> ep_events_size (poller w)"
    "\<forall>r \<in> set ready. epoll_kernel w (ch_fd (chans w (snd r))) \<noteq> None \<and> epoll_registered w (snd r)"
    "0 < ep_events_size (poller w)"
  shows "\<exists>w1. epoll_poll ready w = Inr w1 \<and> activeChannels w1 = map snd ready \<and>
     (\<forall>r \<in> set ready. ch_revents (chans w1 (snd r)) = fst r) \<and>
     epoll_inv w1 \<and> epoll_interest w1 = epoll_interest w \<and> length ready < ep_events_size (poller w1)"
proof (cases "ready = []")
  case True
  then show ?thesis using assms by (simp add: epoll_poll_def)
next
  case False
  obtain w1 where w1: "epoll_fillActiveChannels ready w = Inr w1" "activeChannels w1 = map snd ready"
      "\<forall>r \<in> set ready. ch_revents (chans w1 (snd r)) = fst r"
      "\<And>d. ch_fd (chans w1 d) = ch_fd (chans w d) \<and> ch_index (chans w1 d) = ch_index (chans w d)" "poller w1 = poller w"
    using fill_delivers [OF assms(1,3,5)] assms(2) by auto
  define w2 where "w2 = (if length ready = ep_events_size (poller w1)
    then w1\<lparr>poller := (poller w1)\<lparr>ep_events_size := ep_events_size (poller w1) * 2\<rparr>\<rparr> else w1)"
  have w2: "chans w2 = chans w1" "activeChannels w2 = activeChannels w1" "ep_channels (poller w2) = ep_channels (poller w1)"
      "ep_calls (poller w2) = ep_calls (poller w1)" "length ready < ep_events_size (poller w2)"
    using assms(4,6) w1(5) by (simp_all add: w2_def)
  have free: "epoll_inv w1" "epoll_interest w1 = epoll_interest w" using epoll_channels_free [OF assms(1) w1(5,4)] by simp_all
  have "epoll_inv w2" "epoll_interest w2 = epoll_interest w1"
    using free(1) unfolding epoll_inv_def epoll_interest_def epoll_kernel_def epoll_list_def w2(1,3,4)
    by (blast, intro ext) (simp only: epoll_interest_def epoll_kernel_def epoll_list_def w2(4))
  moreover have "epoll_poll ready w = Inr w2"
    using False assms(4) w1(1) by (simp add: epoll_poll_def w2_def)
  ultimately show ?thesis using w1 w2 free by (intro exI [of _ w2]) simp
qed

definition demo_watching :: "EPollPoller loop_state" where
  "demo_watching = (case do_calls epoll_updateChannel epoll_removeChannel [(0, EnableReading False)] (new_loop EPollPoller_ctor demo_fds) of
     Inr w \<Rightarrow> w | Inl _ \<Rightarrow> new_loop EPollPoller_ctor demo_fds)"

lemma demo_watching_eq: "demo_watching = (new_loop EPollPoller_ctor demo_fds)\<lparr>
    chans := (\<lambda>c. Channel_ctor (demo_fds c))(0 := \<lparr>ch_fd = 7, ch_events = 3, ch_revents = 0, ch_index = 1, ch_tied = False,
       ch_eventHandling = False, ch_addedToLoop = True\<rparr>),
    poller := \<lparr>ep_channels = (\<lambda>fd. None)(7 := Some 0), ep_calls = [(EPOLL_CTL_ADD, 7, 0, 3)], ep_events_size = 16\<rparr>\<rparr>"
  by (simp add: demo_watching_def enableReading_def set_events_def Channel_update_def EventLoop_updateChannel_def
      epoll_updateChannel_def new_loop_def with_channel_def Channel_ctor_def EPollPoller_ctor_def demo_fds_def index_values
      epoll_update_def set_index_def kInitEventListSize_def readEvent_def kReadEvent_def poll_bits Let_def)

theorem epoll_poll_delivers_witness:
  "\<exists>w1. epoll_poll [(1, 0)] demo_watching = Inr w1 \<and> activeChannels w1 = [0] \<and> ch_revents (chans w1 0) = 1"
proof -
  have inv: "epoll_inv demo_watching"
  proof -
    have "spec_calls 1 demo_fds [(0, EnableReading False)] (\<lambda>c. None, []) = Some ((\<lambda>c. None)(0 := Some 3), [])"
      by (simp add: spec_call.simps readEvent_def kReadEvent_def poll_bits)
    from ep.do_calls_in_step [OF new_loop_epoll _ this] show ?thesis
      by (auto simp: demo_watching_def demo_fds_def dest: ep.in_stepD(1))
  qed
  have k: "epoll_kernel demo_watching 7 = Some (0, 3)" by (simp add: epoll_kernel_def epoll_list_def demo_watching_eq)
  show ?thesis
    using epoll_poll_delivers [of demo_watching "[(1, 0)]", OF inv] k
    by (auto simp: demo_watching_eq new_loop_def epoll_registered_def kNew_def)
qed

end
