(* ===== verification/WS_TcpInv.thy ===== *)
theory WS_TcpInv
  imports WS_Tcp WS_Poll
begin

text \<open>
  The life of a connection: histories of readiness, queued functors and calls of the user, the invariant they keep, the order of the
  bytes sent, and the inputs that break them.
\<close>

section \<open>What a connection has done\<close>

definition told :: "'w TcpConnection \<Rightarrow> tcp_callback list" where
  "told c = filter (\<lambda>x. case x of ConnectionCalled _ \<Rightarrow> True | CloseCalled \<Rightarrow> True | _ \<Rightarrow> False) (tc_trace c)"

definition accepted :: "'w TcpConnection \<Rightarrow> bytes" where
  "accepted c = concat (map (\<lambda>x. case x of SendAccepted d n \<Rightarrow> d | _ \<Rightarrow> []) (tc_trace c))"

text \<open>
  What the messages become on the wire: of a message of which \<open>n\<close> bytes are written at once, the rest that is buffered is not its end but
  its beginning, because \<^verbatim>\<open>nwrote\<close> has been set to zero.
\<close>

definition stream :: "'w TcpConnection \<Rightarrow> bytes" where
  "stream c = concat (map (\<lambda>x. case x of SendAccepted d n \<Rightarrow> take n d @ take (length d - n) d | _ \<Rightarrow> []) (tc_trace c))"

text \<open>No message has been split: each was written whole at once, or buffered whole.\<close>

definition unsplit :: "'w TcpConnection \<Rightarrow> bool" where
  "unsplit c \<longleftrightarrow> list_all (\<lambda>x. case x of SendAccepted d n \<Rightarrow> n = 0 \<or> n = length d | _ \<Rightarrow> True) (tc_trace c)"

lemma stream_unsplit: "unsplit c \<Longrightarrow> stream c = accepted c"
proof -
  have "list_all (\<lambda>x. case x of SendAccepted d n \<Rightarrow> n = 0 \<or> n = length d | _ \<Rightarrow> True) xs \<Longrightarrow>
      concat (map (\<lambda>x. case x of SendAccepted d n \<Rightarrow> take n d @ take (length d - n) d | _ \<Rightarrow> []) xs) =
      concat (map (\<lambda>x. case x of SendAccepted d n \<Rightarrow> d | _ \<Rightarrow> []) xs)" for xs
    by (induction xs) (auto split: tcp_callback.splits)
  then show "unsplit c \<Longrightarrow> stream c = accepted c" by (simp add: unsplit_def stream_def accepted_def)
qed

text \<open>The state of the poller contract after the calls the connection made on its channel.\<close>

definition polled :: "'w TcpConnection \<Rightarrow> spec_state option" where
  "polled c = spec_calls 1 (\<lambda>_. ch_fd (tc_channel c)) (map (Pair 0) (tc_polls c)) (\<lambda>_. None, [])"

lemma spec_calls_append: "spec_calls n fds (xs @ ys) s = Option.bind (spec_calls n fds xs s) (spec_calls n fds ys)"
  by (induction n fds xs s rule: spec_calls.induct) (simp_all split: option.splits)

lemma polled_call:
  assumes "polled c = Some ((\<lambda>_. None)(0 := Some e), [])" "call \<noteq> Remove"
  shows "polled (c\<lparr>tc_polls := tc_polls c @ [call]\<rparr>) = Some ((\<lambda>_. None)(0 := Some (wanted call e)), [])"
  using assms by (simp add: polled_def spec_calls_append spec_call.simps Let_def fun_upd_def fun_eq_iff)

lemma polled_remove:
  assumes "polled c = Some ((\<lambda>_. None)(0 := Some 0), [])"
  shows "polled (c\<lparr>tc_polls := tc_polls c @ [Remove]\<rparr>) = Some (\<lambda>_. None, [0])"
  using assms by (simp add: polled_def spec_calls_append spec_call.simps Let_def fun_upd_def fun_eq_iff)

section \<open>The invariant\<close>

abbreviation live :: "'w TcpConnection \<Rightarrow> bool" where
  "live c \<equiv> tc_state c = kConnected \<or> tc_state c = kDisconnecting"

definition base_ok :: "'w TcpConnection \<Rightarrow> bool" where
  "base_ok c \<longleftrightarrow> \<not> tc_ssl_ctx c \<and> \<not> tc_ssl c \<and> buffer_inv (tc_inputBuffer c) \<and> buffer_inv (tc_outputBuffer c) \<and>
     polled c = Some ((\<lambda>_. None)(0 := Some (ch_events (tc_channel c))), []) \<and>
     tc_sent c @ content (tc_outputBuffer c) = stream c"

text \<open>The queued functors that are not harmless at any time.\<close>

definition own :: "'w TcpConnection \<Rightarrow> pending_functor list" where
  "own c = filter (\<lambda>f. case f of SendInLoop _ \<Rightarrow> True | ConnectDestroyed \<Rightarrow> True | StartReadInLoop \<Rightarrow> True | _ \<Rightarrow> False) (tc_queue c)"

definition only_sends :: "pending_functor list \<Rightarrow> bool" where
  "only_sends fs \<longleftrightarrow> list_all (\<lambda>f. case f of SendInLoop d \<Rightarrow> d \<noteq> [] | _ \<Rightarrow> False) fs"

text \<open>Up: what waits to be sent is being watched for, and the user has been told once.  \<open>E\<close> are the values \<^verbatim>\<open>errno\<close> may have.\<close>

definition open_ok :: "int set \<Rightarrow> 'w TcpConnection \<Rightarrow> bool" where
  "open_ok E c \<longleftrightarrow> base_ok c \<and> live c \<and> tc_errno c \<in> E \<and> tc_registered c \<and>
     (isWriting (tc_channel c) \<longleftrightarrow> content (tc_outputBuffer c) \<noteq> []) \<and> told c = [ConnectionCalled kConnected] \<and>
     only_sends (own c)"

text \<open>Down: nothing is watched, and the user and the owner have been told once.\<close>

definition shut_ok :: "'w TcpConnection \<Rightarrow> bool" where
  "shut_ok c \<longleftrightarrow> base_ok c \<and> tc_state c = kDisconnected \<and> ch_events (tc_channel c) = 0 \<and>
     told c = [ConnectionCalled kConnected, ConnectionCalled kDisconnected, CloseCalled] \<and> StartReadInLoop \<notin> set (own c)"

text \<open>Gone: the channel is out of the poller.\<close>

definition gone_ok :: "'w TcpConnection \<Rightarrow> bool" where
  "gone_ok c \<longleftrightarrow> tc_state c = kDisconnected \<and> polled c = Some (\<lambda>_. None, [0]) \<and> Remove \<in> set (tc_polls c) \<and>
     told c = [ConnectionCalled kConnected, ConnectionCalled kDisconnected, CloseCalled]"

abbreviation again :: "int set" where
  "again \<equiv> {0, EAGAIN, EINTR}"

lemmas conn_unfold = open_ok_def shut_ok_def base_ok_def polled_def stream_def told_def own_def

lemma base_call:
  assumes "base_ok c" "call \<noteq> Remove"
  shows "base_ok (tc_call call c)"
  using assms polled_call [of c "ch_events (tc_channel c)" call]
  by (simp add: base_ok_def tc_call_def polled_def stream_def)

lemma isWriting_enable [simp]: "isWriting (ch\<lparr>ch_events := e OR writeEvent et\<rparr>)"
  by (cases et) (simp_all add: isWriting_def writeEvent_def kWriteEvent_def kWriteEventET_def poll_bits bit.conj_disj_distrib2)

lemma pollout_bits:
  "readEvent et AND kWriteEvent = 0" "NOT (readEvent et) AND kWriteEvent = kWriteEvent" "NOT (writeEvent et) AND kWriteEvent = 0"
  by (cases et; simp add: readEvent_def writeEvent_def kReadEvent_def kReadEventET_def kWriteEvent_def kWriteEventET_def poll_bits)+

lemma and_pollout [simp]:
  "(e OR readEvent et) AND kWriteEvent = e AND kWriteEvent" "(e AND NOT (readEvent et)) AND kWriteEvent = e AND kWriteEvent"
  "(e AND NOT (writeEvent et)) AND kWriteEvent = 0"
  by (simp_all add: bit.conj_disj_distrib2 pollout_bits and.assoc)

lemma tc_call_simps [simp]:
  "tc_state (tc_call call c) = tc_state c" "tc_errno (tc_call call c) = tc_errno c" "tc_outputBuffer (tc_call call c) = tc_outputBuffer c"
  "tc_inputBuffer (tc_call call c) = tc_inputBuffer c" "tc_ssl (tc_call call c) = tc_ssl c" "tc_ssl_ctx (tc_call call c) = tc_ssl_ctx c"
  "tc_et (tc_call call c) = tc_et c" "tc_trace (tc_call call c) = tc_trace c" "tc_sent (tc_call call c) = tc_sent c"
  "tc_writes (tc_call call c) = tc_writes c" "tc_reads (tc_call call c) = tc_reads c" "tc_queue (tc_call call c) = tc_queue c"
  "tc_fin (tc_call call c) = tc_fin c" "told (tc_call call c) = told c" "accepted (tc_call call c) = accepted c" "stream (tc_call call c) = stream c"
  "tc_wsContext (tc_call call c) = tc_wsContext c" "tc_polls (tc_call call c) = tc_polls c @ [call]"
  "tc_sslConnected (tc_call call c) = tc_sslConnected c" "tc_registered (tc_call call c) = tc_registered c"
  by (simp_all add: tc_call_def told_def accepted_def stream_def)

lemma tc_call_writing [simp]:
  "isWriting (tc_channel (tc_call (EnableWriting et) c))" "isWriting (tc_channel (tc_call (EnableReading et) c)) = isWriting (tc_channel c)"
  "isWriting (tc_channel (tc_call (DisableReading et) c)) = isWriting (tc_channel c)"
  "\<not> isWriting (tc_channel (tc_call (DisableWriting et) c))" "ch_events (tc_channel (tc_call DisableAll c)) = 0"
  "\<not> isWriting (tc_channel (tc_call DisableAll c))"
proof -
  show "isWriting (tc_channel (tc_call (EnableWriting et) c))"
    using isWriting_enable [where e = "ch_events (tc_channel c)" and et = et] by (simp add: tc_call_def isWriting_def)
qed (simp_all add: tc_call_def isWriting_def)

lemma readable_content: "buffer_inv b \<Longrightarrow> readableBytes b = 0 \<longleftrightarrow> content b = []"
  using content_length [of b] by (metis length_0_conv)

section \<open>Writing\<close>

text \<open>Answers to writes that are not failures of the connection.\<close>

definition quiet_writes :: "write_answer list \<Rightarrow> bool" where
  "quiet_writes ws \<longleftrightarrow> list_all (\<lambda>a. case a of Took k \<Rightarrow> 0 < k | WriteFails e \<Rightarrow> e = EAGAIN \<or> e = EINTR) ws"

lemma quiet_subset: "quiet_writes ws \<Longrightarrow> set ws' \<subseteq> set ws \<Longrightarrow> quiet_writes ws'"
  by (auto simp: quiet_writes_def list_all_iff)

lemma writeFull_quiet:
  assumes "quiet_writes ws" "data \<noteq> []" "writeFull e data ws = (n, s, e', ws')"
  shows "quiet_writes ws'" "n = length data \<and> s > 0 \<and> e' = e \<or> n < length data \<and> s = -1 \<and> (e' = EAGAIN \<or> e' = EINTR)"
proof -
  note ends = writeFull_ends [OF assms(2,3)]
  show "quiet_writes ws'" by (rule quiet_subset [OF assms(1) ends(1)])
  show "n = length data \<and> s > 0 \<and> e' = e \<or> n < length data \<and> s = -1 \<and> (e' = EAGAIN \<or> e' = EINTR)"
    using ends(2) assms(1) by (auto simp: write_ends_def quiet_writes_def list_all_iff split: write_answer.splits)
qed

text \<open>The part of the state that sending does not touch.\<close>

definition same_rest :: "'w TcpConnection \<Rightarrow> 'w TcpConnection \<Rightarrow> bool" where
  "same_rest c c' \<longleftrightarrow> tc_state c' = tc_state c \<and> tc_inputBuffer c' = tc_inputBuffer c \<and> tc_fin c' = tc_fin c \<and>
     tc_wsContext c' = tc_wsContext c \<and> told c' = told c \<and> tc_reads c' = tc_reads c \<and> tc_et c' = tc_et c \<and> own c' = own c \<and>
     tc_registered c' = tc_registered c"

lemma same_rest_refl [simp]: "same_rest c c"
  by (simp add: same_rest_def)

lemma same_rest_trans: "same_rest c c1 \<Longrightarrow> same_rest c1 c2 \<Longrightarrow> same_rest c c2"
  by (simp add: same_rest_def)

lemma own_simps [simp]: "own (tc_call call c) = own c" "own (QueueInLoop WriteCompleteCallback c) = own c"
    "own (QueueInLoop (HighWaterMarkCallback n) c) = own c" "own (QueueInLoop ForceCloseInLoop c) = own c"
    "own (QueueInLoop ShutdownInLoop c) = own c" "own (QueueInLoop StopReadInLoop c) = own c"
    "own (QueueInLoop (SendInLoop d) c) = own c @ [SendInLoop d]" "own (QueueInLoop ConnectDestroyed c) = own c @ [ConnectDestroyed]"
  by (simp_all add: own_def QueueInLoop_def)

text \<open>All of the invariant but the equation of the stream, which holds again when what is left of a message has been buffered.\<close>

definition part_ok :: "'w TcpConnection \<Rightarrow> bool" where
  "part_ok c \<longleftrightarrow> \<not> tc_ssl_ctx c \<and> \<not> tc_ssl c \<and> buffer_inv (tc_inputBuffer c) \<and> buffer_inv (tc_outputBuffer c) \<and>
     polled c = Some ((\<lambda>_. None)(0 := Some (ch_events (tc_channel c))), [])"

lemma base_part: "base_ok c \<longleftrightarrow> part_ok c \<and> tc_sent c @ content (tc_outputBuffer c) = stream c"
  by (auto simp: base_ok_def part_ok_def)

lemma part_call: "part_ok c \<Longrightarrow> call \<noteq> Remove \<Longrightarrow> part_ok (tc_call call c)"
  using polled_call [of c "ch_events (tc_channel c)" call] by (simp add: part_ok_def tc_call_def polled_def)

lemma append_kept:
  assumes "part_ok c"
  shows "\<exists>c'. sendInLoop_append cb xs c = Inr c' \<and> part_ok c' \<and> same_rest c c' \<and> tc_errno c' = tc_errno c \<and> isWriting (tc_channel c') \<and>
     content (tc_outputBuffer c') = content (tc_outputBuffer c) @ xs \<and> tc_sent c' = tc_sent c \<and> tc_writes c' = tc_writes c \<and>
     tc_trace c' = tc_trace c"
proof -
  define c2 where "c2 = (if readableBytes (tc_outputBuffer c) + length xs \<ge> tc_highWaterMark c \<and> readableBytes (tc_outputBuffer c) < tc_highWaterMark c \<and>
      highWaterMarkCallback cb then QueueInLoop (HighWaterMarkCallback (readableBytes (tc_outputBuffer c) + length xs)) c else c)"
  have c2: "tc_outputBuffer c2 = tc_outputBuffer c" "part_ok c2" "tc_errno c2 = tc_errno c" "tc_sent c2 = tc_sent c"
      "tc_writes c2 = tc_writes c" "tc_trace c2 = tc_trace c" "same_rest c c2"
    using assms by (simp_all add: c2_def QueueInLoop_def part_ok_def polled_def same_rest_def told_def own_def)
  obtain out where out: "append (tc_outputBuffer c) xs = Inr out" "buffer_inv out" "content out = content (tc_outputBuffer c) @ xs"
    using append_ok [of "tc_outputBuffer c" xs] assms by (auto simp: part_ok_def)
  define c3 where "c3 = c2\<lparr>tc_outputBuffer := out\<rparr>"
  have c3: "part_ok c3" using c2(2) out(2) by (simp add: c3_def part_ok_def polled_def)
  define c4 where "c4 = (if \<not> isWriting (tc_channel c3) then tc_call (EnableWriting (tc_et c3)) c3 else c3)"
  have "sendInLoop_append cb xs c = Inr c4"
    unfolding sendInLoop_append_def Let_def c2_def [symmetric] c2(1) out(1) rbind_simps c3_def [symmetric] c4_def [symmetric] ..
  moreover have "part_ok c4" using c3 part_call [of c3] by (simp add: c4_def)
  moreover have "same_rest c c4" using c2(7) by (simp add: c4_def c3_def same_rest_def told_def tc_call_def own_def)
  ultimately show ?thesis
    using out(3) c2 by (intro exI [of _ c4]) (simp add: c4_def c3_def)
qed

lemma send_queued:
  assumes c: "base_ok c" "live c" and busy: "isWriting (tc_channel c) \<or> content (tc_outputBuffer c) \<noteq> []" and data: "data \<noteq> []"
  shows "sendInLoop cb data c = sendInLoop_append cb data (c\<lparr>tc_trace := tc_trace c @ [SendAccepted data 0]\<rparr>)"
proof -
  have "isWriting (tc_channel c) \<or> readableBytes (tc_outputBuffer c) \<noteq> 0"
    using busy c(1) readable_content [of "tc_outputBuffer c"] by (auto simp: base_ok_def)
  moreover have "tc_state c \<noteq> kDisconnected" using c(2) by auto
  ultimately show ?thesis using data by (auto simp: sendInLoop_def)
qed

definition sent_some :: "'w tcp_callbacks \<Rightarrow> bytes \<Rightarrow> nat \<Rightarrow> int \<Rightarrow> write_answer list \<Rightarrow> 'w TcpConnection \<Rightarrow> 'w TcpConnection" where
  "sent_some cb data n e ws c =
     (let c1 = c\<lparr>tc_errno := e, tc_writes := ws, tc_sent := tc_sent c @ take n data, tc_trace := tc_trace c @ [SendAccepted data n]\<rparr>
      in if n = length data \<and> writeCompleteCallback cb then QueueInLoop WriteCompleteCallback c1 else c1)"

lemma sent_some_simps [simp]:
  "tc_errno (sent_some cb data n e ws c) = e" "tc_writes (sent_some cb data n e ws c) = ws"
  "tc_sent (sent_some cb data n e ws c) = tc_sent c @ take n data" "tc_outputBuffer (sent_some cb data n e ws c) = tc_outputBuffer c"
  "tc_trace (sent_some cb data n e ws c) = tc_trace c @ [SendAccepted data n]" "tc_channel (sent_some cb data n e ws c) = tc_channel c"
  "tc_state (sent_some cb data n e ws c) = tc_state c"
  by (simp_all add: sent_some_def Let_def QueueInLoop_def)

lemma sent_some_kept: "part_ok c \<Longrightarrow> part_ok (sent_some cb data n e ws c)" "same_rest c (sent_some cb data n e ws c)"
  by (simp_all add: sent_some_def Let_def QueueInLoop_def part_ok_def polled_def same_rest_def told_def own_def)

lemma send_direct:
  assumes c: "base_ok c" "live c" and idle: "\<not> isWriting (tc_channel c)" "content (tc_outputBuffer c) = []"
    and w: "writeFull (tc_errno c) data (tc_writes c) = (n, s, e, ws)"
  shows "sendInLoop cb data c = rbind (sendInLoop_errno cb s (sent_some cb data n e ws c)) (\<lambda>c3.
      if \<not> (tc_errno c3 = EPIPE \<or> tc_errno c3 = ECONNRESET) \<and> n < length data
      then sendInLoop_append cb (take (length data - n) data) c3 else Inr c3)"
proof -
  have idle': "readableBytes (tc_outputBuffer c) = 0" "\<not> tc_ssl c"
    using idle c(1) readable_content [of "tc_outputBuffer c"] by (auto simp: base_ok_def)
  have n: "length data - n = 0 \<longleftrightarrow> n = length data" using writeFull_le [OF w] by auto
  have fault: "x \<noteq> EAGAIN \<and> x \<noteq> EINTR \<and> (x = EPIPE \<or> x = ECONNRESET) \<longleftrightarrow> x = EPIPE \<or> x = ECONNRESET" for x
    by (auto simp: errno_defs)
  have "sendInLoop_write cb data c = rbind (sendInLoop_errno cb s (sent_some cb data n e ws c))
      (\<lambda>c3. Inr (0, length data - n, tc_errno c3 = EPIPE \<or> tc_errno c3 = ECONNRESET, c3))"
    using idle'(2) w n by (simp add: sendInLoop_write_def Let_def sent_some_def fault)
  moreover have "tc_state c \<noteq> kDisconnected" using c(2) by auto
  ultimately show ?thesis
    using idle(1) idle'(1) by (cases "sendInLoop_errno cb s (sent_some cb data n e ws c)") (simp_all add: sendInLoop_def)
qed

lemma stream_snoc: "tc_trace c' = tc_trace c @ [SendAccepted data n] \<Longrightarrow> stream c' = stream c @ take n data @ take (length data - n) data"
  by (simp add: stream_def)

lemma sendInLoop_quiet:
  assumes c: "open_ok again c" "quiet_writes (tc_writes c)" and data: "data \<noteq> []"
  shows "\<exists>c' n. sendInLoop cb data c = Inr c' \<and> open_ok again c' \<and> same_rest c c' \<and> quiet_writes (tc_writes c') \<and>
     tc_trace c' = tc_trace c @ [SendAccepted data n] \<and> (tc_errno c = 0 \<longrightarrow> tc_errno c' = 0)"
proof (cases "isWriting (tc_channel c) \<or> content (tc_outputBuffer c) \<noteq> []")
  case True
  define c0 where "c0 = c\<lparr>tc_trace := tc_trace c @ [SendAccepted data 0]\<rparr>"
  have base: "base_ok c" "live c" using c(1) by (simp_all add: open_ok_def)
  then have "part_ok c0" by (simp add: c0_def part_ok_def base_ok_def polled_def)
  from append_kept [OF this, of cb data]
  obtain c' where c': "sendInLoop_append cb data c0 = Inr c'" "part_ok c'" "same_rest c0 c'" "tc_errno c' = tc_errno c0"
      "isWriting (tc_channel c')" "content (tc_outputBuffer c') = content (tc_outputBuffer c0) @ data" "tc_sent c' = tc_sent c0"
      "tc_writes c' = tc_writes c0" "tc_trace c' = tc_trace c0" by blast
  have "sendInLoop cb data c = Inr c'" using send_queued [OF base True data] c'(1) by (simp add: c0_def)
  moreover have "same_rest c c0" by (simp add: c0_def same_rest_def told_def own_def)
  then have "same_rest c c'" using c'(3) by (rule same_rest_trans)
  moreover have "base_ok c'" using c' base(1) stream_snoc [of c' c data 0] by (simp add: base_part c0_def)
  moreover from calculation have "open_ok again c'" using c(1) c' data by (simp add: open_ok_def same_rest_def c0_def)
  ultimately show ?thesis using c(2) c' by (intro exI [of _ c'] exI [of _ 0]) (simp add: c0_def)
next
  case False
  have base: "base_ok c" "live c" using c(1) by (simp_all add: open_ok_def)
  obtain n s e ws where w: "writeFull (tc_errno c) data (tc_writes c) = (n, s, e, ws)" by (metis prod_cases4)
  note wq = writeFull_quiet [OF c(2) data w]
  define c3 where "c3 = (sent_some cb data n e ws c)\<lparr>tc_errno := 0\<rparr>"
  have "tc_errno c \<in> again" using c(1) by (simp add: open_ok_def)
  then have e: "e = 0 \<or> e = EAGAIN \<or> e = EINTR" "s \<noteq> 0" using wq(2) by auto
  define u where "u = sent_some cb data n e ws c"
  have "sendInLoop_errno cb s u = Inr (u\<lparr>tc_errno := 0\<rparr>)"
    using e by (cases "e = 0") (auto simp: sendInLoop_errno_def u_def sent_some_def Let_def QueueInLoop_def)
  then have "sendInLoop_errno cb s (sent_some cb data n e ws c) = Inr c3" by (simp add: u_def c3_def)
  then have send: "sendInLoop cb data c =
      (if n < length data then sendInLoop_append cb (take (length data - n) data) c3 else Inr c3)"
    using send_direct [OF base _ _ w, of cb] False by (simp add: c3_def errno_defs)
  have c3: "part_ok c3" "same_rest c c3" "tc_sent c3 = tc_sent c @ take n data" "tc_writes c3 = ws" "tc_outputBuffer c3 = tc_outputBuffer c"
      "tc_trace c3 = tc_trace c @ [SendAccepted data n]" "tc_errno c3 = 0"
    using base(1) sent_some_kept [of c cb data n e ws]
    by (simp_all add: c3_def base_part part_ok_def polled_def same_rest_def told_def own_def)
  show ?thesis
  proof (cases "n < length data")
    case True
    obtain c' where c': "sendInLoop_append cb (take (length data - n) data) c3 = Inr c'" "part_ok c'" "same_rest c3 c'"
        "tc_errno c' = tc_errno c3" "isWriting (tc_channel c')"
        "content (tc_outputBuffer c') = content (tc_outputBuffer c3) @ take (length data - n) data"
        "tc_sent c' = tc_sent c3" "tc_writes c' = tc_writes c3" "tc_trace c' = tc_trace c3"
      using append_kept [OF c3(1), of cb "take (length data - n) data"] by blast
    have rest: "same_rest c c'" using c3(2) c'(3) by (rule same_rest_trans)
    moreover have "base_ok c'"
      using c' c3 base(1) False stream_snoc [of c' c data n] by (simp add: base_part)
    ultimately have "open_ok again c'" using c(1) c' c3 True data by (simp add: open_ok_def same_rest_def)
    then show ?thesis using send True c' c3 rest wq(1) by (intro exI [of _ c'] exI [of _ n]) simp
  next
    case False': False
    have "base_ok c3" using c3 base(1) False False' stream_snoc [of c3 c data n] by (simp add: base_part)
    moreover have "tc_channel c3 = tc_channel c" by (simp add: c3_def)
    ultimately have "open_ok again c3" using c(1) c3 False by (simp add: open_ok_def same_rest_def)
    then show ?thesis using send False' c3 wq(1) by (intro exI [of _ c3] exI [of _ n]) simp
  qed
qed

section \<open>What the user does\<close>

text \<open>
  Calls on the connection from the thread of the loop, or queued from another thread.  The user sends no empty message, starts
  reading only while the connection is up, and leaves \<^verbatim>\<open>errno\<close> as a successful or interrupted call does.
\<close>

inductive user_step :: "'w tcp_callbacks \<Rightarrow> 'w TcpConnection \<Rightarrow> 'w TcpConnection \<Rightarrow> bool" for cb where
  user_send: "data \<noteq> [] \<Longrightarrow> send inLoop cb data c = Inr c' \<Longrightarrow> user_step cb c c'"
| user_shutdown: "user_step cb c (shutdown inLoop c)"
| user_forceClose: "user_step cb c (forceClose c)"
| user_forceCloseWithDelay: "user_step cb c (forceCloseWithDelay seconds c)"
| user_startRead: "tc_state c \<noteq> kDisconnected \<Longrightarrow> user_step cb c (startReadInLoop c)"
| user_stopRead: "user_step cb c (stopRead inLoop c)"
| user_input: "buffer_inv b \<Longrightarrow> user_step cb c (c\<lparr>tc_inputBuffer := b\<rparr>)"
| user_context: "user_step cb c (c\<lparr>tc_wsContext := w\<rparr>)"
| user_errno: "e \<in> again \<Longrightarrow> user_step cb c (c\<lparr>tc_errno := e\<rparr>)"

abbreviation user_steps :: "'w tcp_callbacks \<Rightarrow> 'w TcpConnection \<Rightarrow> 'w TcpConnection \<Rightarrow> bool" where
  "user_steps cb \<equiv> (user_step cb)\<^sup>*\<^sup>*"

lemma open_frame:
  assumes "open_ok E c" "live c'" "tc_ssl_ctx c' = tc_ssl_ctx c" "tc_ssl c' = tc_ssl c" "buffer_inv (tc_inputBuffer c')"
    "tc_outputBuffer c' = tc_outputBuffer c" "tc_channel c' = tc_channel c" "tc_polls c' = tc_polls c" "tc_trace c' = tc_trace c"
    "tc_sent c' = tc_sent c" "tc_errno c' \<in> E" "only_sends (own c')" "tc_registered c' = tc_registered c"
  shows "open_ok E c'"
  using assms by (simp add: open_ok_def base_ok_def polled_def stream_def told_def)

lemma open_call:
  assumes "open_ok E c" "call \<noteq> Remove" "isWriting (tc_channel (tc_call call c)) = isWriting (tc_channel c)"
  shows "open_ok E (tc_call call c)"
  using assms base_call [of c call] by (simp add: open_ok_def)

lemma open_weaken: "open_ok E c \<Longrightarrow> E \<subseteq> E' \<Longrightarrow> open_ok E' c"
  by (auto simp: open_ok_def)

lemma open_settle: "open_ok E c \<Longrightarrow> open_ok {0} (c\<lparr>tc_errno := 0\<rparr>)"
  by (simp add: conn_unfold)

lemma open_live: "open_ok E c \<Longrightarrow> tc_state c \<noteq> kDisconnected"
  by (auto simp: open_ok_def)

lemma open_input: "open_ok E c \<Longrightarrow> buffer_inv (tc_inputBuffer c)"
  by (simp add: open_ok_def base_ok_def)

lemma open_errno: "open_ok E c \<Longrightarrow> tc_errno c \<in> E" "open_ok E c \<Longrightarrow> only_sends (own c)"
  by (simp_all add: open_ok_def)

lemma user_step_ok:
  assumes "user_step cb c c'" "open_ok again c" "quiet_writes (tc_writes c)"
  shows "open_ok again c' \<and> quiet_writes (tc_writes c')"
  using assms
proof (induction rule: user_step.induct)
  case (user_send data inLoop c c')
  show ?case
  proof (cases "tc_state c = kConnected \<and> inLoop")
    case True
    then show ?thesis using user_send sendInLoop_quiet [of c data cb] by (auto simp: send_def)
  next
    case False
    then have c': "c' = (if tc_state c = kConnected then QueueInLoop (SendInLoop data) c else c)" using user_send(2) by (auto simp: send_def)
    have "only_sends (own (QueueInLoop (SendInLoop data) c))"
      using open_errno(2) [OF user_send(3)] user_send(1) by (simp add: only_sends_def)
    then show ?thesis
      using user_send(3,4) open_input [OF user_send(3)] open_errno(1) [OF user_send(3)] unfolding c'
      by (auto intro!: open_frame [OF user_send(3)] simp: QueueInLoop_def)
  qed
next
  case (user_shutdown c inLoop)
  have "open_ok again (shutdown inLoop c)"
    by (rule open_frame [OF user_shutdown(1)])
      (use user_shutdown open_input [OF user_shutdown(1)] open_errno [OF user_shutdown(1)] in
        \<open>auto simp: shutdown_def shutdownInLoop_def QueueInLoop_def Let_def open_ok_def own_def\<close>)
  then show ?case using user_shutdown(2) by (simp add: shutdown_def shutdownInLoop_def QueueInLoop_def Let_def)
next
  case (user_forceClose c)
  have "open_ok again (forceClose c)"
    by (rule open_frame [OF user_forceClose(1)])
      (use user_forceClose open_input [OF user_forceClose(1)] open_errno [OF user_forceClose(1)] in
        \<open>auto simp: forceClose_def QueueInLoop_def open_ok_def own_def\<close>)
  then show ?case using user_forceClose(2) by (simp add: forceClose_def QueueInLoop_def)
next
  case (user_forceCloseWithDelay c seconds)
  have "open_ok again (forceCloseWithDelay seconds c)"
    by (rule open_frame [OF user_forceCloseWithDelay(1)])
      (use user_forceCloseWithDelay open_input [OF user_forceCloseWithDelay(1)] open_errno [OF user_forceCloseWithDelay(1)] in
        \<open>auto simp: forceCloseWithDelay_def open_ok_def own_def\<close>)
  then show ?case using user_forceCloseWithDelay(2) by (simp add: forceCloseWithDelay_def)
next
  case (user_startRead c)
  have "open_ok again ((tc_call (EnableReading (tc_et c)) c)\<lparr>tc_reading := True\<rparr>)"
    using open_call [OF user_startRead(2), of "EnableReading (tc_et c)"]
    by (simp add: conn_unfold)
  then show ?case using user_startRead(2,3) by (simp add: startReadInLoop_def)
next
  case (user_stopRead c inLoop)
  have "open_ok again ((tc_call (DisableReading (tc_et c)) c)\<lparr>tc_reading := False\<rparr>)"
    using open_call [OF user_stopRead(1), of "DisableReading (tc_et c)"]
    by (simp add: conn_unfold)
  moreover have "open_ok again (QueueInLoop StopReadInLoop c)"
    using user_stopRead(1) by (simp add: QueueInLoop_def conn_unfold)
  ultimately show ?case using user_stopRead(1,2) by (simp add: stopRead_def stopReadInLoop_def QueueInLoop_def)
next
  case (user_input b c)
  then show ?case by (simp add: conn_unfold)
next
  case (user_context c w)
  then show ?case by (simp add: conn_unfold)
next
  case (user_errno e c)
  then show ?case by (simp add: conn_unfold)
qed

lemma user_steps_ok:
  assumes "user_steps cb c c'" "open_ok again c" "quiet_writes (tc_writes c)"
  shows "open_ok again c' \<and> quiet_writes (tc_writes c')"
  using assms by (induction rule: rtranclp_induct) (use user_step_ok in blast)+

lemma written_some:
  assumes c: "open_ok {0} c" and n: "n \<le> length (content (tc_outputBuffer c))"
    and c1: "c1 = c\<lparr>tc_errno := e, tc_writes := ws, tc_sent := tc_sent c @ take n (content (tc_outputBuffer c))\<rparr>"
  shows "\<exists>c'. (if n > 0 then written cb n c1 else Inr c1) = Inr c' \<and> base_ok c' \<and> content (tc_outputBuffer c') = drop n (content (tc_outputBuffer c)) \<and>
     tc_sent c' = tc_sent c1 \<and> tc_errno c' = e \<and> tc_writes c' = ws \<and> tc_state c' = tc_state c \<and> tc_wsContext c' = tc_wsContext c \<and>
     tc_trace c' = tc_trace c \<and> own c' = own c \<and> tc_et c' = tc_et c \<and> tc_registered c' = tc_registered c \<and>
     (content (tc_outputBuffer c') = [] \<and> n > 0 \<longrightarrow> \<not> isWriting (tc_channel c') \<and> (tc_state c = kDisconnecting \<longrightarrow> tc_fin c')) \<and>
     (content (tc_outputBuffer c') \<noteq> [] \<or> n = 0 \<longrightarrow> tc_channel c' = tc_channel c)"
proof (cases "n > 0")
  case True
  have base: "base_ok c" using c by (simp add: open_ok_def)
  then obtain out where out: "retrieve (tc_outputBuffer c) n = Inr out" "buffer_inv out" "content out = drop n (content (tc_outputBuffer c))"
    using retrieve_ok [of "tc_outputBuffer c" n] n by (auto simp: base_ok_def)
  define c2 where "c2 = c1\<lparr>tc_outputBuffer := out\<rparr>"
  have c2: "base_ok c2"
    using base out by (simp add: c2_def c1 base_ok_def polled_def stream_def)
  show ?thesis
  proof (cases "content out = []")
    case empty: True
    define c3 where "c3 = tc_call (DisableWriting (tc_et c2)) c2"
    define c4 where "c4 = (if writeCompleteCallback cb then QueueInLoop WriteCompleteCallback c3 else c3)"
    define c5 where "c5 = (if tc_state c4 = kDisconnecting then shutdownInLoop c4 else c4)"
    have "base_ok c3" unfolding c3_def by (rule base_call [OF c2]) simp
    then have "base_ok c5"
      by (simp add: c5_def c4_def shutdownInLoop_def QueueInLoop_def base_ok_def polled_def stream_def)
    moreover have "written cb n c1 = Inr c5"
      using out readable_content [OF out(2)] empty by (simp add: written_def c1 c5_def c4_def c3_def c2_def)
    moreover have "\<not> isWriting (tc_channel c3)" by (simp add: c3_def)
    then have "\<not> isWriting (tc_channel c5)" "tc_state c = kDisconnecting \<longrightarrow> tc_fin c5"
      by (simp_all add: c5_def c4_def c3_def c2_def c1 shutdownInLoop_def QueueInLoop_def)
    moreover have "content (tc_outputBuffer c5) = drop n (content (tc_outputBuffer c))" "tc_sent c5 = tc_sent c1" "tc_errno c5 = e"
        "tc_writes c5 = ws" "tc_state c5 = tc_state c" "tc_wsContext c5 = tc_wsContext c" "tc_trace c5 = tc_trace c" "own c5 = own c"
        "tc_et c5 = tc_et c" "tc_registered c5 = tc_registered c"
      using out(3) by (simp_all add: c5_def c4_def c3_def c2_def c1 shutdownInLoop_def QueueInLoop_def own_def)
    ultimately show ?thesis using True empty out(3) by (intro exI [of _ c5]) simp
  next
    case False
    then have "written cb n c1 = Inr c2"
      using out readable_content [OF out(2)] by (simp add: written_def c1 c2_def)
    then show ?thesis using c2 True False out(3) by (intro exI [of _ c2]) (simp add: c2_def c1 own_def)
  qed
next
  case False
  have "base_ok c1" using c False by (simp add: c1 open_ok_def base_ok_def polled_def stream_def)
  then show ?thesis using False by (intro exI [of _ c1]) (simp add: c1 own_def)
qed

lemma handleWrite_open:
  assumes c: "open_ok {0} c" "quiet_writes (tc_writes c)" "isWriting (tc_channel c)"
    and w: "writeFull 0 (content (tc_outputBuffer c)) (tc_writes c) = (n, s, e, ws)"
  shows "\<exists>c'. handleWrite cb c = Inr c' \<and> open_ok {0} c' \<and> quiet_writes (tc_writes c') \<and>
     content (tc_outputBuffer c') = drop n (content (tc_outputBuffer c)) \<and> tc_sent c' = tc_sent c @ take n (content (tc_outputBuffer c)) \<and>
     tc_state c' = tc_state c \<and> tc_wsContext c' = tc_wsContext c \<and> tc_trace c' = tc_trace c \<and>
     (n = length (content (tc_outputBuffer c)) \<and> tc_state c = kDisconnecting \<longrightarrow> tc_fin c')"
proof -
  let ?data = "content (tc_outputBuffer c)"
  have data: "?data \<noteq> []" and plain: "\<not> tc_ssl_ctx c" "\<not> tc_ssl c" "tc_errno c = 0" "only_sends (own c)" "live c"
      "told c = [ConnectionCalled kConnected]" "tc_registered c"
    using c by (simp_all add: open_ok_def base_ok_def)
  note wq = writeFull_quiet [OF c(2) data w] and n = writeFull_le [OF w]
  define c1 where "c1 = c\<lparr>tc_errno := e, tc_writes := ws, tc_sent := tc_sent c @ take n ?data\<rparr>"
  obtain c2 where c2: "(if n > 0 then written cb n c1 else Inr c1) = Inr c2" "base_ok c2" "content (tc_outputBuffer c2) = drop n ?data"
      "tc_sent c2 = tc_sent c1" "tc_errno c2 = e" "tc_writes c2 = ws" "tc_state c2 = tc_state c" "tc_wsContext c2 = tc_wsContext c"
      "tc_trace c2 = tc_trace c" "own c2 = own c" "tc_et c2 = tc_et c" "tc_registered c2 = tc_registered c"
      "content (tc_outputBuffer c2) = [] \<and> n > 0 \<longrightarrow> \<not> isWriting (tc_channel c2) \<and> (tc_state c = kDisconnecting \<longrightarrow> tc_fin c2)"
      "content (tc_outputBuffer c2) \<noteq> [] \<or> n = 0 \<longrightarrow> tc_channel c2 = tc_channel c"
    using written_some [OF c(1) n c1_def, of cb] by blast
  have "handleWrite cb c = rbind (if n > 0 then written cb n c1 else Inr c1) (handleWrite_errno cb s)"
    unfolding c1_def using plain c(3) w by (simp add: handleWrite_def Let_def split del: if_split)
  then have run: "handleWrite cb c = handleWrite_errno cb s c2" by (simp only: c2(1) rbind_simps)
  have cbs: "told c2 = [ConnectionCalled kConnected]" using plain(6) c2(9) by (simp add: told_def)
  show ?thesis
  proof (cases "n = length ?data")
    case True
    then have "s > 0" "e = 0" using wq(2) by auto
    then have "handleWrite cb c = Inr c2" using run c2(5) by (simp add: handleWrite_errno_def errno_defs)
    moreover have "open_ok {0} c2" using c2 True data \<open>e = 0\<close> plain cbs by (simp add: open_ok_def)
    ultimately show ?thesis using c2 True data wq(1) by (intro exI [of _ c2]) (simp add: c1_def)
  next
    case False
    then have se: "s = -1" "e = EAGAIN \<or> e = EINTR" "n < length ?data" using wq(2) by auto
    define c3 where "c3 = tc_call (EnableWriting (tc_et c2)) (c2\<lparr>tc_errno := 0\<rparr>)"
    have "handleWrite cb c = Inr c3" using run c2(5) se by (simp add: handleWrite_errno_def c3_def)
    moreover have "base_ok (c2\<lparr>tc_errno := 0\<rparr>)" using c2(2) by (simp add: base_ok_def polled_def stream_def)
    then have "base_ok c3" unfolding c3_def by (rule base_call) simp
    then have "open_ok {0} c3" using c2 plain cbs se(3) by (simp add: open_ok_def c3_def told_def own_def)
    ultimately show ?thesis using c2 False wq(1) by (intro exI [of _ c3]) (simp add: c3_def c1_def)
  qed
qed

section \<open>Histories\<close>

text \<open>
  What can happen to a connection that is up: its descriptor is ready, the loop runs the first of the queued functors, the user calls it
  from the thread of the loop or from another, or the delay of \<^verbatim>\<open>forceCloseWithDelay\<close> has passed.
\<close>

datatype tcp_input =
    Ready timestamp "16 word" | RunFunctor | UserSend bool bytes | UserShutdown bool | UserForceClose | UserForceCloseWithDelay int
  | DelayPassed | UserStartRead | UserStopRead bool

text \<open>What a poller reports of a channel: only what is watched, and errors and hang-ups while something is.\<close>

definition ready_ok :: "16 word \<Rightarrow> 'w TcpConnection \<Rightarrow> bool" where
  "ready_ok revents c \<longleftrightarrow> \<not> isNoneEvent (tc_channel c) \<and>
     (bits_set revents (POLLIN OR POLLPRI OR POLLRDHUP) \<longrightarrow> isReading (tc_channel c)) \<and>
     (bits_set revents POLLOUT \<longrightarrow> isWriting (tc_channel c)) \<and>
     (bits_set revents POLLHUP \<and> \<not> bits_set revents POLLIN \<longrightarrow> \<not> bits_set revents (POLLIN OR POLLPRI OR POLLRDHUP))"

fun tcp_input_step ::
  "'w tcp_callbacks \<Rightarrow> (timestamp \<Rightarrow> 'w TcpConnection \<Rightarrow> 'w TcpConnection res) \<Rightarrow> tcp_input \<Rightarrow> 'w TcpConnection \<Rightarrow> 'w TcpConnection res" where
  "tcp_input_step cb msg (Ready t revents) c =
     (if ready_ok revents c then run_callbacks (tcp_event cb msg) (callbacks_due t revents) c else Inr c)"
| "tcp_input_step cb msg RunFunctor c =
     (case tc_queue c of [] \<Rightarrow> Inr c | f # fs \<Rightarrow> run_functor cb f (c\<lparr>tc_queue := fs\<rparr>))"
| "tcp_input_step cb msg (UserSend inLoop message) c = send inLoop cb message c"
| "tcp_input_step cb msg (UserShutdown inLoop) c = Inr (shutdown inLoop c)"
| "tcp_input_step cb msg UserForceClose c = Inr (forceClose c)"
| "tcp_input_step cb msg (UserForceCloseWithDelay seconds) c = Inr (forceCloseWithDelay seconds c)"
| "tcp_input_step cb msg DelayPassed c =
     (case tc_delayed c of [] \<Rightarrow> Inr c | _ # ds \<Rightarrow> Inr (forceClose (c\<lparr>tc_delayed := ds\<rparr>)))"
| "tcp_input_step cb msg UserStartRead c = Inr (if tc_state c \<noteq> kDisconnected then startReadInLoop c else c)"
| "tcp_input_step cb msg (UserStopRead inLoop) c = Inr (stopRead inLoop c)"

text \<open>Each input comes with the answers the system will give; a connection whose channel is removed is gone.\<close>

fun tcp_history ::
  "'w tcp_callbacks \<Rightarrow> (timestamp \<Rightarrow> 'w TcpConnection \<Rightarrow> 'w TcpConnection res) \<Rightarrow>
   (read_answer list \<times> write_answer list \<times> tcp_input) list \<Rightarrow> 'w TcpConnection \<Rightarrow> 'w TcpConnection res" where
  "tcp_history cb msg [] c = Inr c"
| "tcp_history cb msg ((rs, ws, i) # xs) c =
     (if Remove \<in> set (tc_polls c) then Inr c
      else rbind (tcp_input_step cb msg i (c\<lparr>tc_reads := rs, tc_writes := ws\<rparr>)) (tcp_history cb msg xs))"

text \<open>
  Answers to reads after which data is not followed by a failure of the connection.
\<close>

definition quiet_reads :: "read_answer list \<Rightarrow> bool" where
  "quiet_reads rs \<longleftrightarrow> arrived rs = [] \<or> snd (read_end 0 rs) \<in> again"

definition quiet_inputs :: "(read_answer list \<times> write_answer list \<times> tcp_input) list \<Rightarrow> bool" where
  "quiet_inputs xs \<longleftrightarrow> list_all (\<lambda>(rs, ws, i). quiet_reads rs \<and> quiet_writes ws \<and> (case i of UserSend _ d \<Rightarrow> d \<noteq> [] | _ \<Rightarrow> True)) xs"

section \<open>Applications\<close>

text \<open>
  What a connection relies on: the connection callback changes no more than the session attached to it, the close callback has the
  connection destroyed later by the loop, and the message callback makes calls as above.  It may also fault; those faults are its own.
\<close>

locale tcp_application =
  fixes cb :: "'w tcp_callbacks"
    and msg :: "timestamp \<Rightarrow> 'w TcpConnection \<Rightarrow> 'w TcpConnection res"
    and session_ok :: "bool \<Rightarrow> 'w option \<Rightarrow> bool"
    and app_fault :: "fault \<Rightarrow> bool"
  assumes connection_law: "\<exists>w. connectionCallback cb c = Inr (c\<lparr>tc_wsContext := w\<rparr>) \<and> session_ok (tc_state c = kConnected) w"
    and close_law: "tc_registered c \<Longrightarrow> closeCallback cb c = Inr (QueueInLoop ConnectDestroyed (c\<lparr>tc_registered := False\<rparr>))"
    and msg_law: "msg t c = Inr c' \<Longrightarrow> open_ok again c \<Longrightarrow> quiet_writes (tc_writes c) \<Longrightarrow> session_ok True (tc_wsContext c) \<Longrightarrow>
      user_steps cb c c' \<and> session_ok True (tc_wsContext c')"
    and msg_fault: "msg t c = Inl f \<Longrightarrow> open_ok again c \<Longrightarrow> quiet_writes (tc_writes c) \<Longrightarrow> session_ok True (tc_wsContext c) \<Longrightarrow> app_fault f"
begin

definition alive :: "'w TcpConnection \<Rightarrow> bool" where
  "alive c \<longleftrightarrow> (open_ok {0} c \<or> shut_ok c) \<and> quiet_writes (tc_writes c) \<and> session_ok (tc_state c \<noteq> kDisconnected) (tc_wsContext c)"

definition outcome :: "('w TcpConnection \<Rightarrow> bool) \<Rightarrow> 'w TcpConnection res \<Rightarrow> bool" where
  "outcome P r \<longleftrightarrow> (case r of Inl f \<Rightarrow> app_fault f | Inr c \<Rightarrow> P c)"

lemma outcome_simps [simp]: "outcome P (Inl f) = app_fault f" "outcome P (Inr c) = P c"
  by (simp_all add: outcome_def)

lemma outcome_bind:
  assumes "outcome P r" "\<And>c. P c \<Longrightarrow> outcome Q (f c)"
  shows "outcome Q (rbind r f)"
  using assms by (cases r) simp_all

lemma close_alive:
  assumes "base_ok c" "told c = [ConnectionCalled kConnected]" "only_sends (own c)" "quiet_writes (tc_writes c)" "tc_registered c"
  shows "\<exists>c'. handleClose cb c = Inr c' \<and> shut_ok c' \<and> alive c'"
proof -
  define c1 where "c1 = tc_call DisableAll (c\<lparr>tc_ssl := False, tc_state := kDisconnected\<rparr>)"
  have "base_ok (c\<lparr>tc_ssl := False, tc_state := kDisconnected\<rparr>)" using assms(1) by (simp add: base_ok_def polled_def stream_def)
  then have c1: "base_ok c1" "tc_state c1 = kDisconnected" "ch_events (tc_channel c1) = 0" "tc_trace c1 = tc_trace c" "own c1 = own c"
      "tc_writes c1 = tc_writes c" "tc_registered c1"
    unfolding c1_def using assms(5) by (simp_all add: base_call own_def)
  define c2 where "c2 = c1\<lparr>tc_trace := tc_trace c1 @ [ConnectionCalled kDisconnected]\<rparr>"
  have "\<not> tc_state c2 = kConnected" using c1(2) by (simp add: c2_def)
  then obtain w where w: "connectionCallback cb c2 = Inr (c2\<lparr>tc_wsContext := w\<rparr>)" "session_ok False w" using connection_law [of c2] by auto
  define c3 where "c3 = QueueInLoop ConnectDestroyed (c2\<lparr>tc_wsContext := w, tc_trace := tc_trace c2 @ [CloseCalled], tc_registered := False\<rparr>)"
  have "handleClose cb c = Inr c3"
    using w(1) c1(2,7) by (simp add: handleClose_def call_connection_def close_law c3_def c2_def flip: c1_def)
  moreover have "StartReadInLoop \<notin> set (own c)" using assms(3) by (auto simp: only_sends_def list_all_iff)
  then have "shut_ok c3"
    using c1 assms(2) by (simp add: c3_def c2_def conn_unfold QueueInLoop_def)
  ultimately show ?thesis using w(2) assms(4) c1(2,6) by (simp add: alive_def c3_def c2_def QueueInLoop_def)
qed

lemma open_close:
  assumes "open_ok E c" "quiet_writes (tc_writes c)"
  shows "\<exists>c'. handleClose cb c = Inr c' \<and> shut_ok c' \<and> alive c'"
  using close_alive [of c] assms by (simp add: open_ok_def)

lemma handleRead_errno_alive:
  assumes "open_ok UNIV c" "quiet_writes (tc_writes c)" "session_ok True (tc_wsContext c)"
  shows "outcome alive (handleRead_errno cb s c)"
proof -
  have close: "outcome alive (handleClose cb c)" using open_close [OF assms(1,2)] by auto
  have "alive (tc_call (EnableReading et) (c\<lparr>tc_errno := 0\<rparr>))" for et
    using open_call [OF open_settle [OF assms(1)], of "EnableReading et"] assms(2,3) open_live [OF assms(1)] by (simp add: alive_def)
  moreover have "alive c" if "tc_errno c = 0"
    using assms that open_live [OF assms(1)] by (simp add: alive_def open_ok_def)
  ultimately show ?thesis using close by (simp add: handleRead_errno_def)
qed

lemma handleRead_alive:
  assumes c: "alive c" "open_ok {0} c" and rs: "quiet_reads (tc_reads c)"
  shows "outcome alive (handleRead cb msg t c)"
proof -
  have plain: "\<not> tc_ssl_ctx c" "\<not> tc_ssl c" "buffer_inv (tc_inputBuffer c)" "tc_errno c = 0" "quiet_writes (tc_writes c)"
      "session_ok True (tc_wsContext c)"
    using c open_live [OF c(2)] by (simp_all add: alive_def open_ok_def base_ok_def)
  define s e n where "s = fst (read_end 0 (tc_reads c))" and "e = snd (read_end 0 (tc_reads c))" and "n = length (arrived (tc_reads c))"
  obtain as b where rd: "readFull 0 (tc_reads c) (tc_inputBuffer c) = Inr (n, s, e, as, b)" "buffer_inv b"
    using readFull_loop_ok [OF plain(3), of 0 0 "tc_reads c"] by (auto simp: readFull_def s_def e_def n_def)
  define c1 where "c1 = c\<lparr>tc_errno := e, tc_reads := as, tc_inputBuffer := b\<rparr>"
  have c1: "open_ok UNIV c1" using c(2) rd(2) by (simp add: c1_def conn_unfold)
  show ?thesis
  proof (cases "n = 0")
    case True
    have "handleRead cb msg t c = handleRead_errno cb s c1"
      using plain rd(1) True by (simp add: handleRead_def c1_def)
    moreover have "outcome alive (handleRead_errno cb s c1)"
      by (rule handleRead_errno_alive [OF c1]) (use plain in \<open>simp_all add: c1_def\<close>)
    ultimately show ?thesis by simp
  next
    case False
    then have e: "e \<in> again" using rs by (simp add: quiet_reads_def n_def e_def)
    define c2 where "c2 = c1\<lparr>tc_errno := 0, tc_trace := tc_trace c1 @ [MessageCalled t]\<rparr>"
    have c2: "open_ok again c2" "quiet_writes (tc_writes c2)" "buffer_inv (tc_inputBuffer c2)" "session_ok True (tc_wsContext c2)" "\<not> tc_ssl c2"
      using c1 plain rd(2) by (simp_all add: c2_def c1_def conn_unfold)
    have run: "handleRead cb msg t c = rbind (msg t c2) (\<lambda>c3. if tc_ssl c3 then handleRead_ssl cb s c3 else handleRead_errno cb s c3)"
    proof (cases "e = EAGAIN \<or> e = EINTR")
      case True
      then show ?thesis using plain rd(1) False by (simp add: handleRead_def c2_def c1_def Let_def)
    next
      case not_again: False
      then have "e = 0" using e by simp
      then have "c1\<lparr>tc_errno := 0\<rparr> = c1" by (intro TcpConnection.equality) (simp_all add: c1_def)
      moreover have "handleRead cb msg t c = rbind (msg t (c1\<lparr>tc_trace := tc_trace c1 @ [MessageCalled t]\<rparr>))
          (\<lambda>c3. if tc_ssl c3 then handleRead_ssl cb s c3 else handleRead_errno cb s c3)"
        using plain rd(1) False not_again by (simp add: handleRead_def c1_def Let_def)
      ultimately show ?thesis by (simp add: c2_def)
    qed
    show ?thesis
    proof (cases "msg t c2")
      case (Inl f)
      then show ?thesis using run msg_fault [OF Inl c2(1,2,4)] by simp
    next
      case (Inr c3)
      have c3: "user_steps cb c2 c3" "session_ok True (tc_wsContext c3)" using msg_law [OF Inr c2(1,2,4)] by simp_all
      have c3': "open_ok again c3" "quiet_writes (tc_writes c3)" using user_steps_ok [OF c3(1) c2(1,2)] by simp_all
      then have "\<not> tc_ssl c3" by (simp add: open_ok_def base_ok_def)
      moreover have "outcome alive (handleRead_errno cb s c3)"
        by (rule handleRead_errno_alive [OF open_weaken [OF c3'(1)] c3'(2) c3(2)]) simp
      ultimately show ?thesis using run Inr by simp
    qed
  qed
qed

lemma handleWrite_alive:
  assumes "alive c"
  shows "\<exists>c'. handleWrite cb c = Inr c' \<and> alive c'"
proof (cases "isWriting (tc_channel c)")
  case True
  then have "open_ok {0} c" using assms by (auto simp: alive_def shut_ok_def isWriting_def)
  moreover obtain n s e ws where w: "writeFull 0 (content (tc_outputBuffer c)) (tc_writes c) = (n, s, e, ws)" by (metis prod_cases4)
  ultimately show ?thesis
    using handleWrite_open [of c n s e ws cb] assms True by (auto simp: alive_def)
next
  case False
  moreover have "\<not> tc_ssl_ctx c" using assms by (auto simp: alive_def conn_unfold)
  ultimately show ?thesis using assms by (simp add: handleWrite_def)
qed

lemma forceClose_alive: "alive c \<Longrightarrow> \<exists>c'. forceCloseInLoop cb c = Inr c' \<and> alive c'"
  using open_close [of "{0}" c] by (auto simp: alive_def forceCloseInLoop_def shut_ok_def open_ok_def)

lemma sendInLoop_alive:
  assumes "alive c" "data \<noteq> []"
  shows "\<exists>c'. sendInLoop cb data c = Inr c' \<and> alive c'"
proof (cases "tc_state c = kDisconnected")
  case False
  then have o: "open_ok {0} c" using assms(1) by (auto simp: alive_def shut_ok_def)
  from sendInLoop_quiet [OF open_weaken [OF o, of again] _ assms(2), of cb] assms(1)
  obtain c' where c': "sendInLoop cb data c = Inr c'" "open_ok again c'" "same_rest c c'" "quiet_writes (tc_writes c')"
      "tc_errno c = 0 \<longrightarrow> tc_errno c' = 0" by (auto simp: alive_def)
  moreover have "tc_errno c = 0" using o by (simp add: open_ok_def)
  ultimately have "open_ok {0} c'" by (simp add: open_ok_def)
  then show ?thesis using c' assms(1) by (simp add: alive_def same_rest_def)
qed (use assms in \<open>simp add: sendInLoop_def\<close>)

lemma shut_stop: "shut_ok c \<Longrightarrow> shut_ok (stopReadInLoop c)"
  using base_call [of c "DisableReading (tc_et c)"]
  by (simp add: shut_ok_def stopReadInLoop_def tc_call_def base_ok_def polled_def stream_def told_def own_def)

lemma open_stop: "open_ok {0} c \<Longrightarrow> open_ok {0} (stopReadInLoop c)"
  using open_call [of "{0}" c "DisableReading (tc_et c)"]
  by (simp add: stopReadInLoop_def conn_unfold)

lemma open_start: "open_ok {0} c \<Longrightarrow> open_ok {0} (startReadInLoop c)"
  using open_call [of "{0}" c "EnableReading (tc_et c)"]
  by (simp add: startReadInLoop_def conn_unfold)

lemma read_switch_simps [simp]:
  "tc_writes (stopReadInLoop c) = tc_writes c" "tc_wsContext (stopReadInLoop c) = tc_wsContext c"
  "tc_writes (startReadInLoop c) = tc_writes c" "tc_wsContext (startReadInLoop c) = tc_wsContext c"
  "tc_state (stopReadInLoop c) = tc_state c" "tc_state (startReadInLoop c) = tc_state c"
  by (simp_all add: stopReadInLoop_def startReadInLoop_def)

lemma stop_alive: "alive c \<Longrightarrow> alive (stopReadInLoop c)"
  using shut_stop open_stop by (auto simp: alive_def)

lemma alive_fields:
  assumes "alive c" "tc_state c' = tc_state c \<or> live c \<and> live c'" "tc_ssl_ctx c' = tc_ssl_ctx c" "tc_ssl c' = tc_ssl c"
    "tc_inputBuffer c' = tc_inputBuffer c" "tc_outputBuffer c' = tc_outputBuffer c" "tc_channel c' = tc_channel c" "tc_polls c' = tc_polls c"
    "tc_trace c' = tc_trace c" "tc_sent c' = tc_sent c" "tc_errno c' = tc_errno c" "own c' = own c" "tc_registered c' = tc_registered c"
    "quiet_writes (tc_writes c')" "tc_wsContext c' = tc_wsContext c"
  shows "alive c'"
proof -
  have "open_ok {0} c'" if "open_ok {0} c"
    by (rule open_frame [OF that]) (use assms that in \<open>auto simp: open_ok_def base_ok_def\<close>)
  moreover have "shut_ok c'" if "shut_ok c"
    using assms that by (auto simp: shut_ok_def base_ok_def polled_def stream_def told_def)
  ultimately show ?thesis using assms by (auto simp: alive_def)
qed

lemma events_alive:
  assumes c: "alive c" "open_ok {0} c" "ready_ok revents c" and rs: "quiet_reads (tc_reads c)"
  shows "outcome alive (run_callbacks (tcp_event cb msg) (callbacks_due t revents) c)"
proof -
  define w where "w = (if bits_set revents POLLOUT then [WriteCallback] else [])"
  have wr: "outcome alive (run_callbacks (tcp_event cb msg) w c')" if "alive c'" for c'
    using handleWrite_alive [OF that] that by (auto simp: w_def)
  show ?thesis
  proof (cases "bits_set revents POLLHUP \<and> \<not> bits_set revents POLLIN")
    case True
    then have due: "callbacks_due t revents = CloseCallback # (if bits_set revents (POLLERR OR POLLNVAL) then [ErrorCallback] else []) @ w"
      using c(3) by (simp add: callbacks_due_def ready_ok_def w_def)
    obtain c1 where "handleClose cb c = Inr c1" "alive c1"
      using open_close [OF c(2)] c(1) by (auto simp: alive_def)
    then show ?thesis using wr unfolding due by (simp split: if_splits)
  next
    case False
    define r where "r = (if bits_set revents (POLLIN OR POLLPRI OR POLLRDHUP) then [ReadCallback t revents] else [])"
    have due: "callbacks_due t revents = (if bits_set revents (POLLERR OR POLLNVAL) then [ErrorCallback] else []) @ r @ w"
      using False by (auto simp: callbacks_due_def w_def r_def)
    have "outcome alive (run_callbacks (tcp_event cb msg) (r @ w) c)"
      using outcome_bind [OF handleRead_alive [OF c(1,2) rs, of t] wr] wr [OF c(1)] by (simp add: r_def)
    then show ?thesis unfolding due by (simp split: if_splits)
  qed
qed

lemma destroyed_gone:
  assumes "shut_ok c"
  shows "\<exists>c'. connectDestroyed cb c = Inr c' \<and> gone_ok c'"
proof -
  define c1 where "c1 = c\<lparr>tc_channel := (tc_channel c)\<lparr>ch_addedToLoop := False\<rparr>, tc_polls := tc_polls c @ [Remove]\<rparr>"
  have "connectDestroyed cb c = Inr c1"
    using assms by (simp add: connectDestroyed_def tc_remove_def shut_ok_def isNoneEvent_def kNoneEvent_def c1_def)
  moreover have "polled c1 = Some (\<lambda>_. None, [0])"
    using polled_remove [of c] assms by (simp add: shut_ok_def base_ok_def polled_def c1_def)
  then have "gone_ok c1" using assms by (simp add: gone_ok_def c1_def shut_ok_def told_def)
  ultimately show ?thesis by blast
qed

lemma functor_alive:
  assumes c: "alive c" "tc_queue c = f # fs"
  shows "\<exists>c'. run_functor cb f (c\<lparr>tc_queue := fs\<rparr>) = Inr c' \<and> (alive c' \<or> gone_ok c')"
proof -
  define c1 where "c1 = c\<lparr>tc_queue := fs\<rparr>"
  have own: "set (own c1) \<subseteq> set (own c)" by (auto simp: own_def c1_def c(2))
  then have "only_sends (own c1)" if "only_sends (own c)" using that by (auto simp: only_sends_def list_all_iff)
  then have c1: "alive c1"
    using c(1) own unfolding alive_def by (auto simp: c1_def conn_unfold)
  have f: "f \<in> set (own c)" if "f \<in> {ConnectDestroyed, StartReadInLoop} \<union> range SendInLoop"
    using that c(2) by (auto simp: own_def)
  have shut: "shut_ok c1 \<and> f \<noteq> StartReadInLoop" if "f \<in> {ConnectDestroyed, StartReadInLoop}"
  proof -
    have "f \<in> set (own c)" using f that by blast
    then have "\<not> only_sends (own c)" using that by (auto simp: only_sends_def list_all_iff intro!: bexI [of _ f])
    then have c: "shut_ok c" using c(1) by (simp add: alive_def open_ok_def)
    then have "tc_state c1 = kDisconnected" by (simp add: shut_ok_def c1_def)
    then have "shut_ok c1" using c1 by (simp add: alive_def open_ok_def)
    moreover have "f \<noteq> StartReadInLoop" using c f by (auto simp: shut_ok_def)
    ultimately show ?thesis by simp
  qed
  show ?thesis
    unfolding c1_def [symmetric]
  proof (cases f)
    case ConnectDestroyed
    then show "\<exists>c'. run_functor cb f c1 = Inr c' \<and> (alive c' \<or> gone_ok c')" using shut destroyed_gone [of c1] by auto
  next
    case (SendInLoop d)
    show "\<exists>c'. run_functor cb f c1 = Inr c' \<and> (alive c' \<or> gone_ok c')"
    proof (cases "tc_state c1 = kDisconnected")
      case False
      then have "open_ok {0} c" using c(1) by (auto simp: alive_def shut_ok_def c1_def)
      then have "d \<noteq> []" using f SendInLoop by (auto simp: open_ok_def only_sends_def list_all_iff)
      then show ?thesis using sendInLoop_alive [OF c1] SendInLoop by auto
    qed (use c1 SendInLoop in \<open>simp add: sendInLoop_def\<close>)
  next
    case ShutdownInLoop
    have "alive (shutdownInLoop c1)" by (rule alive_fields [OF c1]) (use c1 in \<open>simp_all add: shutdownInLoop_def own_def alive_def\<close>)
    then show "\<exists>c'. run_functor cb f c1 = Inr c' \<and> (alive c' \<or> gone_ok c')" using ShutdownInLoop by simp
  qed (use c1 shut stop_alive [OF c1] forceClose_alive [OF c1] in auto)
qed

lemma user_alive:
  assumes "alive c" "data \<noteq> []"
  shows "outcome alive (tcp_input_step cb msg (UserSend b data) c)" "alive (shutdown b c)" "alive (forceClose c)" "alive (forceCloseWithDelay n c)"
    "alive (stopRead b c)" "tc_state c \<noteq> kDisconnected \<Longrightarrow> alive (startReadInLoop c)"
proof -
  have quiet: "quiet_writes (tc_writes c)" using assms by (simp add: alive_def)
  have queue: "alive (QueueInLoop f c)" if "own (QueueInLoop f c) = own c" for f
    by (rule alive_fields [OF assms(1)]) (use that quiet in \<open>simp_all add: QueueInLoop_def\<close>)
  show "alive (shutdown b c)" "alive (forceClose c)" "alive (forceCloseWithDelay n c)"
    by (rule alive_fields [OF assms(1)];
        use quiet in \<open>simp add: shutdown_def shutdownInLoop_def forceClose_def forceCloseWithDelay_def QueueInLoop_def own_def Let_def\<close>)+
  show "alive (stopRead b c)" using stop_alive [OF assms(1)] queue [of StopReadInLoop] by (simp add: stopRead_def)
  show "alive (startReadInLoop c)" if "tc_state c \<noteq> kDisconnected"
    using open_start [of c] assms(1) that by (auto simp: alive_def shut_ok_def)
  have "alive (QueueInLoop (SendInLoop data) c)" if "tc_state c = kConnected"
  proof -
    have o: "open_ok {0} c" using that assms(1) by (auto simp: alive_def shut_ok_def)
    have "open_ok {0} (QueueInLoop (SendInLoop data) c)"
      by (rule open_frame [OF o]) (use o assms(2) in \<open>auto simp: QueueInLoop_def open_ok_def base_ok_def only_sends_def own_def\<close>)
    then show ?thesis using assms(1) by (simp add: alive_def QueueInLoop_def)
  qed
  then show "outcome alive (tcp_input_step cb msg (UserSend b data) c)"
    using sendInLoop_alive [OF assms] assms(1) by (auto simp: send_def)
qed

lemma step_alive:
  assumes c: "alive c" and rs: "quiet_reads (tc_reads c)" and i: "case i of UserSend _ d \<Rightarrow> d \<noteq> [] | _ \<Rightarrow> True"
  shows "outcome (\<lambda>c'. alive c' \<or> gone_ok c') (tcp_input_step cb msg i c)"
proof -
  have mono: "outcome (\<lambda>c'. alive c' \<or> gone_ok c') r" if "outcome alive r" for r using that by (cases r) simp_all
  note user = user_alive [OF c]
  show ?thesis
  proof (cases i)
    case (Ready t revents)
    show ?thesis
    proof (cases "ready_ok revents c")
      case True
      then have "open_ok {0} c" using c by (auto simp: alive_def shut_ok_def ready_ok_def isNoneEvent_def kNoneEvent_def)
      then show ?thesis using mono [OF events_alive [OF c _ True rs]] True Ready by simp
    qed (use c Ready in simp)
  next
    case RunFunctor
    then show ?thesis using functor_alive [OF c] c by (cases "tc_queue c") auto
  next
    case (UserSend b d)
    then show ?thesis using mono [OF user(1) [of d b]] i by simp
  next
    case DelayPassed
    have "alive (c\<lparr>tc_delayed := ds\<rparr>)" for ds
      by (rule alive_fields [OF c]) (use c in \<open>simp_all add: own_def alive_def\<close>)
    then show ?thesis using DelayPassed c user_alive(3) [where data = "[0]"] by (cases "tc_delayed c") auto
  qed (use user [of "[0]"] c in auto)
qed

lemma history_alive:
  assumes "quiet_inputs xs" "alive c \<or> gone_ok c"
  shows "outcome (\<lambda>c'. alive c' \<or> gone_ok c') (tcp_history cb msg xs c)"
  using assms
proof (induction xs arbitrary: c)
  case (Cons x xs)
  obtain rs ws i where x: "x = (rs, ws, i)" by (metis prod_cases3)
  have q: "quiet_reads rs" "quiet_writes ws" "case i of UserSend _ d \<Rightarrow> d \<noteq> [] | _ \<Rightarrow> True" "quiet_inputs xs"
    using Cons.prems(1) by (simp_all add: quiet_inputs_def x)
  show ?case
  proof (cases "Remove \<in> set (tc_polls c)")
    case False
    then have c: "alive c" using Cons.prems(2) by (auto simp: gone_ok_def)
    define c1 where "c1 = c\<lparr>tc_reads := rs, tc_writes := ws\<rparr>"
    have "alive c1" by (rule alive_fields [OF c]) (use q in \<open>simp_all add: c1_def own_def\<close>)
    from step_alive [OF this, of i] q have "outcome (\<lambda>c'. alive c' \<or> gone_ok c') (tcp_input_step cb msg i c1)" by (simp add: c1_def)
    then show ?thesis using outcome_bind [OF _ Cons.IH [OF q(4)]] False by (simp add: x c1_def)
  qed (use Cons.prems x in simp)
qed simp

lemma established_alive: "\<exists>c. connectEstablished cb (TcpConnection_ctor fd False et) = Inr c \<and> alive c"
proof -
  define c0 :: "'w TcpConnection" where "c0 = (TcpConnection_ctor fd False et)\<lparr>tc_state := kConnected,
      tc_channel := (Channel_ctor fd)\<lparr>ch_tied := True\<rparr>\<rparr>"
  define c1 where "c1 = tc_call (EnableReading et) c0"
  define c2 where "c2 = c1\<lparr>tc_trace := [ConnectionCalled kConnected]\<rparr>"
  have "tc_state c2 = kConnected" by (simp add: c2_def c1_def c0_def)
  then obtain w where w: "connectionCallback cb c2 = Inr (c2\<lparr>tc_wsContext := w\<rparr>)" "session_ok True w" using connection_law [of c2] by auto
  have "connectEstablished cb (TcpConnection_ctor fd False et) = Inr (c2\<lparr>tc_wsContext := w\<rparr>)"
    using w(1) by (simp add: connectEstablished_def call_connection_def c2_def c1_def c0_def TcpConnection_ctor_def Let_def)
  moreover have pos: "readEvent et \<noteq> 0"
    by (cases et) (simp_all add: readEvent_def kReadEvent_def kReadEventET_def poll_bits)
  have "polled (c2\<lparr>tc_wsContext := w\<rparr>) = Some ((\<lambda>_. None)(0 := Some (readEvent et)), [])"
    using pos by (simp add: polled_def c2_def c1_def c0_def tc_call_def TcpConnection_ctor_def Channel_ctor_def spec_call.simps Let_def
        fun_eq_iff)
  then have "open_ok {0} (c2\<lparr>tc_wsContext := w\<rparr>)"
    using pollout_bits(1) [of et]
    by (simp add: open_ok_def base_ok_def stream_def told_def own_def only_sends_def c2_def c1_def c0_def tc_call_def
        TcpConnection_ctor_def Channel_ctor_def Buffer_ctor_ok isWriting_def)
  then have "alive (c2\<lparr>tc_wsContext := w\<rparr>)"
    using w(2) by (simp add: alive_def c2_def c1_def c0_def TcpConnection_ctor_def quiet_writes_def)
  ultimately show ?thesis by blast
qed

end

end
