(* ===== verification/WS_TcpServer.thy ===== *)
theory WS_TcpServer
  imports WS_TcpInv
begin

text \<open>
  A connection in the hands of its owner: \<^verbatim>\<open>TcpServer::removeConnection\<close> (\<^verbatim>\<open>net/TcpServer.cc\<close>) and the default callbacks of
  \<^verbatim>\<open>net/TcpConnection.cc\<close>, on a server whose connections live on its own loop.  Here are the properties of a connection's
  life: what holds after every history, the order of the bytes, that the output drains, and the inputs that break it.
\<close>

section \<open>The owner\<close>

text \<open>
  The connection's entry in \<^verbatim>\<open>connections_\<close> is the flag \<open>tc_registered\<close>: names are unique.  The assertion that the entry was there
  (line 133) is compiled out, as all of \<^verbatim>\<open>TcpServer.cc\<close> are: \<^verbatim>\<open>TcpServer.h\<close> reaches \<^verbatim>\<open>EventLoop.h\<close>, which defines \<^verbatim>\<open>NDEBUG\<close>, before
  \<^verbatim>\<open>LogStream.h\<close> includes \<^verbatim>\<open>assert.h\<close> again.
\<close>

definition TcpServer_removeConnectionInLoop :: "'w TcpConnection \<Rightarrow> 'w TcpConnection res" where
  "TcpServer_removeConnectionInLoop c =
     Inr (QueueInLoop ConnectDestroyed (c\<lparr>tc_registered := False\<rparr>))"

text \<open>\<^verbatim>\<open>RunInLoop\<close> on the loop of the caller calls at once.\<close>

definition TcpServer_removeConnection :: "'w TcpConnection \<Rightarrow> 'w TcpConnection res" where
  "TcpServer_removeConnection c = TcpServer_removeConnectionInLoop c"

definition defaultConnectionCallback :: "'w TcpConnection \<Rightarrow> 'w TcpConnection res" where
  "defaultConnectionCallback c = Inr c"

definition defaultMessageCallback :: "timestamp \<Rightarrow> 'w TcpConnection \<Rightarrow> 'w TcpConnection res" where
  "defaultMessageCallback t c = Inr (c\<lparr>tc_inputBuffer := retrieveAll (tc_inputBuffer c)\<rparr>)"

text \<open>The callbacks \<^verbatim>\<open>TcpServer::newConnection\<close> gives a connection; the high water mark is not one of them.\<close>

definition server_callbacks :: "('w TcpConnection \<Rightarrow> 'w TcpConnection res) \<Rightarrow> bool \<Rightarrow> 'w tcp_callbacks" where
  "server_callbacks ccb wcb = \<lparr>connectionCallback = ccb, closeCallback = TcpServer_removeConnection,
     writeCompleteCallback = wcb, highWaterMarkCallback = False\<rparr>"

abbreviation default_server :: "'w tcp_callbacks" where
  "default_server \<equiv> server_callbacks defaultConnectionCallback False"

lemma server_close: "closeCallback (server_callbacks ccb wcb) = TcpServer_removeConnection"
  "connectionCallback (server_callbacks ccb wcb) = ccb"
  "\<not> highWaterMarkCallback (server_callbacks ccb wcb)" "writeCompleteCallback (server_callbacks ccb wcb) = wcb"
  by (simp_all add: server_callbacks_def)

lemma removeConnection_registered:
  "TcpServer_removeConnection c = Inr (QueueInLoop ConnectDestroyed (c\<lparr>tc_registered := False\<rparr>))"
  by (simp add: TcpServer_removeConnection_def TcpServer_removeConnectionInLoop_def)

interpretation dflt: tcp_application default_server defaultMessageCallback "\<lambda>_ _. True" "\<lambda>_. False"
proof unfold_locales
  show "\<exists>w. connectionCallback default_server c = Inr (c\<lparr>tc_wsContext := w\<rparr>) \<and> True" for c :: "'a TcpConnection"
    by (intro exI [of _ "tc_wsContext c"]) (simp add: server_close defaultConnectionCallback_def)
next
  fix t and c c' :: "'a TcpConnection"
  assume m: "defaultMessageCallback t c = Inr c'" and o: "open_ok again c"
  have "buffer_inv (retrieveAll (tc_inputBuffer c))" using retrieveAll_ok open_input [OF o] by blast
  then show "user_steps default_server c c' \<and> True"
    using m by (auto simp: defaultMessageCallback_def intro!: r_into_rtranclp user_input)
qed (simp_all add: server_close removeConnection_registered defaultMessageCallback_def)


section \<open>Lives\<close>

text \<open>What a history leaves: the application's fault, a connection out of the poller, or one that is down or up.\<close>

lemma history_cases:
  assumes app: "tcp_application cb msg ok flt" and xs: "quiet_inputs xs"
    and c0: "connectEstablished cb (TcpConnection_ctor fd False et) = Inr c0" and c: "tcp_history cb msg xs c0 = r"
  obtains f where "r = Inl f" "flt f" | c where "r = Inr c" "gone_ok c" | c where "r = Inr c" "shut_ok c" | c where "r = Inr c" "open_ok {0} c"
proof -
  have "tcp_application.alive ok c0"
    using tcp_application.established_alive [OF app, of fd et] c0 by auto
  then have "tcp_application.outcome flt (\<lambda>c'. tcp_application.alive ok c' \<or> gone_ok c') r"
    using tcp_application.history_alive [OF app xs, of c0] c by simp
  then show thesis
    using that by (cases r) (auto simp: tcp_application.outcome_def [OF app] tcp_application.alive_def [OF app])
qed

text \<open>The part of a life before the channel is removed: no call of the poller is \<^verbatim>\<open>remove\<close>.\<close>

lemma polled_no_remove:
  assumes "polled c = Some ((\<lambda>_. None)(0 := Some e), [])"
  shows "polled c \<noteq> Some (\<lambda>_. None, [0])"
  using assms by (simp add: fun_eq_iff)


definition demo_inputs :: "(read_answer list \<times> write_answer list \<times> tcp_input) list" where
  "demo_inputs =
     [([], [Took 1, WriteFails EAGAIN], UserSend True [7, 8]), ([Got [1, 2]], [], Ready 5 1), ([], [], UserShutdown False),
      ([], [Took 9], Ready 6 4), ([Got []], [], Ready 7 1), ([], [], RunFunctor)]"

lemma demo_inputs_quiet: "quiet_inputs demo_inputs"
  by (simp add: demo_inputs_def quiet_inputs_def quiet_reads_def quiet_writes_def)


text \<open>
  C30.  Bytes in order.  As long as no message was cut by a direct write that took only a part of it, the bytes the system took are
  a prefix of the messages, in the order of the calls, and the output buffer holds exactly the rest.
\<close>

theorem tcp_bytes_in_order:
  assumes "tcp_application cb msg ok flt" and "quiet_inputs xs"
    and "connectEstablished cb (TcpConnection_ctor fd False et) = Inr c0"
    and "tcp_history cb msg xs c0 = Inr c" and "polled c \<noteq> Some (\<lambda>_. None, [0])" and "unsplit c"
  shows "tc_sent c @ content (tc_outputBuffer c) = accepted c"
proof (rule history_cases [OF assms(1-3) refl])
  fix c' assume "tcp_history cb msg xs c0 = Inr c'" "gone_ok c'"
  then show ?thesis using assms(4,5) by (simp add: gone_ok_def)
qed (use assms(4) stream_unsplit [OF assms(6)] in \<open>auto simp: open_ok_def shut_ok_def base_ok_def\<close>)


definition demo_connection :: "unit TcpConnection" where
  "demo_connection = (tc_call (EnableReading True) ((TcpConnection_ctor 3 False True)\<lparr>tc_state := kConnected,
     tc_channel := (Channel_ctor 3)\<lparr>ch_tied := True\<rparr>\<rparr>))\<lparr>tc_trace := [ConnectionCalled kConnected]\<rparr>"

lemma demo_established: "connectEstablished default_server (TcpConnection_ctor 3 False True) = Inr demo_connection"
  by (simp add: connectEstablished_def call_connection_def server_close defaultConnectionCallback_def demo_connection_def Let_def
      TcpConnection_ctor_def)

lemma demo_connection_ok: "open_ok {0} demo_connection" "quiet_writes (tc_writes demo_connection)"
proof -
  obtain c :: "unit TcpConnection" where "connectEstablished default_server (TcpConnection_ctor 3 False True) = Inr c" "dflt.alive c"
    using dflt.established_alive by blast
  then have "dflt.alive demo_connection" using demo_established by simp
  moreover have "tc_state demo_connection = kConnected" by (simp add: demo_connection_def)
  ultimately show "open_ok {0} demo_connection" "quiet_writes (tc_writes demo_connection)"
    by (simp_all add: dflt.alive_def shut_ok_def)
qed

lemma demo_idle: "\<not> isWriting (tc_channel demo_connection)" "content (tc_outputBuffer demo_connection) = []"
    "tc_trace demo_connection = [ConnectionCalled kConnected]" "tc_state demo_connection = kConnected" "tc_errno demo_connection = 0"
    "tc_sent demo_connection = []" "tc_polls demo_connection = [EnableReading True]"
  by (simp_all add: demo_connection_def TcpConnection_ctor_def Buffer_ctor_ok isWriting_def Channel_ctor_def tc_call_def
      and_pollout [where e = 0, simplified])

text \<open>A send of the whole message at once.\<close>

lemma send_at_once:
  assumes c: "base_ok c" "live c" "tc_errno c = 0" and idle: "\<not> isWriting (tc_channel c)" "content (tc_outputBuffer c) = []"
    and data: "data \<noteq> []" "tc_writes c = Took (length data) # ws"
  shows "sendInLoop cb data c = Inr (sent_some cb data (length data) 0 ws c)"
proof -
  have w: "writeFull (tc_errno c) data (tc_writes c) = (length data, int (length data), 0, ws)"
    using writeFull_whole [OF data(1) order.refl] c(3) data(2) by simp
  show ?thesis
    using send_direct [OF c(1,2) idle w, of cb] data(1) by (simp add: sendInLoop_errno_def errno_defs)
qed

lemma tcp_bytes_in_order_witness:
  "\<exists>c. tcp_history default_server defaultMessageCallback [([], [Took 2], UserSend True [7, 8])] demo_connection = Inr c \<and>
    tc_sent c @ content (tc_outputBuffer c) = accepted c \<and> tc_sent c = [7, 8]"
proof -
  let ?xs = "[([], [Took 2], UserSend True [7, 8])]"
  define c where "c = demo_connection\<lparr>tc_reads := [], tc_writes := [Took 2]\<rparr>"
  have c: "base_ok c" "live c" "tc_errno c = 0" "\<not> isWriting (tc_channel c)" "content (tc_outputBuffer c) = []"
    using demo_connection_ok demo_idle by (simp_all add: c_def open_ok_def base_ok_def polled_def stream_def)
  have s: "sendInLoop default_server [7, 8] c = Inr (sent_some default_server [7, 8] 2 0 [] c)"
    using send_at_once [OF c, of "[7, 8]" "[]" default_server] by (simp add: c_def numeral_2_eq_2)
  then have h: "tcp_history default_server defaultMessageCallback ?xs demo_connection = Inr (sent_some default_server [7, 8] 2 0 [] c)"
    using demo_idle by (simp add: send_def flip: c_def) (simp add: c_def)
  have q: "quiet_inputs ?xs" by (simp add: quiet_inputs_def quiet_reads_def quiet_writes_def)
  have p: "polled (sent_some default_server [7, 8] 2 0 [] c) \<noteq> Some (\<lambda>_. None, [0])"
    using demo_connection_ok(1) polled_no_remove [of demo_connection]
    by (simp add: sent_some_def c_def open_ok_def base_ok_def polled_def server_close)
  have u: "unsplit (sent_some default_server [7, 8] 2 0 [] c)"
    using demo_idle by (simp add: unsplit_def c_def)
  show ?thesis
    using tcp_bytes_in_order [OF dflt.tcp_application_axioms q demo_established h p u] h demo_idle(6)
    by (simp add: c_def)
qed


section \<open>The output drains\<close>

lemma writeFull_progress:
  assumes "data \<noteq> []" "0 < k" "writeFull e data (Took k # as) = (n, s, e', as')"
  shows "0 < n"
proof -
  have "writeFull_loop xs m s0 e0 bs = (m', s', e', bs') \<Longrightarrow> m \<le> m'" for xs m s0 e0 bs m' s' e' bs'
  proof (induction xs m s0 e0 bs rule: writeFull_loop.induct)
    case (2 data n savedErrno errno a as)
    then show ?case by (cases a) (auto simp: Let_def dest: add_leD1 split: if_splits)
  qed (simp split: if_splits)
  moreover have "writeFull_loop data (min k (length data)) (int (min k (length data))) e as = (n, s, e', as')"
    using assms by (simp add: writeFull_def Let_def)
  ultimately have "min k (length data) \<le> n" by blast
  then show ?thesis using assms(1,2) by (cases data) auto
qed

text \<open>A writable event on which the system takes something.\<close>

definition progress :: "read_answer list \<times> write_answer list \<times> tcp_input \<Rightarrow> bool" where
  "progress x \<longleftrightarrow> (case x of (rs, Took k # ws, Ready t revents) \<Rightarrow> 0 < k \<and> quiet_writes ws \<and> revents = 4 | _ \<Rightarrow> False)"

lemma pollout_due: "callbacks_due t 4 = [WriteCallback]" "isWriting (tc_channel c) \<Longrightarrow> ready_ok 4 c"
  by (simp_all add: callbacks_due_def bits_set_def poll_bits ready_ok_def isNoneEvent_def isWriting_def POLLRDHUP_def kNoneEvent_def)
    (auto simp: kWriteEvent_def)


lemma polled_keeps: "polled c = Some (s, []) \<Longrightarrow> Remove \<notin> set (tc_polls c)"
proof -
  have "spec_calls n fds calls st = Some st' \<Longrightarrow> set (snd st) \<subseteq> set (snd st') \<and> (\<forall>d. (d, Remove) \<in> set calls \<longrightarrow> d \<in> set (snd st'))"
    for n fds calls st st'
  proof (induction n fds calls st rule: spec_calls.induct)
    case (2 n fds d call calls st)
    then obtain st1 where st1: "spec_call n fds d call st = Some st1" "spec_calls n fds calls st1 = Some st'"
      by (auto split: option.splits)
    obtain s g where "st = (s, g)" by (cases st)
    with st1(1) have "set (snd st) \<subseteq> set (snd st1)" "call = Remove \<Longrightarrow> d \<in> set (snd st1)"
      by (auto simp: spec_call.simps Let_def split: if_splits)
    then show ?case using "2.IH" [OF st1] by auto
  qed simp
  from this [of 1 "\<lambda>_. ch_fd (tc_channel c)" "map (Pair 0) (tc_polls c)" "(\<lambda>_. None, [])"]
  show "polled c = Some (s, []) \<Longrightarrow> Remove \<notin> set (tc_polls c)" by (auto simp: polled_def)
qed

lemma open_polls: "open_ok E c \<Longrightarrow> Remove \<notin> set (tc_polls c)"
  using polled_keeps [of c] by (simp add: open_ok_def base_ok_def)

lemma progress_cases:
  assumes "progress x"
  obtains rs k ws t where "x = (rs, Took k # ws, Ready t 4)" "0 < k" "quiet_writes ws"
proof -
  obtain rs ws i where x: "x = (rs, ws, i)" by (cases x)
  show thesis
  proof (cases ws)
    case (Cons a as)
    then show thesis using assms that x by (cases a; cases i) (simp_all add: progress_def)
  qed (use assms x in \<open>simp add: progress_def\<close>)
qed

lemma drain_done:
  assumes "open_ok {0} c" "content (tc_outputBuffer c) = []" "list_all progress xs"
  shows "\<exists>rs ws. tcp_history cb msg xs c = Inr (c\<lparr>tc_reads := rs, tc_writes := ws\<rparr>)"
  using assms
proof (induction xs arbitrary: c)
  case Nil
  then show ?case by (intro exI [of _ "tc_reads c"] exI [of _ "tc_writes c"]) simp
next
  case (Cons x xs)
  have "progress x" using Cons.prems(3) by simp
  then obtain rs k ws t where x: "x = (rs, Took k # ws, Ready t 4)" by (rule progress_cases)
  define c1 where "c1 = c\<lparr>tc_reads := rs, tc_writes := Took k # ws\<rparr>"
  have c1: "open_ok {0} c1" "content (tc_outputBuffer c1) = []" using Cons.prems(1,2) by (simp_all add: c1_def conn_unfold)
  then have "\<not> isWriting (tc_channel c1)" by (simp add: open_ok_def)
  then have "\<not> ready_ok 4 c1" by (simp add: ready_ok_def bits_set_def poll_bits)
  then have "tcp_history cb msg (x # xs) c = tcp_history cb msg xs c1"
    using open_polls [OF Cons.prems(1)] by (simp add: x c1_def)
  then show ?case using Cons.IH [OF c1] Cons.prems(3) by (auto simp: c1_def)
qed

lemma drain:
  assumes "open_ok {0} c" "list_all progress xs" "length (content (tc_outputBuffer c)) \<le> length xs"
  shows "\<exists>c'. tcp_history cb msg xs c = Inr c' \<and> open_ok {0} c' \<and> content (tc_outputBuffer c') = [] \<and> 
    tc_sent c' = tc_sent c @ content (tc_outputBuffer c) \<and> tc_state c' = tc_state c \<and> tc_trace c' = tc_trace c \<and>
    (tc_state c = kDisconnecting \<and> content (tc_outputBuffer c) \<noteq> [] \<longrightarrow> tc_fin c')"
  using assms
proof (induction xs arbitrary: c)
  case Nil
  then show ?case by simp
next
  case (Cons x xs)
  have "progress x" using Cons.prems(2) by simp
  then obtain rs k ws t where x: "x = (rs, Took k # ws, Ready t 4)" "0 < k" "quiet_writes ws" by (rule progress_cases)
  show ?case
  proof (cases "content (tc_outputBuffer c) = []")
    case True
    then show ?thesis using drain_done [OF Cons.prems(1) True Cons.prems(2), of cb msg] Cons.prems(1)
      by (auto simp: conn_unfold)
  next
    case False
    let ?data = "content (tc_outputBuffer c)"
    define c1 where "c1 = c\<lparr>tc_reads := rs, tc_writes := Took k # ws\<rparr>"
    have c1: "open_ok {0} c1" "quiet_writes (tc_writes c1)" "isWriting (tc_channel c1)"
      using Cons.prems(1) False x(2,3) by (simp_all add: c1_def conn_unfold quiet_writes_def)
    obtain n s e ws' where w: "writeFull 0 ?data (Took k # ws) = (n, s, e, ws')" by (metis prod_cases4)
    have n: "0 < n" "n \<le> length ?data" using writeFull_progress [OF False x(2) w] writeFull_le [OF w] by simp_all
    obtain c2 where c2: "handleWrite cb c1 = Inr c2" "open_ok {0} c2" "content (tc_outputBuffer c2) = drop n ?data"
        "tc_sent c2 = tc_sent c @ take n ?data" "tc_state c2 = tc_state c" "tc_trace c2 = tc_trace c"
        "n = length ?data \<and> tc_state c = kDisconnecting \<longrightarrow> tc_fin c2"
      using handleWrite_open [OF c1, of n s e ws' cb] w by (auto simp: c1_def)
    have run: "tcp_history cb msg (x # xs) c = tcp_history cb msg xs c2"
      using open_polls [OF Cons.prems(1)] c2(1) pollout_due(2) [OF c1(3)] by (simp add: x(1) pollout_due(1) flip: c1_def)
    show ?thesis
    proof (cases "n = length ?data")
      case all: True
      then obtain rs' ws' where "tcp_history cb msg xs c2 = Inr (c2\<lparr>tc_reads := rs', tc_writes := ws'\<rparr>)"
        using drain_done [OF c2(2), of xs cb msg] c2(3) Cons.prems(2) by auto
      then show ?thesis using run c2 all by (auto simp: conn_unfold)
    next
      case some: False
      have "length (content (tc_outputBuffer c2)) \<le> length xs" "content (tc_outputBuffer c2) \<noteq> []"
        using c2(3) n some Cons.prems(3) by auto
      with Cons.IH [OF c2(2)] Cons.prems(2) obtain c' where c': "tcp_history cb msg xs c2 = Inr c'" "open_ok {0} c'"
          "content (tc_outputBuffer c') = []" "tc_sent c' = tc_sent c2 @ content (tc_outputBuffer c2)" "tc_state c' = tc_state c2"
          "tc_trace c' = tc_trace c2" "tc_state c2 = kDisconnecting \<longrightarrow> tc_fin c'" by auto
      then show ?thesis using run c2 by auto
    qed
  qed
qed

text \<open>
  C31.  The output drains.  After as many writable events as there are bytes waiting, on each of which the system takes at least
  one, everything that waited has been sent in order, nothing waits, and the connection is up as before.  If the connection was being shut
  down, the end of the stream is sent then, after the last byte.
\<close>

theorem output_drains:
  assumes "open_ok {0} c" and "list_all progress xs" and "length (content (tc_outputBuffer c)) \<le> length xs"
  shows "\<exists>c'. tcp_history cb msg xs c = Inr c' \<and> content (tc_outputBuffer c') = [] \<and> \<not> isWriting (tc_channel c') \<and>
    tc_sent c' = tc_sent c @ content (tc_outputBuffer c) \<and> tc_sent c' = stream c' \<and> tc_state c' = tc_state c \<and> told c' = told c \<and>
    (tc_state c = kDisconnecting \<and> content (tc_outputBuffer c) \<noteq> [] \<longrightarrow> tc_fin c')"
  using drain [OF assms, of cb msg] by (auto simp: open_ok_def base_ok_def told_def)


definition demo_waiting :: "unit TcpConnection" where
  "demo_waiting = tc_call (EnableWriting True) (demo_connection\<lparr>tc_state := kDisconnecting,
     tc_outputBuffer := \<lparr>vec = replicate 8 0 @ [7, 8], readerIndex = 8, writerIndex = 10\<rparr>,
     tc_trace := [ConnectionCalled kConnected, SendAccepted [7, 8] 0]\<rparr>)"

lemma demo_waiting_ok: "open_ok {0} demo_waiting" "content (tc_outputBuffer demo_waiting) = [7, 8]" "tc_state demo_waiting = kDisconnecting"
    "tc_sent demo_waiting = []"
proof -
  let ?b = "\<lparr>vec = replicate 8 0 @ [7, 8], readerIndex = 8, writerIndex = 10\<rparr> :: Buffer"
  have b: "buffer_inv ?b" "content ?b = [7, 8]" by (simp_all add: buffer_inv_def content_def kCheapPrepend_def)
  let ?c = "demo_connection\<lparr>tc_state := kDisconnecting, tc_outputBuffer := ?b,
      tc_trace := [ConnectionCalled kConnected, SendAccepted [7, 8] 0]\<rparr>"
  have "base_ok ?c" using demo_connection_ok(1) b demo_idle(6) by (simp add: open_ok_def base_ok_def polled_def stream_def)
  then have "base_ok demo_waiting" unfolding demo_waiting_def by (rule base_call) simp
  then show "open_ok {0} demo_waiting"
    using demo_connection_ok(1) demo_idle b(2) by (simp add: open_ok_def demo_waiting_def told_def own_def)
  show "content (tc_outputBuffer demo_waiting) = [7, 8]" "tc_state demo_waiting = kDisconnecting" "tc_sent demo_waiting = []"
    using b(2) demo_idle(6) by (simp_all add: demo_waiting_def)
qed

lemma output_drains_witness:
  "\<exists>c'. tcp_history default_server defaultMessageCallback [([], [Took 1], Ready 1 4), ([], [Took 5], Ready 2 4)] demo_waiting = Inr c' \<and>
    tc_sent c' = [7, 8] \<and> tc_fin c'"
proof -
  let ?xs = "[([], [Took 1], Ready 1 4), ([], [Took 5], Ready 2 4)]"
  have "list_all progress ?xs" by (simp add: progress_def quiet_writes_def)
  from output_drains [OF demo_waiting_ok(1) this, of default_server defaultMessageCallback] demo_waiting_ok(2-4)
  show ?thesis by (auto simp del: tcp_history.simps)
qed

section \<open>Inputs that break a connection\<close>

lemma handleClose_form:
  assumes "tcp_application cb msg ok flt" "tc_registered c"
  shows "\<exists>w. handleClose cb c = Inr (QueueInLoop ConnectDestroyed ((tc_call DisableAll (c\<lparr>tc_ssl := False, tc_state := kDisconnected\<rparr>))
     \<lparr>tc_wsContext := w, tc_trace := tc_trace c @ [ConnectionCalled kDisconnected, CloseCalled], tc_registered := False\<rparr>))"
proof -
  define c1 where "c1 = tc_call DisableAll (c\<lparr>tc_ssl := False, tc_state := kDisconnected\<rparr>)"
  define c2 where "c2 = c1\<lparr>tc_trace := tc_trace c @ [ConnectionCalled kDisconnected]\<rparr>"
  obtain w where w: "connectionCallback cb c2 = Inr (c2\<lparr>tc_wsContext := w\<rparr>)"
    using tcp_application.connection_law [OF assms(1)] by blast
  have c1: "tc_registered c1" "tc_trace c1 = tc_trace c" "tc_state c1 = kDisconnected" using assms(2) by (simp_all add: c1_def)
  have "handleClose cb c = closeCallback cb (c2\<lparr>tc_wsContext := w, tc_trace := tc_trace c @ [ConnectionCalled kDisconnected, CloseCalled]\<rparr>)"
    using w c1(2,3) by (simp add: handleClose_def call_connection_def c2_def flip: c1_def)
  also have "\<dots> = Inr (QueueInLoop ConnectDestroyed (c2\<lparr>tc_wsContext := w,
      tc_trace := tc_trace c @ [ConnectionCalled kDisconnected, CloseCalled], tc_registered := False\<rparr>))"
    using tcp_application.close_law [OF assms(1)] c1(1) by (simp add: c2_def)
  finally show ?thesis by (auto simp: c2_def c1_def)
qed

lemma handleClose_closed:
  assumes "tcp_application cb msg ok flt" "open_ok E c"
  shows "\<exists>c'. handleClose cb c = Inr c' \<and> tc_state c' = kDisconnected \<and> tc_sent c' = tc_sent c \<and> \<not> tc_registered c' \<and>
    told c' = [ConnectionCalled kConnected, ConnectionCalled kDisconnected, CloseCalled] \<and> tc_errno c' = tc_errno c \<and>
    tc_ssl c' = False"
  using handleClose_form [OF assms(1), of c] assms(2) by (auto simp: open_ok_def told_def QueueInLoop_def)

text \<open>
  C32.  What a send can break.  On a connection that is up with nothing waiting: a direct write that takes the first \<open>n\<close> bytes of a
  message leaves the message's first bytes again in the buffer instead of its rest, so the peer gets another stream; sending an empty message
  closes the connection; and a message that is written completely closes it when an earlier call has left another value in \<^verbatim>\<open>errno\<close>.
\<close>

theorem send_breaks:
  assumes app: "tcp_application cb msg ok flt" and c: "open_ok {0} c" "content (tc_outputBuffer c) = []"
  shows "(0 < n \<and> n < length data \<and> tc_writes c = [Took n] \<longrightarrow>
      (\<exists>c'. sendInLoop cb data c = Inr c' \<and> tc_sent c' = tc_sent c @ take n data \<and>
        content (tc_outputBuffer c') = take (length data - n) data)) \<and>
    (\<exists>c'. sendInLoop cb [] c = Inr c' \<and> tc_state c' = kDisconnected \<and>
      told c' = [ConnectionCalled kConnected, ConnectionCalled kDisconnected, CloseCalled]) \<and>
    (data \<noteq> [] \<and> tc_writes c = [Took (length data)] \<and> e \<notin> {0, EAGAIN, EINTR, EINPROGRESS} \<longrightarrow>
      (\<exists>c'. sendInLoop cb data (c\<lparr>tc_errno := e\<rparr>) = Inr c' \<and> tc_sent c' = tc_sent c @ data \<and> tc_state c' = kDisconnected))"
proof (intro conjI impI)
  have base: "base_ok c" "live c" "tc_errno c = 0" "\<not> isWriting (tc_channel c)" using c by (simp_all add: open_ok_def)
  assume n: "0 < n \<and> n < length data \<and> tc_writes c = [Took n]"
  then have w: "writeFull (tc_errno c) data (tc_writes c) = (n, -1, EAGAIN, [])"
    by (auto simp: writeFull_def Let_def min_def)
  define c1 where "c1 = (sent_some cb data n EAGAIN [] c)\<lparr>tc_errno := 0\<rparr>"
  have "part_ok c1" using base(1) sent_some_kept(1) [of c cb data n EAGAIN "[]"] by (simp add: c1_def base_part part_ok_def polled_def)
  moreover have "sendInLoop cb data c = sendInLoop_append cb (take (length data - n) data) c1"
    using send_direct [OF base(1,2,4) c(2) w, of cb] n by (simp add: sendInLoop_errno_def c1_def errno_defs)
  ultimately show "\<exists>c'. sendInLoop cb data c = Inr c' \<and> tc_sent c' = tc_sent c @ take n data \<and>
        content (tc_outputBuffer c') = take (length data - n) data"
    using append_kept [of c1 cb "take (length data - n) data"] c(2) by (auto simp: c1_def)
next
  have base: "base_ok c" "live c" "tc_errno c = 0" "\<not> isWriting (tc_channel c)" using c by (simp_all add: open_ok_def)
  let ?u = "sent_some cb [] 0 0 (tc_writes c) c"
  have "open_ok UNIV ?u"
    using c(1) by (simp add: sent_some_def Let_def QueueInLoop_def conn_unfold only_sends_def)
  from handleClose_closed [OF app this]
  show "\<exists>c'. sendInLoop cb [] c = Inr c' \<and> tc_state c' = kDisconnected \<and>
      told c' = [ConnectionCalled kConnected, ConnectionCalled kDisconnected, CloseCalled]"
    using send_direct [OF base(1,2,4) c(2), of "[]" 0 0 0 "tc_writes c" cb] base(3)
    by (auto simp: writeFull_nothing sendInLoop_errno_def)
next
  assume d: "data \<noteq> [] \<and> tc_writes c = [Took (length data)] \<and> e \<notin> {0, EAGAIN, EINTR, EINPROGRESS}"
  define c1 where "c1 = c\<lparr>tc_errno := e\<rparr>"
  have base: "base_ok c1" "live c1" "tc_errno c1 = e" "\<not> isWriting (tc_channel c1)" "content (tc_outputBuffer c1) = []" "tc_writes c1 = tc_writes c"
    using c by (simp_all add: c1_def conn_unfold)
  have w: "writeFull (tc_errno c1) data (tc_writes c1) = (length data, int (length data), e, [])"
    using writeFull_whole [of data "length data"] d base(3,6) by simp
  let ?u = "sent_some cb data (length data) e [] c1"
  have "open_ok UNIV ?u"
    using c by (simp add: sent_some_def Let_def QueueInLoop_def conn_unfold only_sends_def c1_def)
  from handleClose_closed [OF app this]
  show "\<exists>c'. sendInLoop cb data (c\<lparr>tc_errno := e\<rparr>) = Inr c' \<and> tc_sent c' = tc_sent c @ data \<and> tc_state c' = kDisconnected"
    using send_direct [OF base(1,2,4,5) w, of cb] d by (auto simp: sendInLoop_errno_def c1_def)
qed

lemma send_breaks_witness:
  "\<exists>c'. sendInLoop default_server [7, 8, 9] (demo_connection\<lparr>tc_writes := [Took 1]\<rparr>) = Inr c' \<and>
    tc_sent c' @ content (tc_outputBuffer c') = [7, 7, 8]"
proof -
  let ?c = "demo_connection\<lparr>tc_writes := [Took 1]\<rparr>"
  have c: "open_ok {0} ?c" "content (tc_outputBuffer ?c) = []"
    using demo_connection_ok(1) demo_idle(2) by (simp_all add: conn_unfold)
  show ?thesis
    using send_breaks [OF dflt.tcp_application_axioms c, of 1 "[7, 8, 9]"] demo_idle(6) by auto
qed


lemma close_again:
  "handleClose default_server c = Inr (QueueInLoop ConnectDestroyed ((tc_call DisableAll (c\<lparr>tc_ssl := False, tc_state := kDisconnected\<rparr>))
     \<lparr>tc_trace := tc_trace c @ [ConnectionCalled kDisconnected, CloseCalled], tc_registered := False\<rparr>))"
  by (simp add: handleClose_def call_connection_def server_close defaultConnectionCallback_def removeConnection_registered tc_call_def)



end
