(* ===== verification/WS_Server.thy ===== *)
theory WS_Server
  imports WS_Termination WS_Handshake WS_TcpServer
begin

text \<open>
  The WebSocket server on a TCP connection: \<^verbatim>\<open>net/libwebsocket/context.cc\<close>, the object the frame parser calls back,
  \<^verbatim>\<open>net/libwebsocket/server.cc\<close>, which attaches it to a connection and answers, and the application \<^verbatim>\<open>demo/echo.cc\<close>.

  The frame parser collects its calls (\<open>calls\<close> of a session); here they are carried out on the connection, in order.  None of
  them touches the session or the input buffer, and what the application does to the message's buffer is undone by the parser, which empties it
  next.  A call that ends the connection frees the session under the parser, which is undefined behaviour.
\<close>

type_synonym ws_connection = "(Buffer, HttpContext) Context_ TcpConnection"

section \<open>The context\<close>

definition Context_create :: "(Buffer, HttpContext) Context_ res" where
  "Context_create = create True (Some HttpContext_ctor) (Some (Buffer_ctor kInitialSize)) (Some (Buffer_ctor kInitialSize))"

text \<open>\<^verbatim>\<open>hook\<close> attaches a session to the connection; the callbacks it stores are arguments of \<open>Context_call\<close>.\<close>

definition hook :: "ws_connection \<Rightarrow> ws_connection res" where
  "hook c = rbind Context_create (\<lambda>x. Inr (c\<lparr>tc_wsContext := Some x\<rparr>))"

definition reset_context :: "ws_connection \<Rightarrow> ws_connection" where
  "reset_context c = c\<lparr>tc_wsContext := None\<rparr>"

section \<open>Answers\<close>

definition server_send :: "(Buffer, HttpContext) Context_ tcp_callbacks \<Rightarrow> bytes \<Rightarrow> ws_connection \<Rightarrow> ws_connection res" where
  "server_send cb data c =
     rbind (pack_unmask_data_frame Buffer_vtable (Buffer_ctor kInitialSize) data (length data) TyBinaryMessage False) (\<lambda>rspdata.
     rmap snd (send_buffer True cb rspdata c))"

definition onClosed :: "(Buffer, HttpContext) Context_ tcp_callbacks \<Rightarrow> bytes \<Rightarrow> ws_connection \<Rightarrow> ws_connection res" where
  "onClosed cb payload c =
     rbind (pack_unmask_close_frame Buffer_vtable (Buffer_ctor kInitialSize) (Some payload) (length payload)) (\<lambda>rspdata.
     rmap snd (send_buffer True cb rspdata c))"

text \<open>The overrides of \<^verbatim>\<open>ICallback\<close>: \<open>connected\<close> and \<open>message\<close> are the application's.\<close>

fun Context_call ::
  "(bytes \<Rightarrow> ws_connection \<Rightarrow> ws_connection res) \<Rightarrow> (bytes \<Rightarrow> MessageE \<Rightarrow> timestamp \<Rightarrow> ws_connection \<Rightarrow> ws_connection res) \<Rightarrow>
   (Buffer, HttpContext) Context_ tcp_callbacks \<Rightarrow> callback \<Rightarrow> ws_connection \<Rightarrow> ws_connection res" where
  "Context_call connected message cb (SendMessage data) c = send True cb data c"
| "Context_call connected message cb Shutdown c = Inr (shutdown True c)"
| "Context_call connected message cb ForceClose c = Inr (forceClose c)"
| "Context_call connected message cb (OnConnectedCallback ipaddr) c = connected ipaddr c"
| "Context_call connected message cb (OnMessageCallback data ty t) c = message data ty t c"
| "Context_call connected message cb (OnClosedCallback data t) c = onClosed cb data c"

fun Context_calls ::
  "(bytes \<Rightarrow> ws_connection \<Rightarrow> ws_connection res) \<Rightarrow> (bytes \<Rightarrow> MessageE \<Rightarrow> timestamp \<Rightarrow> ws_connection \<Rightarrow> ws_connection res) \<Rightarrow>
   (Buffer, HttpContext) Context_ tcp_callbacks \<Rightarrow> callback list \<Rightarrow> ws_connection \<Rightarrow> ws_connection res" where
  "Context_calls connected message cb [] c = Inr c"
| "Context_calls connected message cb (x # xs) c =
     rbind (Context_call connected message cb x c) (\<lambda>c1.
     case tc_wsContext c1 of None \<Rightarrow> Inl (Undefined Server_cc 27) | Some _ \<Rightarrow> Context_calls connected message cb xs c1)"

text \<open>\<^verbatim>\<open>websocket::onMessage\<close>, the message callback of the connection; the assertion on the context is compiled out.\<close>

definition onMessage ::
  "bool \<Rightarrow> environment \<Rightarrow> (bytes \<Rightarrow> ws_connection \<Rightarrow> ws_connection res) \<Rightarrow>
   (bytes \<Rightarrow> MessageE \<Rightarrow> timestamp \<Rightarrow> ws_connection \<Rightarrow> ws_connection res) \<Rightarrow> (Buffer, HttpContext) Context_ tcp_callbacks \<Rightarrow>
   timestamp \<Rightarrow> ws_connection \<Rightarrow> ws_connection res" where
  "onMessage D E connected message cb receiveTime c =
     (case tc_wsContext c of
        None \<Rightarrow> Inl (Undefined Server_cc 27)
      | Some x \<Rightarrow>
          rbind (parse_message_frame Buffer_vtable HttpContext_vtable D E receiveTime
                   (Some \<lparr>ctx = x, inbuf = tc_inputBuffer c, calls = []\<rparr>)) (\<lambda>(_, r).
          case r of
            None \<Rightarrow> Inr c
          | Some s \<Rightarrow> Context_calls connected message cb (calls s)
                         (c\<lparr>tc_inputBuffer := inbuf s, tc_wsContext := Some (ctx s)\<rparr>)))"

section \<open>The echo server\<close>

definition EchoServer_onConnection :: "ws_connection \<Rightarrow> ws_connection res" where
  "EchoServer_onConnection c = (if tc_state c = WS_Tcp.kConnected then hook c else Inr (reset_context c))"

definition EchoServer_onConnected :: "bytes \<Rightarrow> ws_connection \<Rightarrow> ws_connection res" where
  "EchoServer_onConnected ipaddr c = Inr c"

definition echo_text :: bytes where
  "echo_text = str ''pack_unmask_data_frame:  '' @ str ''[wss://192.168.2.93:10000]''"

definition EchoServer_onMessage ::
  "(Buffer, HttpContext) Context_ tcp_callbacks \<Rightarrow> bytes \<Rightarrow> MessageE \<Rightarrow> timestamp \<Rightarrow> ws_connection \<Rightarrow> ws_connection res" where
  "EchoServer_onMessage cb data ty t c = server_send cb echo_text c"

text \<open>The callbacks of the echo server's connections, without TLS.\<close>

definition echo_server :: "(Buffer, HttpContext) Context_ tcp_callbacks" where
  "echo_server = server_callbacks EchoServer_onConnection False"

definition echo_onMessage :: "bool \<Rightarrow> environment \<Rightarrow> timestamp \<Rightarrow> ws_connection \<Rightarrow> ws_connection res" where
  "echo_onMessage D E = onMessage D E EchoServer_onConnected (EchoServer_onMessage echo_server) echo_server"

section \<open>Frames sent\<close>

lemma send_buffer_send: "rmap snd (send_buffer True cb buf c) = send True cb (content buf) c"
  by (cases "sendInLoop cb (content buf) c") (simp_all add: send_buffer_def send_def rmap_def)

lemma new_buffer: "buffer_inv (Buffer_ctor n)" "content (Buffer_ctor n) = []"
  by (simp_all add: Buffer_ctor_ok)

lemma server_send_frame:
  assumes "length data \<le> 65535"
  shows "server_send cb data c = send True cb (server_frame FrameFinished BinaryMessage data) c"
proof -
  obtain b where "pack_unmask_data_frame Buffer_vtable (Buffer_ctor kInitialSize) data (length data) TyBinaryMessage False = Inr b"
      "content b = fragment_frames BinaryMessage [data]"
    using mb.pack_data_frame_ok [OF new_buffer(1) [of kInitialSize] refl, where m = TyBinaryMessage and chunk = False and xs = data] assms new_buffer(2)
    by auto
  then show ?thesis by (simp add: server_send_def send_buffer_send)
qed

lemma onClosed_frame:
  "length payload \<le> 65535 \<Longrightarrow> onClosed cb payload c = send True cb (server_frame FrameFinished CloseMessage payload) c"
  "\<not> length payload \<le> 65535 \<Longrightarrow> onClosed cb payload c = Inl (AssertFail Websocket_cc 1529)"
proof -
  have k: "is_control CloseMessage" by (simp add: is_control_def)
  show "onClosed cb payload c = send True cb (server_frame FrameFinished CloseMessage payload) c" if "length payload \<le> 65535"
    using mb.pack_control_ok [OF new_buffer(1) [of kInitialSize] k that] new_buffer(2)
    by (auto simp: onClosed_def pack_unmask_close_frame_def send_buffer_send)
  show "onClosed cb payload c = Inl (AssertFail Websocket_cc 1529)" if "\<not> length payload \<le> 65535"
    using mb.pack_control_too_long [OF k, of "length payload"] that
    by (simp add: onClosed_def pack_unmask_close_frame_def)
qed

lemma server_frame_nonempty [simp]: "server_frame fin x payload \<noteq> []"
  by (simp add: server_frame_def header_bytes_def)

lemma echo_text_short: "length echo_text \<le> 65535"
  by (simp add: echo_text_def str_def)


section \<open>Sessions the server keeps\<close>

definition ws_ok :: "(Buffer, HttpContext) Context_ \<Rightarrow> bool" where
  "ws_ok x \<longleftrightarrow> (\<forall>b. messageBuffer (dataMessage x) = Some b \<longrightarrow> buffer_inv b) \<and>
     (\<forall>b. messageBuffer (controlMessage x) = Some b \<longrightarrow> buffer_inv b) \<and>
     (httpContext x = None \<or> httpContext x = Some HttpContext_ctor)"

lemma Context_create_ok: "\<exists>x. Context_create = Inr x \<and> ws_ok x \<and> (\<forall>b cs. buffer_inv b \<longrightarrow> fresh_session \<lparr>ctx = x, inbuf = b, calls = cs\<rparr>)"
  by (simp add: Context_create_def create_def Context_ctor_def setMessageBuffer_def Message_ctor_def ws_ok_def new_buffer
      fresh_session_def msg_holds_def getMessageType_def)

text \<open>What the parser leaves, whatever the bytes: it stops at an assertion, or the session is good and no message it sends is empty.\<close>

definition left_ok :: "(Buffer, HttpContext) session \<Rightarrow> bool" where
  "left_ok s \<longleftrightarrow> buffer_inv (inbuf s) \<and> ws_ok (ctx s) \<and> [] \<notin> set (sends (calls s))"

lemma left_no_http: "left_ok s \<Longrightarrow> left_ok (s\<lparr>ctx := (ctx s)\<lparr>httpContext := None\<rparr>\<rparr>)"
  by (simp add: left_ok_def ws_ok_def)

lemma safe_value [simp]: "safe P (Inr x) \<longleftrightarrow> P x"
  by (simp add: safe_def)

lemma handshake_failed_safe: "left_ok s \<Longrightarrow> safe (\<lambda>(ok, e, s'). left_ok s' \<and> (e = None \<longrightarrow> ok \<or> e' = None)) (handshake_failed e' s)"
  using left_no_http [of s] by (simp add: handshake_failed_def getHttpContext_def split: option.splits)

lemma response_nonempty [simp]: "create_websocket_response E g \<noteq> []" "bad_request \<noteq> []"
    "[] \<noteq> create_websocket_response E g" "[] \<noteq> bad_request"
  by (simp_all add: create_websocket_response_def bad_request_def str_def kCRLF_def)

lemma handshake_done_safe:
  assumes "left_ok (s\<lparr>ctx := (ctx s)\<lparr>httpContext := None\<rparr>\<rparr>)"
  shows "safe (\<lambda>(ok, e, s'). left_ok s') (handshake_done Buffer_vtable HttpContext_vtable E h s)"
  using assms mb.retrieveAll [of "inbuf s"]
  by (auto simp: handshake_done_def getHttpContext_def emit_def Let_def left_ok_def ws_ok_def require_def split: option.splits)

lemma do_handshake_safe:
  assumes "left_ok s"
  shows "safe (\<lambda>(ok, e, s'). left_ok s') (do_handshake Buffer_vtable HttpContext_vtable E t s)"
proof -
  have fail: "safe (\<lambda>(ok, e, s'). left_ok s') (handshake_failed e s)" if "left_ok s" for e and s :: "(Buffer, HttpContext) session"
    using handshake_failed_safe [OF that, of e] by (rule safe_mono) auto
  have inv: "buffer_inv (inbuf s)" and w: "ws_ok (ctx s)" using assms by (simp_all add: left_ok_def)
  show ?thesis
  proof (cases "vfindCRLFCRLF Buffer_vtable (inbuf s)")
    case None
    then show ?thesis using fail [OF assms] by (auto simp: do_handshake_def intro!: safe_require)
  next
    case (Some i)
    then have f: "find_sub kCRLFCRLF (content (inbuf s)) \<noteq> None" using mb.find4 [OF inv] by simp
    have parsed: "safe (\<lambda>(ok, e, s'). left_ok s') (rbind (getHttpContext (ctx s)) (\<lambda>h.
        rbind (vparseRequestPtr HttpContext_vtable h (inbuf s) t) (\<lambda>(ok, h', b).
          let s1 = s\<lparr>inbuf := b, ctx := (ctx s)\<lparr>httpContext := Some h'\<rparr>\<rparr> in
          if \<not> ok then handshake_failed (Some WS_ERROR_PARSE) s1
          else if vgotAll HttpContext_vtable h' then handshake_done Buffer_vtable HttpContext_vtable E h' s1
          else handshake_failed None s1)))"
    proof (cases "httpContext (ctx s)")
      case None
      then show ?thesis by (simp add: getHttpContext_def)
    next
      case (Some h)
      then have h: "h = HttpContext_ctor" using w by (simp add: ws_ok_def)
      obtain ok h' b where p: "vparseRequestPtr HttpContext_vtable h (inbuf s) t = Inr (ok, h', b)" "buffer_inv b" "ok \<longrightarrow> vgotAll HttpContext_vtable h'"
        using hp.parse_fresh [OF inv f, of t] h by blast
      define s1 where "s1 = s\<lparr>inbuf := b, ctx := (ctx s)\<lparr>httpContext := None\<rparr>\<rparr>"
      have s1: "left_ok s1" using assms p(2) by (simp add: s1_def left_ok_def ws_ok_def)
      have "safe (\<lambda>(ok, e, s'). left_ok s') (handshake_failed e (s\<lparr>inbuf := b, ctx := (ctx s)\<lparr>httpContext := Some h'\<rparr>\<rparr>))" for e
        using s1 by (simp add: handshake_failed_def getHttpContext_def s1_def)
      moreover have "safe (\<lambda>(ok, e, s'). left_ok s') (handshake_done Buffer_vtable HttpContext_vtable E h' (s\<lparr>inbuf := b, ctx := (ctx s)\<lparr>httpContext := Some h'\<rparr>\<rparr>))"
        using s1 by (intro handshake_done_safe) (simp add: s1_def)
      ultimately show ?thesis using Some p(1,3) by (simp add: getHttpContext_def Let_def)
    qed
    then show ?thesis using fail [OF assms] Some unfolding do_handshake_def by (auto intro!: safe_require)
  qed
qed

lemma parse_message_frame_safe:
  assumes "left_ok s"
  shows "safe (\<lambda>(n, r). \<exists>s'. r = Some s' \<and> left_ok s') (parse_message_frame Buffer_vtable HttpContext_vtable D E t (Some s))"
proof (cases "wsState (ctx s) = kClosed")
  case True
  have "safe (\<lambda>(n, r). \<exists>s'. r = Some s' \<and> left_ok s') (rbind (do_handshake Buffer_vtable HttpContext_vtable E t s) (\<lambda>(wsConnected, saveErrno, s1).
      case saveErrno of
        None \<Rightarrow> require Websocket_cc 3872 wsConnected (Inr (0, Some s1))
      | Some e \<Rightarrow> if e = WS_ERROR_PARSE \<or> e = WS_ERROR_PACKSZ
          then require Websocket_cc 1077 (handler (ctx s1)) (Inr (HandShakeE_value e, Some (emit Shutdown (emit (SendMessage bad_request) s1))))
          else Inr (HandShakeE_value e, Some s1)))"
    by (rule safe_rbind [OF do_handshake_safe [OF assms]])
      (auto simp: left_ok_def emit_def split: option.splits intro!: safe_require)
  then show ?thesis using True by (simp add: parse_message_frame_def)
next
  case False
  have w: "mb.wf_session s \<longleftrightarrow> buffer_inv (inbuf s) \<and> (\<forall>b. messageBuffer (dataMessage (ctx s)) = Some b \<longrightarrow> buffer_inv b) \<and>
      (\<forall>b. messageBuffer (controlMessage (ctx s)) = Some b \<longrightarrow> buffer_inv b)" for s :: "(Buffer, HttpContext) session"
    by (simp add: mb.wf_session_def mb.wf_message_def)
  have "mb.wf_session s" using assms by (simp add: w left_ok_def ws_ok_def)
  from mb.safe_parse_frame [OF this, of D t] have "safe left_ok (parse_frame Buffer_vtable D t s)"
    by (rule safe_mono) (use assms in \<open>simp add: w left_ok_def ws_ok_def\<close>)
  then show ?thesis
    using False by (auto simp: parse_message_frame_def safe_rmap intro!: safe_require elim!: safe_mono)
qed


section \<open>Carrying out the calls\<close>

abbreviation echo_call :: "callback \<Rightarrow> ws_connection \<Rightarrow> ws_connection res" where
  "echo_call \<equiv> Context_call EchoServer_onConnected (EchoServer_onMessage echo_server) echo_server"

abbreviation echo_calls :: "callback list \<Rightarrow> ws_connection \<Rightarrow> ws_connection res" where
  "echo_calls \<equiv> Context_calls EchoServer_onConnected (EchoServer_onMessage echo_server) echo_server"

lemma send_step:
  assumes c: "open_ok again c" "quiet_writes (tc_writes c)" and data: "data \<noteq> []"
  obtains c1 where "send True cb data c = Inr c1" "user_step cb c c1" "open_ok again c1" "quiet_writes (tc_writes c1)"
    "tc_wsContext c1 = tc_wsContext c" "tc_errno c = 0 \<longrightarrow> tc_errno c1 = 0" "tc_state c1 = tc_state c" "tc_inputBuffer c1 = tc_inputBuffer c"
    "tc_state c = WS_Tcp.kConnected \<longrightarrow> accepted c1 = accepted c @ data"
proof (cases "tc_state c = WS_Tcp.kConnected")
  case True
  obtain c1 n where c1: "sendInLoop cb data c = Inr c1" "open_ok again c1" "same_rest c c1" "quiet_writes (tc_writes c1)"
      "tc_trace c1 = tc_trace c @ [SendAccepted data n]" "tc_errno c = 0 \<longrightarrow> tc_errno c1 = 0"
    using sendInLoop_quiet [OF c data, of cb] by blast
  have "send True cb data c = Inr c1" using True c1(1) by (simp add: send_def)
  then show thesis
    using that [of c1] user_send [OF data, of True cb c c1] c1 by (simp add: same_rest_def accepted_def)
next
  case False
  then have "send True cb data c = Inr c" by (simp add: send_def)
  then show thesis using that [of c] user_send [OF data, of True cb c c] c False by simp
qed

lemma echo_call_ok:
  assumes c: "open_ok again c" "quiet_writes (tc_writes c)" and x: "x \<noteq> SendMessage []"
  shows "(\<exists>c1. echo_call x c = Inr c1 \<and> user_steps echo_server c c1 \<and> tc_wsContext c1 = tc_wsContext c) \<or>
    echo_call x c = Inl (AssertFail Websocket_cc 1529)"
proof -
  have s: "\<exists>c1. send True echo_server data c = Inr c1 \<and> user_steps echo_server c c1 \<and> tc_wsContext c1 = tc_wsContext c" if "data \<noteq> []" for data
    by (rule send_step [OF c that, of echo_server]) auto
  show ?thesis
  proof (cases x)
    case (OnMessageCallback d ty t)
    then show ?thesis using s by (simp add: EchoServer_onMessage_def server_send_frame [OF echo_text_short])
  next
    case (OnClosedCallback d t)
    then show ?thesis using s onClosed_frame [of d echo_server c] by (cases "length d \<le> 65535") auto
  next
    case Shutdown
    then show ?thesis
      using user_shutdown [of echo_server c True] by (auto simp: shutdown_def shutdownInLoop_def Let_def intro: r_into_rtranclp)
  next
    case ForceClose
    then show ?thesis using user_forceClose [of echo_server c] by (auto simp: forceClose_def QueueInLoop_def intro: r_into_rtranclp)
  qed (use s x in \<open>auto simp: EchoServer_onConnected_def\<close>)
qed

lemma echo_calls_ok:
  assumes "open_ok again c" "quiet_writes (tc_writes c)" "[] \<notin> set (sends xs)" "tc_wsContext c = Some w"
  shows "(\<exists>c1. echo_calls xs c = Inr c1 \<and> user_steps echo_server c c1 \<and> tc_wsContext c1 = Some w) \<or>
    echo_calls xs c = Inl (AssertFail Websocket_cc 1529)"
  using assms
proof (induction xs arbitrary: c)
  case (Cons x xs)
  have x: "x \<noteq> SendMessage []" "[] \<notin> set (sends xs)" using Cons.prems(3) by auto
  from echo_call_ok [OF Cons.prems(1,2) x(1)] show ?case
  proof (elim disjE exE conjE)
    fix c1 assume c1: "echo_call x c = Inr c1" "user_steps echo_server c c1" "tc_wsContext c1 = tc_wsContext c"
    then have "echo_calls (x # xs) c = echo_calls xs c1" using Cons.prems(4) by simp
    moreover have "open_ok again c1" "quiet_writes (tc_writes c1)" using user_steps_ok [OF c1(2) Cons.prems(1,2)] by simp_all
    ultimately show ?thesis
      using Cons.IH [of c1] x(2) c1(2,3) Cons.prems(4) by (auto intro: rtranclp_trans)
  qed simp
qed simp

section \<open>The server as an application of a connection\<close>

text \<open>The faults of the WebSocket library: failed assertions of its frame parser and of its packing of close frames.\<close>

definition ws_fault :: "fault \<Rightarrow> bool" where
  "ws_fault f \<longleftrightarrow> f = AssertFail Websocket_cc 1529 \<or>
     (\<exists>src n D E t s. f = AssertFail src n \<and>
        parse_message_frame Buffer_vtable HttpContext_vtable D E t (Some s) = Inl f)"

definition session_ok :: "bool \<Rightarrow> (Buffer, HttpContext) Context_ option \<Rightarrow> bool" where
  "session_ok up w \<longleftrightarrow> (up \<longrightarrow> (\<exists>x. w = Some x \<and> ws_ok x))"

lemma echo_message:
  assumes c: "open_ok again c" "quiet_writes (tc_writes c)" and w: "session_ok True (tc_wsContext c)"
  shows "(\<exists>c1. echo_onMessage D E t c = Inr c1 \<and> user_steps echo_server c c1 \<and> session_ok True (tc_wsContext c1)) \<or>
    (\<exists>f. echo_onMessage D E t c = Inl f \<and> ws_fault f)"
proof -
  obtain x where x: "tc_wsContext c = Some x" "ws_ok x" using w by (auto simp: session_ok_def)
  define s0 where "s0 = (\<lparr>ctx = x, inbuf = tc_inputBuffer c, calls = []\<rparr> :: (Buffer, HttpContext) session)"
  have "left_ok s0" using x(2) open_input [OF c(1)] by (simp add: s0_def left_ok_def)
  from parse_message_frame_safe [OF this, of D E t] consider
      (ok) n s where "parse_message_frame Buffer_vtable HttpContext_vtable D E t (Some s0) = Inr (n, Some s)" "left_ok s"
    | (fail) src n where "parse_message_frame Buffer_vtable HttpContext_vtable D E t (Some s0) = Inl (AssertFail src n)"
    by (auto simp: safe_def split: sum.splits fault.splits)
  then show ?thesis
  proof cases
    case ok
    define c1 where "c1 = c\<lparr>tc_inputBuffer := inbuf s\<rparr>"
    define c2 where "c2 = c1\<lparr>tc_wsContext := Some (ctx s)\<rparr>"
    have s: "buffer_inv (inbuf s)" "ws_ok (ctx s)" "[] \<notin> set (sends (calls s))" using ok(2) by (simp_all add: left_ok_def)
    have "user_step echo_server c c1" unfolding c1_def by (rule user_input [OF s(1)])
    moreover have "user_step echo_server c1 c2" unfolding c2_def by (rule user_context)
    ultimately have c2: "user_steps echo_server c c2" by auto
    have open2: "open_ok again c2" "quiet_writes (tc_writes c2)" using user_steps_ok [OF c2 c] by simp_all
    have run: "echo_onMessage D E t c = echo_calls (calls s) c2"
      using x(1) ok(1) by (simp add: echo_onMessage_def onMessage_def s0_def c2_def c1_def)
    have "tc_wsContext c2 = Some (ctx s)" by (simp add: c2_def)
    from echo_calls_ok [OF open2 s(3) this] show ?thesis
      unfolding run using c2 s(2) by (auto simp: ws_fault_def session_ok_def intro: rtranclp_trans)
  next
    case fail
    then have "echo_onMessage D E t c = Inl (AssertFail src n)"
      using x(1) by (simp add: echo_onMessage_def onMessage_def s0_def)
    then show ?thesis using fail by (auto simp: ws_fault_def)
  qed
qed

interpretation echo: tcp_application echo_server "echo_onMessage D E" session_ok ws_fault for D E
proof unfold_locales
  fix c :: ws_connection
  obtain x where x: "Context_create = Inr x" "ws_ok x" using Context_create_ok by blast
  have "hook c = Inr (c\<lparr>tc_wsContext := Some x\<rparr>)" unfolding hook_def x(1) by simp
  then show "\<exists>w. connectionCallback echo_server c = Inr (c\<lparr>tc_wsContext := w\<rparr>) \<and> session_ok (tc_state c = WS_Tcp.kConnected) w"
    using x(2) by (intro exI [of _ "if tc_state c = WS_Tcp.kConnected then Some x else None"])
      (simp add: echo_server_def server_close EchoServer_onConnection_def reset_context_def session_ok_def)
next
  show "closeCallback echo_server c = Inr (QueueInLoop ConnectDestroyed (c\<lparr>tc_registered := False\<rparr>))" if "tc_registered c" for c
    using that by (simp add: echo_server_def server_close removeConnection_registered)
next
  fix t c c'
  assume "echo_onMessage D E t c = Inr c'" "open_ok again c" "quiet_writes (tc_writes c)" "session_ok True (tc_wsContext c)"
  then show "user_steps echo_server c c' \<and> session_ok True (tc_wsContext c')" using echo_message [of c D E t] by auto
next
  fix t c f
  assume "echo_onMessage D E t c = Inl f" "open_ok again c" "quiet_writes (tc_writes c)" "session_ok True (tc_wsContext c)"
  then show "ws_fault f" using echo_message [of c D E t] by auto
qed

end
