(* ===== verification/WS_Serve.thy ===== *)
theory WS_Serve
  imports WS_Server
begin

text \<open>
  Serving a client: the lemmas that carry the frame decoder of \<^verbatim>\<open>WS_FrameSpec\<close> through the reads of a connection.  A
  connection that serves stays readable, every chunk of bytes takes the session one step further in the client's stream, and the answers are
  sent in the order of the events.
\<close>

section \<open>Reading stays on\<close>

lemma or_nonzero: "(a :: 'a::len word) \<noteq> 0 \<Longrightarrow> a OR b \<noteq> 0"
  by (auto simp: bit_eq_iff bit_or_iff)

lemma reading_call [simp]:
  "isReading (tc_channel c) \<Longrightarrow> isReading (tc_channel (tc_call (EnableReading et) c))"
  "isReading (tc_channel c) \<Longrightarrow> isReading (tc_channel (tc_call (EnableWriting et) c))"
  "isReading (tc_channel c) \<Longrightarrow> isReading (tc_channel (tc_call (DisableWriting et) c))"
proof -
  have m: "NOT (writeEvent et) AND kReadEvent = kReadEvent"
    by (cases et) (simp_all add: writeEvent_def kWriteEvent_def kWriteEventET_def kReadEvent_def poll_bits)
  have a: "(e OR x) AND kReadEvent \<noteq> 0" if "e AND kReadEvent \<noteq> 0" for e x :: poll_events
    using or_nonzero [OF that] by (simp add: bit.conj_disj_distrib2)
  assume "isReading (tc_channel c)"
  then show "isReading (tc_channel (tc_call (EnableReading et) c))" "isReading (tc_channel (tc_call (EnableWriting et) c))"
      "isReading (tc_channel (tc_call (DisableWriting et) c))"
    using a by (simp_all add: isReading_def tc_call_def and.assoc m)
qed

lemma append_reading:
  assumes "sendInLoop_append cb xs c = Inr c'" "isReading (tc_channel c)"
  shows "isReading (tc_channel c')"
  using assms by (auto simp: sendInLoop_append_def Let_def QueueInLoop_def rbind_def split: sum.splits if_splits)

lemma send_reading:
  assumes c: "open_ok again c" "quiet_writes (tc_writes c)" "data \<noteq> []" "isReading (tc_channel c)" and s: "sendInLoop cb data c = Inr c'"
  shows "isReading (tc_channel c')"
proof (cases "isWriting (tc_channel c) \<or> content (tc_outputBuffer c) \<noteq> []")
  case True
  then show ?thesis
    using send_queued [of c data cb] c s append_reading [of cb data] by (auto simp: open_ok_def)
next
  case False
  obtain n r e ws where w: "writeFull (tc_errno c) data (tc_writes c) = (n, r, e, ws)" by (metis prod_cases4)
  have "tc_errno c \<in> again" using c(1) by (simp add: open_ok_def)
  then have e: "e \<in> again" "r \<noteq> 0" using writeFull_quiet [OF c(2,3) w] by auto
  define u where "u = (sent_some cb data n e ws c)\<lparr>tc_errno := 0\<rparr>"
  have "sendInLoop_errno cb r (sent_some cb data n e ws c) = Inr u \<or> e = 0 \<and> sendInLoop_errno cb r (sent_some cb data n e ws c) = Inr (sent_some cb data n e ws c)"
    using e by (auto simp: sendInLoop_errno_def u_def)
  moreover have "isReading (tc_channel u)" "isReading (tc_channel (sent_some cb data n e ws c))" using c(4) by (simp_all add: u_def)
  ultimately show ?thesis
    using send_direct [OF _ _ _ _ w, of cb] c(1) False s append_reading [of cb "take (length data - n) data"]
    by (auto simp: open_ok_def split: if_splits)
qed

lemma written_reading:
  assumes "written cb n c = Inr c'" "isReading (tc_channel c)"
  shows "isReading (tc_channel c')"
  using assms by (auto simp: written_def shutdownInLoop_def QueueInLoop_def Let_def rbind_def split: sum.splits if_splits)

lemma handleWrite_reading:
  assumes c: "open_ok {0} c" "quiet_writes (tc_writes c)" "isReading (tc_channel c)" and h: "handleWrite cb c = Inr c'"
  shows "isReading (tc_channel c') \<and> tc_inputBuffer c' = tc_inputBuffer c"
proof (cases "isWriting (tc_channel c)")
  case True
  have p: "\<not> tc_ssl_ctx c" "\<not> tc_ssl c" "tc_errno c = 0" "content (tc_outputBuffer c) \<noteq> []" using c(1) True by (simp_all add: open_ok_def base_ok_def)
  obtain n r e ws where w: "writeFull 0 (content (tc_outputBuffer c)) (tc_writes c) = (n, r, e, ws)" by (metis prod_cases4)
  have e: "e \<in> again" "r \<noteq> 0" "r > 0 \<longrightarrow> e = 0" using writeFull_quiet [OF c(2) p(4) w] by auto
  define c1 where "c1 = c\<lparr>tc_errno := e, tc_writes := ws, tc_sent := tc_sent c @ take n (content (tc_outputBuffer c))\<rparr>"
  have run: "handleWrite cb c = rbind (if n > 0 then written cb n c1 else Inr c1) (handleWrite_errno cb r)"
    unfolding c1_def using p True w by (simp add: handleWrite_def Let_def split del: if_split)
  then obtain c2 where c2: "(if n > 0 then written cb n c1 else Inr c1) = Inr c2" "handleWrite_errno cb r c2 = Inr c'"
    using h by (cases "if n > 0 then written cb n c1 else Inr c1") (simp_all split del: if_split)
  have "isReading (tc_channel c1)" using c(3) by (simp add: c1_def)
  then have rd: "isReading (tc_channel c2)" using c2(1) written_reading [of cb n c1 c2] by (auto split: if_splits)
  have "tc_errno c2 = e \<and> tc_inputBuffer c2 = tc_inputBuffer c"
    using c2(1) by (auto simp: written_def shutdownInLoop_def QueueInLoop_def Let_def rbind_def c1_def split: sum.splits if_splits)
  moreover have "isReading (tc_channel (tc_call (EnableWriting (tc_et c2)) (c2\<lparr>tc_errno := 0\<rparr>)))" using rd by simp
  ultimately show ?thesis using c2(2) e rd by (auto simp: handleWrite_errno_def split: if_splits)
next
  case False
  then show ?thesis using assms by (auto simp: handleWrite_def open_ok_def base_ok_def)
qed


section \<open>The decoder along a stream that does not close\<close>

lemma deliver_closed: "closed st \<Longrightarrow> closed (fst (deliver st h key p))"
  by (simp add: deliver_def Let_def)

lemma decode_closed: "decode st xs = Some (st', evs, rest) \<Longrightarrow> closed st \<Longrightarrow> closed st'"
proof (induction st xs arbitrary: evs rule: decode.induct)
  case (3 st b0 b1 xs)
  show ?case
  proof (cases "take_body (header_of_bytes b0 b1) xs")
    case None
    then show ?thesis using "3.prems" by (auto simp: Let_def split: if_splits)
  next
    case (Some kpr)
    obtain key p r where k: "kpr = (key, p, r)" by (cases kpr)
    have acc: "accepts st (header_of_bytes b0 b1)" using "3.prems"(1) by (auto simp: Let_def split: if_splits)
    from "3.prems"(1) obtain e2 where "decode (fst (deliver st (header_of_bytes b0 b1) key p)) r = Some (st', e2, rest)"
      using Some k acc by (auto simp: Let_def prefix_events_eq_Some)
    then show ?thesis using "3.IH" [OF refl acc Some] k deliver_closed [OF "3.prems"(2)] by auto
  qed
qed simp_all

lemma decode_messages:
  "decode st xs = Some (st', evs, rest) \<Longrightarrow> \<not> closed st' \<Longrightarrow> list_all (\<lambda>e. \<exists>ty d. e = MessageEvent ty d) evs"
proof (induction st xs arbitrary: evs rule: decode.induct)
  case (3 st b0 b1 xs)
  let ?h = "header_of_bytes b0 b1"
  have acc: "accepts st ?h" using "3.prems"(1) by (auto simp: Let_def split: if_splits)
  show ?case
  proof (cases "take_body ?h xs")
    case None
    then show ?thesis using "3.prems"(1) acc by (auto simp: Let_def)
  next
    case (Some kpr)
    obtain key p r where k: "kpr = (key, p, r)" by (cases kpr)
    from "3.prems"(1) obtain e2 where d: "decode (fst (deliver st ?h key p)) r = Some (st', e2, rest)" "evs = snd (deliver st ?h key p) @ e2"
      using Some k acc by (auto simp: Let_def prefix_events_eq_Some)
    have "\<not> closed (fst (deliver st ?h key p))" using decode_closed [OF d(1)] "3.prems"(2) by blast
    then have "list_all (\<lambda>e. \<exists>ty d. e = MessageEvent ty d) (snd (deliver st ?h key p))"
      by (auto simp: deliver_def Let_def split: if_splits)
    then show ?thesis using "3.IH" [OF refl acc Some] k d "3.prems"(2) by auto
  qed
qed simp_all

section \<open>Answering\<close>

abbreviation echo_frame :: bytes where
  "echo_frame \<equiv> server_frame FrameFinished BinaryMessage echo_text"

text \<open>The bytes a call of the parser sends.\<close>

fun answer_of :: "callback \<Rightarrow> bytes" where
  "answer_of (SendMessage data) = data"
| "answer_of (OnMessageCallback data ty t) = echo_frame"
| "answer_of _ = []"

definition plain_call :: "callback \<Rightarrow> bool" where
  "plain_call x \<longleftrightarrow> (case x of SendMessage data \<Rightarrow> data \<noteq> [] | OnMessageCallback _ _ _ \<Rightarrow> True | OnConnectedCallback _ \<Rightarrow> True | _ \<Rightarrow> False)"

text \<open>A connection that serves: up, readable, and nothing left in \<^verbatim>\<open>errno\<close>.\<close>

definition up :: "ws_connection \<Rightarrow> bool" where
  "up c \<longleftrightarrow> open_ok {0} c \<and> quiet_writes (tc_writes c) \<and> tc_state c = WS_Tcp.kConnected \<and> isReading (tc_channel c)"

lemma echo_call_up:
  assumes c: "up c" and x: "plain_call x"
  shows "\<exists>c1. echo_call x c = Inr c1 \<and> up c1 \<and> tc_wsContext c1 = tc_wsContext c \<and> tc_inputBuffer c1 = tc_inputBuffer c \<and>
    accepted c1 = accepted c @ answer_of x"
proof -
  have o: "open_ok {0} c" "open_ok again c" "quiet_writes (tc_writes c)" "tc_errno c = 0" "tc_state c = WS_Tcp.kConnected" "isReading (tc_channel c)"
    using c open_weaken [of "{0}" c again] by (simp_all add: up_def open_ok_def)
  have s: "\<exists>c1. send True echo_server data c = Inr c1 \<and> up c1 \<and> tc_wsContext c1 = tc_wsContext c \<and> tc_inputBuffer c1 = tc_inputBuffer c \<and>
      accepted c1 = accepted c @ data" if "data \<noteq> []" for data
  proof (rule send_step [OF o(2,3) that, of echo_server])
    fix c1 assume c1: "send True echo_server data c = Inr c1" "open_ok again c1" "quiet_writes (tc_writes c1)"
      "tc_wsContext c1 = tc_wsContext c" "tc_errno c = 0 \<longrightarrow> tc_errno c1 = 0" "tc_state c1 = tc_state c" "tc_inputBuffer c1 = tc_inputBuffer c"
      "tc_state c = WS_Tcp.kConnected \<longrightarrow> accepted c1 = accepted c @ data"
    have "open_ok {0} c1" using c1(2,5) o(4) by (simp add: open_ok_def)
    moreover have "isReading (tc_channel c1)" using send_reading [OF o(2,3) that o(6)] c1(1) o(5) by (simp add: send_def)
    ultimately show ?thesis using c1 o(5) by (simp add: up_def)
  qed
  show ?thesis
  proof (cases x)
    case (OnMessageCallback d ty t)
    then show ?thesis using s by (simp add: EchoServer_onMessage_def server_send_frame [OF echo_text_short])
  qed (use s x c in \<open>auto simp: plain_call_def EchoServer_onConnected_def\<close>)
qed

lemma echo_calls_up:
  assumes "up c" "list_all plain_call xs" "tc_wsContext c = Some w"
  shows "\<exists>c1. echo_calls xs c = Inr c1 \<and> up c1 \<and> tc_wsContext c1 = Some w \<and> tc_inputBuffer c1 = tc_inputBuffer c \<and>
    accepted c1 = accepted c @ concat (map answer_of xs)"
  using assms
proof (induction xs arbitrary: c)
  case (Cons x xs)
  obtain c1 where c1: "echo_call x c = Inr c1" "up c1" "tc_wsContext c1 = Some w" "tc_inputBuffer c1 = tc_inputBuffer c"
      "accepted c1 = accepted c @ answer_of x"
    using echo_call_up [OF Cons.prems(1), of x] Cons.prems(2,3) by auto
  with Cons.IH [OF c1(2) _ c1(3)] Cons.prems(2) show ?case by auto
qed simp

section \<open>A readable event\<close>

text \<open>Reads that bring bytes until there are no more.\<close>

abbreviation all_read :: "read_answer list \<Rightarrow> bool" where
  "all_read rs \<equiv> read_end 0 rs = (- 1, EAGAIN)"

lemma handleRead_up:
  assumes c: "up c" and rs: "all_read (tc_reads c)" "arrived (tc_reads c) \<noteq> []"
    and msg: "\<And>b c2. buffer_inv b \<Longrightarrow> content b = content (tc_inputBuffer c) @ arrived (tc_reads c) \<Longrightarrow> up c2 \<Longrightarrow>
      tc_inputBuffer c2 = b \<Longrightarrow> tc_wsContext c2 = tc_wsContext c \<Longrightarrow> accepted c2 = accepted c \<Longrightarrow> \<exists>c3. msg t c2 = Inr c3 \<and> up c3 \<and> P c3"
  shows "\<exists>c3. handleRead cb msg t c = Inr c3 \<and> up c3 \<and> P c3"
proof -
  have o: "open_ok {0} c" "\<not> tc_ssl_ctx c" "\<not> tc_ssl c" "buffer_inv (tc_inputBuffer c)" "tc_errno c = 0" "quiet_writes (tc_writes c)"
      "tc_state c = WS_Tcp.kConnected" "isReading (tc_channel c)"
    using c by (simp_all add: up_def open_ok_def base_ok_def)
  obtain as b where rd: "readFull 0 (tc_reads c) (tc_inputBuffer c) = Inr (length (arrived (tc_reads c)), -1, EAGAIN, as, b)" "buffer_inv b"
      "content b = content (tc_inputBuffer c) @ arrived (tc_reads c)"
    using readFull_loop_ok [OF o(4), of 0 0 "tc_reads c"] rs(1) by (auto simp: readFull_def)
  define c2 where "c2 = c\<lparr>tc_reads := as, tc_inputBuffer := b, tc_errno := 0, tc_trace := tc_trace c @ [MessageCalled t]\<rparr>"
  have "up c2" using c rd(2) by (simp add: c2_def up_def conn_unfold)
  moreover have "accepted c2 = accepted c" by (simp add: c2_def accepted_def)
  ultimately obtain c3 where c3: "msg t c2 = Inr c3" "up c3" "P c3"
    using msg [OF rd(2,3), of c2] by (auto simp: c2_def)
  have "handleRead cb msg t c = rbind (msg t c2) (\<lambda>c3. if tc_ssl c3 then handleRead_ssl cb (-1) c3 else handleRead_errno cb (-1) c3)"
    using o rd(1) rs(2) by (simp add: handleRead_def Let_def c2_def)
  moreover have "\<not> tc_ssl c3" "tc_errno c3 = 0" using c3(2) by (simp_all add: up_def open_ok_def base_ok_def)
  ultimately show ?thesis using c3 by (simp add: handleRead_errno_def errno_defs)
qed


section \<open>Serving\<close>

text \<open>The connection holds a session at point \<open>p\<close> of a frame, in state \<open>st\<close> of the decoder, and has decoded all it can.\<close>

definition serving :: "bool \<Rightarrow> astate \<Rightarrow> bytes \<Rightarrow> ws_connection \<Rightarrow> bool" where
  "serving D st p c \<longleftrightarrow> up c \<and> \<not> closed st \<and>
     (\<exists>x. tc_wsContext c = Some x \<and> sim content buffer_inv D st p \<lparr>ctx = x, inbuf = tc_inputBuffer c, calls = []\<rparr>) \<and>
     decode st (p @ content (tc_inputBuffer c)) = Some (st, [], p @ content (tc_inputBuffer c))"

lemma pollin_due: "callbacks_due t 1 = [ReadCallback t 1]" "isReading (tc_channel c) \<Longrightarrow> ready_ok 1 c"
  by (simp_all add: callbacks_due_def bits_set_def poll_bits ready_ok_def isNoneEvent_def isReading_def kNoneEvent_def)
    (auto simp: kReadEvent_def)

lemma message_calls:
  "list_all (\<lambda>e. \<exists>ty d. e = MessageEvent ty d) evs \<Longrightarrow>
    list_all plain_call (callbacks t evs) \<and> map answer_of (callbacks t evs) = map (\<lambda>_. echo_frame) evs"
  by (induction evs) (auto simp: callbacks_def plain_call_def)

lemma echo_message_served:
  assumes c: "up c" "tc_wsContext c = Some x" and sim: "sim content buffer_inv D st p \<lparr>ctx = x, inbuf = tc_inputBuffer c, calls = []\<rparr>"
    and d: "\<not> closed st" "decode st (p @ content (tc_inputBuffer c)) = Some (st', evs, rest)" "\<not> closed st'"
  shows "\<exists>c' p'. echo_onMessage D E t c = Inr c' \<and> up c' \<and> serving D st' p' c' \<and> rest = p' @ content (tc_inputBuffer c') \<and>
    accepted c' = accepted c @ concat (map (\<lambda>_. echo_frame) evs)"
proof -
  let ?s = "\<lparr>ctx = x, inbuf = tc_inputBuffer c, calls = []\<rparr> :: (Buffer, HttpContext) session"
  obtain s1 p1 where s1: "parse_frame Buffer_vtable D t ?s = Inr s1" "sim content buffer_inv D st' p1 s1" "calls s1 = callbacks t evs"
      "rest = p1 @ content (inbuf s1)"
    using mb.parse_frame_refines [OF sim, of st' evs rest t] d(2) by auto
  have "wsState x = WS_Frame.kConnected" using sim d(1) by (simp add: sim_def base_def Let_def)
  then have pm: "parse_message_frame Buffer_vtable HttpContext_vtable D E t (Some ?s) = Inr (0, Some s1)"
    using s1(1) by (simp add: parse_message_frame_def rmap_def)
  define c1 where "c1 = c\<lparr>tc_inputBuffer := inbuf s1, tc_wsContext := Some (ctx s1)\<rparr>"
  have "buffer_inv (inbuf s1)" using s1(2) by (simp add: sim_def base_def Let_def)
  then have c1: "up c1" "accepted c1 = accepted c" using c(1) by (simp_all add: c1_def up_def conn_unfold accepted_def)
  have ev: "list_all plain_call (callbacks t evs)" "map answer_of (callbacks t evs) = map (\<lambda>_. echo_frame) evs"
    using message_calls [OF decode_messages [OF d(2,3)], of t] by simp_all
  obtain c2 where c2: "echo_calls (callbacks t evs) c1 = Inr c2" "up c2" "tc_wsContext c2 = Some (ctx s1)" "tc_inputBuffer c2 = inbuf s1"
      "accepted c2 = accepted c @ concat (map answer_of (callbacks t evs))"
    using echo_calls_up [OF c1(1) ev(1), of "ctx s1"] c1(2) by (auto simp: c1_def)
  have "echo_onMessage D E t c = Inr c2"
    using c(2) pm c2(1) s1(3) by (simp add: echo_onMessage_def onMessage_def c1_def)
  moreover have "sim content buffer_inv D st' p1 \<lparr>ctx = ctx s1, inbuf = inbuf s1, calls = []\<rparr>"
    using s1(2) by (simp add: sim_def base_def Let_def)
  then have "serving D st' p1 c2"
    using c2 d(3) decode_settled [OF d(2)] s1(4) by (simp add: serving_def)
  ultimately show ?thesis using c2 s1(4) ev(2) by (intro exI [of _ c2] exI [of _ p1]) simp
qed

lemma read_served:
  assumes c: "serving D st p c" and rs: "all_read (tc_reads c)"
    and d: "decode st (p @ content (tc_inputBuffer c) @ arrived (tc_reads c)) = Some (st', evs, rest)" "\<not> closed st'"
  shows "\<exists>c' p'. tcp_input_step echo_server (echo_onMessage D E) (Ready t 1) c = Inr c' \<and> serving D st' p' c' \<and>
    rest = p' @ content (tc_inputBuffer c') \<and> accepted c' = accepted c @ concat (map (\<lambda>_. echo_frame) evs)"
proof -
  obtain x where x: "up c" "tc_wsContext c = Some x" "sim content buffer_inv D st p \<lparr>ctx = x, inbuf = tc_inputBuffer c, calls = []\<rparr>" "\<not> closed st"
      "decode st (p @ content (tc_inputBuffer c)) = Some (st, [], p @ content (tc_inputBuffer c))"
    using c by (auto simp: serving_def)
  have step: "tcp_input_step echo_server (echo_onMessage D E) (Ready t 1) c = handleRead echo_server (echo_onMessage D E) t c"
    using pollin_due(2) [of c] x(1) by (simp add: pollin_due(1) up_def rbind_def split: sum.splits)
  show ?thesis
  proof (cases "arrived (tc_reads c) = []")
    case True
    then have e: "st' = st" "evs = []" "rest = p @ content (tc_inputBuffer c)" using d(1) x(5) by simp_all
    have o: "open_ok {0} c" "\<not> tc_ssl_ctx c" "\<not> tc_ssl c" "buffer_inv (tc_inputBuffer c)" "tc_errno c = 0"
      using x(1) by (simp_all add: up_def open_ok_def base_ok_def)
    obtain as b where rd: "readFull 0 (tc_reads c) (tc_inputBuffer c) = Inr (0, -1, EAGAIN, as, b)" "buffer_inv b" "content b = content (tc_inputBuffer c)"
      using readFull_loop_ok [OF o(4), of 0 0 "tc_reads c"] rs True by (auto simp: readFull_def)
    define c1 where "c1 = c\<lparr>tc_reads := as, tc_inputBuffer := b, tc_errno := 0\<rparr>"
    define c2 where "c2 = tc_call (EnableReading (tc_et c1)) c1"
    have "handleRead echo_server (echo_onMessage D E) t c = Inr c2"
      using o rd(1) by (simp add: handleRead_def handleRead_errno_def c2_def c1_def)
    moreover have c1: "up c1" using x(1) rd(2) by (simp add: c1_def up_def conn_unfold)
    have "up c2" using c1 open_call [of "{0}" c1 "EnableReading (tc_et c1)"] by (simp add: c2_def up_def)
    then have "serving D st p c2" using x rd(2,3) by (auto simp: serving_def c2_def c1_def sim_def base_def Let_def)
    ultimately show ?thesis using e step rd(3) by (intro exI [of _ c2] exI [of _ p]) (simp add: c2_def c1_def accepted_def)
  next
    case False
    have "\<exists>c3. handleRead echo_server (echo_onMessage D E) t c = Inr c3 \<and> up c3 \<and>
       (\<exists>p'. serving D st' p' c3 \<and> rest = p' @ content (tc_inputBuffer c3) \<and> accepted c3 = accepted c @ concat (map (\<lambda>_. echo_frame) evs))"
    proof (rule handleRead_up [OF x(1) rs False])
      fix b and c2 :: ws_connection
      assume b: "buffer_inv b" "content b = content (tc_inputBuffer c) @ arrived (tc_reads c)" "up c2" "tc_inputBuffer c2 = b"
        "tc_wsContext c2 = tc_wsContext c" "accepted c2 = accepted c"
      have "sim content buffer_inv D st p \<lparr>ctx = x, inbuf = tc_inputBuffer c2, calls = []\<rparr>"
        using x(3) b(1,4) by (simp add: sim_def base_def Let_def)
      from echo_message_served [OF b(3) _ this x(4), of st' evs rest E t] b x(2) d
      show "\<exists>c3. echo_onMessage D E t c2 = Inr c3 \<and> up c3 \<and> (\<exists>p'. serving D st' p' c3 \<and> rest = p' @ content (tc_inputBuffer c3) \<and>
          accepted c3 = accepted c @ concat (map (\<lambda>_. echo_frame) evs))" by auto
    qed
    then show ?thesis using step by auto
  qed
qed

lemma write_served:
  assumes c: "serving D st p c"
  shows "\<exists>c'. tcp_input_step echo_server (echo_onMessage D E) (Ready t 4) c = Inr c' \<and> serving D st p c' \<and>
    tc_inputBuffer c' = tc_inputBuffer c \<and> accepted c' = accepted c"
proof (cases "isWriting (tc_channel c)")
  case True
  have up: "up c" using c by (simp add: serving_def)
  then have o: "open_ok {0} c" "quiet_writes (tc_writes c)" by (simp_all add: up_def)
  obtain n r e ws where w: "writeFull 0 (content (tc_outputBuffer c)) (tc_writes c) = (n, r, e, ws)" by (metis prod_cases4)
  from handleWrite_open [OF o True w, of echo_server]
  obtain c' where c': "handleWrite echo_server c = Inr c'" "open_ok {0} c'" "quiet_writes (tc_writes c')" "tc_state c' = tc_state c"
      "tc_wsContext c' = tc_wsContext c" "tc_trace c' = tc_trace c" by blast
  have "isReading (tc_channel c') \<and> tc_inputBuffer c' = tc_inputBuffer c"
    using handleWrite_reading [OF o _ c'(1)] up by (simp add: up_def)
  moreover have "tcp_input_step echo_server (echo_onMessage D E) (Ready t 4) c = Inr c'"
    using pollout_due(2) [OF True] c'(1) by (simp add: pollout_due(1))
  ultimately show ?thesis using c c' by (intro exI [of _ c']) (simp add: serving_def up_def accepted_def)
next
  case False
  then have "\<not> ready_ok 4 c" by (simp add: ready_ok_def bits_set_def poll_bits)
  then show ?thesis using c by simp
qed

text \<open>What a well behaved client and its network do: bytes arrive, or there is room to write.\<close>

definition client_input :: "read_answer list \<times> write_answer list \<times> tcp_input \<Rightarrow> bool" where
  "client_input x \<longleftrightarrow> (case x of (rs, ws, Ready t ev) \<Rightarrow> quiet_writes ws \<and> (ev = 1 \<and> all_read rs \<or> ev = 4 \<and> rs = []) | _ \<Rightarrow> False)"

definition client_bytes :: "(read_answer list \<times> write_answer list \<times> tcp_input) list \<Rightarrow> bytes" where
  "client_bytes xs = concat (map (\<lambda>x. arrived (fst x)) xs)"

lemma serving_answers:
  assumes "serving D st p c" "quiet_writes ws"
  shows "serving D st p (c\<lparr>tc_reads := rs, tc_writes := ws\<rparr>)" "accepted (c\<lparr>tc_reads := rs, tc_writes := ws\<rparr>) = accepted c"
  using assms by (simp_all add: serving_def up_def conn_unfold accepted_def)

lemma history_served:
  assumes "serving D st p c" "list_all client_input xs"
    and "decode st (p @ content (tc_inputBuffer c) @ client_bytes xs) = Some (st', evs, rest)" "\<not> closed st'"
  shows "\<exists>c' p'. tcp_history echo_server (echo_onMessage D E) xs c = Inr c' \<and> serving D st' p' c' \<and>
    accepted c' = accepted c @ concat (map (\<lambda>_. echo_frame) evs)"
  using assms
proof (induction xs arbitrary: st p c evs)
  case Nil
  then have "st' = st" "evs = []" by (simp_all add: client_bytes_def serving_def)
  then show ?case using Nil by auto
next
  case (Cons x xs)
  obtain rs ws i where x: "x = (rs, ws, i)" by (cases x)
  obtain t ev where i: "i = Ready t ev" "quiet_writes ws" "ev = 1 \<and> all_read rs \<or> ev = 4 \<and> rs = []"
    using Cons.prems(2) x by (cases i) (auto simp: client_input_def)
  define c1 where "c1 = c\<lparr>tc_reads := rs, tc_writes := ws\<rparr>"
  have c1: "serving D st p c1" "accepted c1 = accepted c" "tc_inputBuffer c1 = tc_inputBuffer c" "tc_reads c1 = rs"
    using serving_answers [OF Cons.prems(1) i(2), of rs] by (simp_all add: c1_def)
  have "open_ok {0} c" using Cons.prems(1) by (simp add: serving_def up_def)
  then have run: "tcp_history echo_server (echo_onMessage D E) (x # xs) c =
      rbind (tcp_input_step echo_server (echo_onMessage D E) (Ready t ev) c1) (tcp_history echo_server (echo_onMessage D E) xs)"
    using open_polls [of "{0}" c] by (simp add: x i(1) c1_def)
  have "decode st ((p @ content (tc_inputBuffer c) @ arrived rs) @ client_bytes xs) = Some (st', evs, rest)"
    using Cons.prems(3) by (simp add: client_bytes_def x)
  then obtain st1 e1 r1 e2 where d: "decode st (p @ content (tc_inputBuffer c) @ arrived rs) = Some (st1, e1, r1)"
      "decode st1 (r1 @ client_bytes xs) = Some (st', e2, rest)" "evs = e1 @ e2"
    using decode_append by blast
  have cl: "\<not> closed st1" using decode_closed [OF d(2)] Cons.prems(4) by blast
  have "\<exists>c2 p2. tcp_input_step echo_server (echo_onMessage D E) (Ready t ev) c1 = Inr c2 \<and> serving D st1 p2 c2 \<and>
      r1 = p2 @ content (tc_inputBuffer c2) \<and> accepted c2 = accepted c @ concat (map (\<lambda>_. echo_frame) e1)"
  proof (cases "ev = 1")
    case True
    then show ?thesis using read_served [OF c1(1), of st1 e1 r1 E t] i(3) d(1) cl c1 by auto
  next
    case False
    then have "ev = 4" "rs = []" using i(3) by auto
    moreover from this d(1) have "st1 = st" "e1 = []" "r1 = p @ content (tc_inputBuffer c)"
      using c1(1,3) by (auto simp: serving_def)
    ultimately show ?thesis using write_served [OF c1(1), of E t] c1(2,3) by auto
  qed
  then obtain c2 p2 where c2: "tcp_input_step echo_server (echo_onMessage D E) (Ready t ev) c1 = Inr c2" "serving D st1 p2 c2"
      "r1 = p2 @ content (tc_inputBuffer c2)" "accepted c2 = accepted c @ concat (map (\<lambda>_. echo_frame) e1)" by blast
  have "list_all client_input xs" using Cons.prems(2) by simp
  from Cons.IH [OF c2(2) this, of e2] d(2,3) c2 Cons.prems(4) show ?case unfolding run by auto
qed


section \<open>The first bytes\<close>

lemma echo_established:
  assumes "connectEstablished echo_server (TcpConnection_ctor fd False et) = Inr c"
  shows "up c" "accepted c = []" "content (tc_inputBuffer c) = []"
    "\<exists>x. tc_wsContext c = Some x \<and> (\<forall>b cs. buffer_inv b \<longrightarrow> fresh_session \<lparr>ctx = x, inbuf = b, calls = cs\<rparr>)"
proof -
  obtain x where x: "Context_create = Inr x" "\<forall>b cs. buffer_inv b \<longrightarrow> fresh_session \<lparr>ctx = x, inbuf = b, calls = cs\<rparr>"
    using Context_create_ok by blast
  define c1 :: ws_connection where "c1 = tc_call (EnableReading et) ((TcpConnection_ctor fd False et)\<lparr>tc_state := WS_Tcp.kConnected,
      tc_channel := (Channel_ctor fd)\<lparr>ch_tied := True\<rparr>\<rparr>)"
  have "connectEstablished echo_server (TcpConnection_ctor fd False et) =
      EchoServer_onConnection (c1\<lparr>tc_trace := [ConnectionCalled WS_Tcp.kConnected]\<rparr>)"
    by (simp add: connectEstablished_def call_connection_def c1_def echo_server_def server_close Let_def TcpConnection_ctor_def)
  also have "\<dots> = Inr (c1\<lparr>tc_trace := [ConnectionCalled WS_Tcp.kConnected], tc_wsContext := Some x\<rparr>)"
    unfolding EchoServer_onConnection_def hook_def x(1) by (simp add: c1_def)
  finally have c: "c = c1\<lparr>tc_trace := [ConnectionCalled WS_Tcp.kConnected], tc_wsContext := Some x\<rparr>" using assms by simp
  have "echo.alive c" using echo.established_alive [of fd et] assms by auto
  moreover have st: "tc_state c = WS_Tcp.kConnected" by (simp add: c c1_def)
  ultimately have o: "open_ok {0} c" "quiet_writes (tc_writes c)" by (auto simp: echo.alive_def shut_ok_def)
  have "isReading (tc_channel c)"
    by (cases et) (simp_all add: c c1_def tc_call_def isReading_def Channel_ctor_def readEvent_def kReadEvent_def kReadEventET_def poll_bits)
  then show "up c" using o st by (simp add: up_def)
  show "accepted c = []" "content (tc_inputBuffer c) = []"
    by (simp_all add: c c1_def accepted_def TcpConnection_ctor_def Buffer_ctor_ok)
  show "\<exists>x. tc_wsContext c = Some x \<and> (\<forall>b cs. buffer_inv b \<longrightarrow> fresh_session \<lparr>ctx = x, inbuf = b, calls = cs\<rparr>)"
    using x(2) by (simp add: c)
qed

lemma idle_serving:
  assumes "up c" "tc_wsContext c = Some (ctx s)" "tc_inputBuffer c = inbuf s" "idle_session s"
  shows "serving D (idle_state s) [] c"
proof -
  have "sim content buffer_inv D (idle_state s) [] s" "content (inbuf s) = []" using idle_sim [OF assms(4)] by blast+
  then show ?thesis using assms by (simp add: serving_def sim_def base_def idle_state_def Let_def)
qed

text \<open>The request, in one piece, is answered and the connection serves.\<close>

lemma request_served:
  assumes c: "up c" "content (tc_inputBuffer c) = []" "tc_wsContext c = Some x"
    and x: "\<forall>b cs. buffer_inv b \<longrightarrow> fresh_session \<lparr>ctx = x, inbuf = b, calls = cs\<rparr>"
    and rs: "all_read (tc_reads c)" "arrived (tc_reads c) = request_bytes m path query v hs"
    and ok: "m \<noteq> kInvalid" "v \<noteq> kUnknown" "uri_ok path query" "list_all header_ok hs" "length (request_bytes m path query v hs) \<le> 1024"
  shows "\<exists>c' s. tcp_input_step echo_server (echo_onMessage D E) (Ready t 1) c = Inr c' \<and> idle_session (s :: (Buffer, HttpContext) session) \<and>
    serving D (idle_state s) [] c' \<and> content (tc_inputBuffer c') = [] \<and> accepted c' = accepted c @ create_websocket_response E (header_of hs)"
proof -
  have step: "tcp_input_step echo_server (echo_onMessage D E) (Ready t 1) c = handleRead echo_server (echo_onMessage D E) t c"
    using pollin_due(2) [of c] c(1) by (simp add: pollin_due(1) up_def rbind_def split: sum.splits)
  have ne: "arrived (tc_reads c) \<noteq> []" using rs(2) request_bytes_length [of m path query v hs] by auto
  have "\<exists>c3. handleRead echo_server (echo_onMessage D E) t c = Inr c3 \<and> up c3 \<and>
      (\<exists>s :: (Buffer, HttpContext) session. idle_session s \<and> serving D (idle_state s) [] c3 \<and> content (tc_inputBuffer c3) = [] \<and>
        accepted c3 = accepted c @ create_websocket_response E (header_of hs))"
  proof (rule handleRead_up [OF c(1) rs(1) ne])
    fix b and c2 :: ws_connection
    assume b: "buffer_inv b" "content b = content (tc_inputBuffer c) @ arrived (tc_reads c)" "up c2" "tc_inputBuffer c2 = b"
      "tc_wsContext c2 = tc_wsContext c" "accepted c2 = accepted c"
    let ?s = "\<lparr>ctx = x, inbuf = b, calls = []\<rparr> :: (Buffer, HttpContext) session"
    have req: "content (inbuf ?s) = request_bytes m path query v hs" using b(2) c(2) rs(2) by simp
    have fresh: "fresh_session ?s" using x b(1) by blast
    have len: "length (content (inbuf ?s)) \<le> 1024" using req ok(5) by simp
    obtain s1 where s1: "parse_message_frame Buffer_vtable HttpContext_vtable D E t (Some ?s) = Inr (0, Some s1)" "idle_session s1"
        "calls s1 = [SendMessage (create_websocket_response E (header_of hs)),
          OnConnectedCallback (client_ip (env_peerIp E) (header_of hs (str ''X-Forwarded-For'')))]"
      using handshake_established [OF fresh req ok(1-4) len, of D E t] by auto
    define c3 where "c3 = c2\<lparr>tc_inputBuffer := inbuf s1, tc_wsContext := Some (ctx s1)\<rparr>"
    have i: "buffer_inv (inbuf s1)" "content (inbuf s1) = []" using s1(2) by (simp_all add: idle_session_def Let_def)
    have c3: "up c3" "accepted c3 = accepted c" using b(3,6) i(1) by (simp_all add: c3_def up_def conn_unfold accepted_def)
    have pl: "list_all plain_call (calls s1)" by (simp add: s1(3) plain_call_def)
    obtain c4 where c4: "echo_calls (calls s1) c3 = Inr c4" "up c4" "tc_wsContext c4 = Some (ctx s1)" "tc_inputBuffer c4 = inbuf s1"
        "accepted c4 = accepted c @ concat (map answer_of (calls s1))"
      using echo_calls_up [OF c3(1) pl, of "ctx s1"] c3(2) by (auto simp: c3_def)
    have "echo_onMessage D E t c2 = Inr c4"
      using b(4,5) c(3) s1(1) c4(1) by (simp add: echo_onMessage_def onMessage_def c3_def)
    then show "\<exists>c3. echo_onMessage D E t c2 = Inr c3 \<and> up c3 \<and>
      (\<exists>s :: (Buffer, HttpContext) session. idle_session s \<and> serving D (idle_state s) [] c3 \<and> content (tc_inputBuffer c3) = [] \<and>
        accepted c3 = accepted c @ create_websocket_response E (header_of hs))"
      using c4 i(2) s1(2,3) idle_serving [OF c4(2-4) s1(2), of D] by auto
  qed
  then show ?thesis using step by auto
qed

text \<open>A whole visit: the request and then a stream of messages.\<close>

lemma visit_served:
  assumes c0: "connectEstablished echo_server (TcpConnection_ctor fd False et) = Inr c0"
    and x: "client_input x" "arrived (fst x) = request_bytes m path query v hs" 
    and ok: "m \<noteq> kInvalid" "v \<noteq> kUnknown" "uri_ok path query" "list_all header_ok hs" "length (request_bytes m path query v hs) \<le> 1024"
    and xs: "list_all client_input xs" "client_bytes xs = stream_bytes ms" "list_all message_ok ms"
  shows "\<exists>c. tcp_history echo_server (echo_onMessage D E) (x # xs) c0 = Inr c \<and> up c \<and>
    accepted c = create_websocket_response E (header_of hs) @ concat (map (\<lambda>_. echo_frame) (stream_events ms))"
proof -
  obtain rs ws i where r: "x = (rs, ws, i)" by (cases x)
  have ne: "arrived rs \<noteq> []" using x(2) request_bytes_length [of m path query v hs] r by auto
  then obtain t where i: "i = Ready t 1" "quiet_writes ws" "all_read rs"
    using x(1) r by (cases i) (auto simp: client_input_def)
  note e = echo_established [OF c0]
  obtain w where w: "tc_wsContext c0 = Some w" "\<forall>b cs. buffer_inv b \<longrightarrow> fresh_session \<lparr>ctx = w, inbuf = b, calls = cs\<rparr>" using e(4) by blast
  define c1 where "c1 = c0\<lparr>tc_reads := rs, tc_writes := ws\<rparr>"
  have c1: "up c1" "content (tc_inputBuffer c1) = []" "tc_wsContext c1 = Some w" "tc_reads c1 = rs" "accepted c1 = []"
    using e w(1) i(2) by (simp_all add: c1_def up_def conn_unfold accepted_def)
  obtain c2 and s :: "(Buffer, HttpContext) session" where c2: "tcp_input_step echo_server (echo_onMessage D E) (Ready t 1) c1 = Inr c2" "idle_session s"
      "serving D (idle_state s) [] c2" "content (tc_inputBuffer c2) = []" "accepted c2 = create_websocket_response E (header_of hs)"
    using request_served [OF c1(1-3) w(2) _ _ ok, of D E t] c1(4,5) i(3) x(2) r by auto
  obtain ty where d: "decode (idle_state s) (stream_bytes ms) = Some ((idle_state s)\<lparr>atype := ty\<rparr>, stream_events ms, [])"
    using decode_stream [OF xs(3), of "idle_state s"] by (auto simp: idle_state_def)
  have "\<not> closed ((idle_state s)\<lparr>atype := ty\<rparr>)" by (simp add: idle_state_def)
  from history_served [OF c2(3) xs(1) _ this, of "stream_events ms" "[]" E] d c2(4,5) xs(2)
  obtain c3 where "tcp_history echo_server (echo_onMessage D E) xs c2 = Inr c3" "up c3"
      "accepted c3 = create_websocket_response E (header_of hs) @ concat (map (\<lambda>_. echo_frame) (stream_events ms))"
    by (auto simp: serving_def)
  moreover have "open_ok {0} c0" using e(1) by (simp add: up_def)
  then have "tcp_history echo_server (echo_onMessage D E) (x # xs) c0 = tcp_history echo_server (echo_onMessage D E) xs c2"
    using open_polls [of "{0}" c0] c2(1) by (simp add: r i(1) flip: c1_def)
  ultimately show ?thesis by auto
qed

end
