(* ===== verification/WS_Sha1.thy ===== *)
theory WS_Sha1
  imports WS_Prelude
begin

text \<open>
  SHA-1: \<^verbatim>\<open>SHA1Init\<close>, \<^verbatim>\<open>SHA1Update\<close>, \<^verbatim>\<open>SHA1Transform\<close> and \<^verbatim>\<open>SHA1Final\<close> of \<^verbatim>\<open>libwebsocket/private/sha1.cc\<close>, on a
  little-endian machine.  The routine keeps the message schedule in sixteen words that it
  overwrites as it goes, permutes the names of its five working variables instead of their values,
  and takes the message in pieces; it is shown equal to the hash of FIPS 180-4 (\<open>sha1\<close>): padded
  message, 80-word schedule, one block after the other.
\<close>

section \<open>The code\<close>

type_synonym word32 = "32 word"

record SHA1_CTX =
  count0 :: word32
  count1 :: word32
  sha_state :: "word32 list"
  sha_buffer :: bytes

definition rol :: "word32 \<Rightarrow> nat \<Rightarrow> word32" where
  "rol value bits = push_bit bits value OR drop_bit (32 - bits) value"

text \<open>A word of the block as the processor loads it, and \<^verbatim>\<open>blk0\<close>, which puts its bytes in order.\<close>

fun load_words :: "bytes \<Rightarrow> word32 list" where
  "load_words (a # b # c # d # xs) =
     (ucast a OR push_bit 8 (ucast b) OR push_bit 16 (ucast c) OR push_bit 24 (ucast d)) # load_words xs"
| "load_words _ = []"

definition blk0 :: "word32 list \<Rightarrow> nat \<Rightarrow> word32 \<times> word32 list" where
  "blk0 l i =
     (let x = (rol (l ! i) 24 AND 0xFF00FF00) OR (rol (l ! i) 8 AND 0x00FF00FF) in (x, l[i := x]))"

definition blk :: "word32 list \<Rightarrow> nat \<Rightarrow> word32 \<times> word32 list" where
  "blk l i =
     (let x = rol (l ! ((i + 13) mod 16) XOR l ! ((i + 8) mod 16) XOR l ! ((i + 2) mod 16) XOR l ! (i mod 16)) 1
      in (x, l[i mod 16 := x]))"

text \<open>
  One round: the macros \<^verbatim>\<open>R0\<close> to \<^verbatim>\<open>R4\<close> on the variables \<^verbatim>\<open>v, w, x, y, z\<close>.  Each adds to \<open>z\<close> and rotates \<open>w\<close>.
\<close>

datatype vars = Vars word32 word32 word32 word32 word32

definition round_fun :: "nat \<Rightarrow> word32 \<Rightarrow> word32 \<Rightarrow> word32 \<Rightarrow> word32" where
  "round_fun i w x y =
     (if i < 20 then (w AND (x XOR y)) XOR y
      else if i < 40 then w XOR x XOR y
      else if i < 60 then ((w OR x) AND y) OR (w AND x)
      else w XOR x XOR y)"

definition round_const :: "nat \<Rightarrow> word32" where
  "round_const i =
     (if i < 20 then 0x5A827999 else if i < 40 then 0x6ED9EBA1 else if i < 60 then 0x8F1BBCDC else 0xCA62C1D6)"

fun R :: "nat \<Rightarrow> vars \<times> word32 list \<Rightarrow> vars \<times> word32 list" where
  "R i (Vars v w x y z, l) =
     (let (b, l') = (if i < 16 then blk0 l i else blk l i) in
      (Vars v (rol w 30) x y (z + (round_fun i w x y + b + round_const i + rol v 5)), l'))"

text \<open>
  The calls are \<^verbatim>\<open>R(a,b,c,d,e,0); R(e,a,b,c,d,1); R(d,e,a,b,c,2); ...\<close>: the names turn by one place from a round
  to the next, and after 80 rounds are back in place.
\<close>

fun turn :: "vars \<Rightarrow> vars" where
  "turn (Vars v w x y z) = Vars z v w x y"

fun rounds :: "nat \<Rightarrow> vars \<times> word32 list \<Rightarrow> vars \<times> word32 list" where
  "rounds 0 s = s"
| "rounds (Suc i) s = (case R i (rounds i s) of (r, l) \<Rightarrow> (turn r, l))"

definition SHA1Transform :: "word32 list \<Rightarrow> bytes \<Rightarrow> word32 list" where
  "SHA1Transform st buffer =
     (case rounds 80 (Vars (st ! 0) (st ! 1) (st ! 2) (st ! 3) (st ! 4), load_words (take 64 buffer)) of
        (Vars a b c d e, l) \<Rightarrow> [st ! 0 + a, st ! 1 + b, st ! 2 + c, st ! 3 + d, st ! 4 + e])"

definition SHA1Init :: "bytes \<Rightarrow> SHA1_CTX" where
  "SHA1Init uninitialised =
     \<lparr>count0 = 0, count1 = 0,
      sha_state = [0x67452301, 0xEFCDAB89, 0x98BADCFE, 0x10325476, 0xC3D2E1F0], sha_buffer = uninitialised\<rparr>"

text \<open>
  The loop over the whole blocks of the data, from index \<open>i\<close>.  The code counts in 32 bits; the
  lengths here are numbers, which is the same below \<open>2 ^ 32 - 64\<close> bytes.
\<close>

function update_blocks :: "word32 list \<Rightarrow> bytes \<Rightarrow> nat \<Rightarrow> word32 list \<times> nat" where
  "update_blocks st data i =
     (if i + 63 < length data then update_blocks (SHA1Transform st (drop i data)) data (i + 64) else (st, i))"
  by pat_completeness auto
termination
  by (relation "measure (\<lambda>(st, data, i). length data - i)") auto

declare update_blocks.simps [simp del]

definition memcpy_at :: "bytes \<Rightarrow> nat \<Rightarrow> bytes \<Rightarrow> bytes" where
  "memcpy_at v i xs = take i v @ xs @ drop (i + length xs) v"

definition SHA1Update :: "SHA1_CTX \<Rightarrow> bytes \<Rightarrow> SHA1_CTX" where
  "SHA1Update context data =
     (let len = of_nat (length data) :: word32;
          j = count0 context;
          c0 = j + push_bit 3 len;
          c1 = (if c0 < j then count1 context + 1 else count1 context) + drop_bit 29 len;
          j = unat (drop_bit 3 j AND 63);
          ctx = context\<lparr>count0 := c0, count1 := c1\<rparr>
      in if j + length data > 63
         then let i = 64 - j;
                  buf = memcpy_at (sha_buffer ctx) j (take i data);
                  (st, i) = update_blocks (SHA1Transform (sha_state ctx) buf) data i
              in ctx\<lparr>sha_state := st, sha_buffer := memcpy_at buf 0 (drop i data)\<rparr>
         else ctx\<lparr>sha_buffer := memcpy_at (sha_buffer ctx) j data\<rparr>)"

definition finalcount :: "SHA1_CTX \<Rightarrow> bytes" where
  "finalcount context =
     map (\<lambda>i. ucast (drop_bit ((3 - i mod 4) * 8) (if i \<ge> 4 then count0 context else count1 context))) [0..<8]"

text \<open>The padding loop of \<^verbatim>\<open>SHA1Final\<close>; at most 64 zero bytes are added, the bound of the recursion.\<close>

fun pad_zeros :: "nat \<Rightarrow> SHA1_CTX \<Rightarrow> SHA1_CTX res" where
  "pad_zeros k context =
     (if count0 context AND 504 \<noteq> 448
      then (case k of 0 \<Rightarrow> Inl OutOfFuel | Suc k' \<Rightarrow> pad_zeros k' (SHA1Update context [0]))
      else Inr context)"

declare pad_zeros.simps [simp del]

definition digest_bytes :: "word32 list \<Rightarrow> bytes" where
  "digest_bytes st = map (\<lambda>i. ucast (drop_bit ((3 - i mod 4) * 8) (st ! (i div 4)))) [0..<20]"

text \<open>The digest, and the context that \<^verbatim>\<open>memset\<close> leaves.\<close>

definition SHA1Final :: "SHA1_CTX \<Rightarrow> (bytes \<times> SHA1_CTX) res" where
  "SHA1Final context =
     rbind (pad_zeros 64 (SHA1Update context [0x80])) (\<lambda>context'.
     Inr (digest_bytes (sha_state (SHA1Update context' (finalcount context))),
          \<lparr>count0 = 0, count1 = 0, sha_state = replicate 5 0, sha_buffer = replicate 64 0\<rparr>))"


section \<open>FIPS 180-4\<close>

fun be_words :: "bytes \<Rightarrow> word32 list" where
  "be_words (a # b # c # d # xs) =
     (push_bit 24 (ucast a) OR push_bit 16 (ucast b) OR push_bit 8 (ucast c) OR ucast d) # be_words xs"
| "be_words _ = []"

fun schedule :: "word32 list \<Rightarrow> nat \<Rightarrow> word32" where
  "schedule M t =
     (if t < 16 then M ! t
      else rol (schedule M (t - 3) XOR schedule M (t - 8) XOR schedule M (t - 14) XOR schedule M (t - 16)) 1)"

declare schedule.simps [simp del]

definition Ch :: "word32 \<Rightarrow> word32 \<Rightarrow> word32 \<Rightarrow> word32" where
  "Ch x y z = (x AND y) XOR (NOT x AND z)"

definition Parity :: "word32 \<Rightarrow> word32 \<Rightarrow> word32 \<Rightarrow> word32" where
  "Parity x y z = x XOR y XOR z"

definition Maj :: "word32 \<Rightarrow> word32 \<Rightarrow> word32 \<Rightarrow> word32" where
  "Maj x y z = (x AND y) XOR (x AND z) XOR (y AND z)"

definition fips_f :: "nat \<Rightarrow> word32 \<Rightarrow> word32 \<Rightarrow> word32 \<Rightarrow> word32" where
  "fips_f t = (if t < 20 then Ch else if t < 40 then Parity else if t < 60 then Maj else Parity)"

fun fips_rounds :: "word32 list \<Rightarrow> nat \<Rightarrow> vars \<Rightarrow> vars" where
  "fips_rounds M 0 s = s"
| "fips_rounds M (Suc t) s =
     (case fips_rounds M t s of Vars a b c d e \<Rightarrow>
        Vars (rol a 5 + fips_f t b c d + e + round_const t + schedule M t) a (rol b 30) c d)"

definition compress :: "word32 list \<Rightarrow> bytes \<Rightarrow> word32 list" where
  "compress H block =
     (case fips_rounds (be_words block) 80 (Vars (H ! 0) (H ! 1) (H ! 2) (H ! 3) (H ! 4)) of
        Vars a b c d e \<Rightarrow> [a + H ! 0, b + H ! 1, c + H ! 2, d + H ! 3, e + H ! 4])"

function compress_all :: "word32 list \<Rightarrow> bytes \<Rightarrow> word32 list" where
  "compress_all H xs = (if length xs < 64 then H else compress_all (compress H (take 64 xs)) (drop 64 xs))"
  by pat_completeness auto
termination
  by (relation "measure (\<lambda>(H, xs). length xs)") auto

declare compress_all.simps [simp del]

definition be64_bytes :: "nat \<Rightarrow> bytes" where
  "be64_bytes n = map (\<lambda>i. of_nat (n div 256 ^ (7 - i))) [0..<8]"

definition pad :: "bytes \<Rightarrow> bytes" where
  "pad m = m @ [0x80] @ replicate ((119 - length m mod 64) mod 64) 0 @ be64_bytes (8 * length m)"

definition IV :: "word32 list" where
  "IV = [0x67452301, 0xEFCDAB89, 0x98BADCFE, 0x10325476, 0xC3D2E1F0]"

definition sha1 :: "bytes \<Rightarrow> bytes" where
  "sha1 m = digest_bytes (compress_all IV (pad m))"

section \<open>One block\<close>

lemma round_fun_fips: "round_fun t b c d = fips_f t b c d"
proof -
  have "(b AND (c XOR d)) XOR d = Ch b c d"
    by (rule bit_word_eqI) (auto simp: Ch_def bit_simps)
  moreover have "((b OR c) AND d) OR (b AND c) = Maj b c d"
    by (rule bit_word_eqI) (auto simp: Maj_def bit_simps)
  ultimately show ?thesis by (simp add: round_fun_def fips_f_def Parity_def)
qed

lemma bit_byte_beyond: "8 \<le> n \<Longrightarrow> \<not> bit (a :: 8 word) n"
  using bit_imp_le_length [of a n] by auto

lemma upto_32: "[0..<32] = [0, 1, 2, 3, 4, 5, 6, 7, 8, 9, 10, 11, 12, 13, 14, 15, 16,
    17, 18, 19, 20, 21, 22, 23, 24, 25, 26, 27, 28, 29, 30, 31 :: nat]"
  by (simp add: upt_rec)

lemma swap_bytes:
  fixes a b c d :: byte
  assumes "x = ucast a OR push_bit 8 (ucast b) OR push_bit 16 (ucast c) OR push_bit 24 (ucast d)"
  shows "(rol x 24 AND 0xFF00FF00) OR (rol x 8 AND 0x00FF00FF) =
    push_bit 24 (ucast a) OR push_bit 16 (ucast b) OR push_bit 8 (ucast c) OR ucast d"
proof (rule bit_word_eqI)
  fix n assume "n < LENGTH(32)"
  then have n: "n \<in> set [0..<32]" by simp
  have "list_all (\<lambda>n. bit ((rol x 24 AND 0xFF00FF00) OR (rol x 8 AND 0x00FF00FF)) n =
      bit (push_bit 24 (ucast a) OR push_bit 16 (ucast b) OR push_bit 8 (ucast c) OR ucast d :: word32) n) [0..<32]"
    unfolding assms rol_def upto_32
    by (simp add: bit_simps bit_byte_beyond)
  then show "bit ((rol x 24 AND 0xFF00FF00) OR (rol x 8 AND 0x00FF00FF)) n =
      bit (push_bit 24 (ucast a) OR push_bit 16 (ucast b) OR push_bit 8 (ucast c) OR ucast d :: word32) n"
    unfolding list_all_iff using n by blast
qed

lemma words_induct [case_names nil four]:
  assumes "\<And>xs. length xs < 4 \<Longrightarrow> P xs"
    and "\<And>a b c d xs. P xs \<Longrightarrow> P (a # b # c # d # xs)"
  shows "P (xs :: bytes)"
proof (induction xs rule: length_induct)
  case (1 xs)
  show ?case
  proof (cases "length xs < 4")
    case False
    then have "Suc (Suc (Suc (Suc 0))) \<le> length xs" by simp
    then obtain a b c d ys where "xs = a # b # c # d # ys"
      by (auto simp: Suc_le_length_iff)
    with 1 assms(2) show ?thesis by simp
  qed (rule assms(1))
qed

lemma load_words_short: "length xs < 4 \<Longrightarrow> load_words xs = [] \<and> be_words xs = []"
  by (cases xs rule: load_words.cases) auto

lemma length_load_words [simp]: "length (load_words xs) = length xs div 4"
  by (induction xs rule: words_induct) (simp_all add: load_words_short)

lemma length_be_words [simp]: "length (be_words xs) = length xs div 4"
  by (induction xs rule: words_induct) (simp_all add: load_words_short)

lemma blk0_big_endian:
  "i < length xs div 4 \<Longrightarrow>
     (rol (load_words xs ! i) 24 AND 0xFF00FF00) OR (rol (load_words xs ! i) 8 AND 0x00FF00FF) = be_words xs ! i"
proof (induction xs arbitrary: i rule: words_induct)
  case (four a b c d xs)
  then show ?case by (cases i) (simp_all add: swap_bytes)
qed simp

text \<open>
  The sixteen words after \<open>t\<close> rounds: the last sixteen words of the schedule, each at its index
  modulo 16, and in front of the first turn the words not yet reached.
\<close>

definition window :: "bytes \<Rightarrow> nat \<Rightarrow> word32 list \<Rightarrow> bool" where
  "window B t l \<longleftrightarrow> length l = 16 \<and>
     (\<forall>j. j < t \<and> t \<le> j + 16 \<longrightarrow> l ! (j mod 16) = schedule (be_words B) j) \<and>
     (\<forall>j. t \<le> j \<and> j < 16 \<longrightarrow> l ! j = load_words B ! j)"

lemma schedule_16: "schedule M (t + 16) =
    rol (schedule M (t + 13) XOR schedule M (t + 8) XOR schedule M (t + 2) XOR schedule M t) 1"
  by (subst schedule.simps) (simp add: numeral_eq_Suc)

lemma window_step:
  assumes "window B t l" "length B = 64"
  obtains l' where "(if t < 16 then blk0 l t else blk l t) = (schedule (be_words B) t, l')" "window B (Suc t) l'"
proof (cases "t < 16")
  case True
  then have "blk0 l t = (schedule (be_words B) t, l[t := schedule (be_words B) t])"
    using assms blk0_big_endian [of t B]
    by (simp add: blk0_def Let_def window_def schedule.simps [of _ t])
  moreover have "window B (Suc t) (l[t := schedule (be_words B) t])"
    using assms True by (auto simp: window_def nth_list_update less_Suc_eq)
  ultimately show thesis using True by (intro that) auto
next
  case False
  then obtain u where u: "t = u + 16" by (metis add.commute le_Suc_ex not_less)
  have old: "l ! ((t + k) mod 16) = schedule (be_words B) (u + k)" if "k < 16" for k
  proof -
    have "(t + k) mod 16 = (u + k) mod 16" unfolding u by (metis add.assoc add.commute mod_add_self2)
    then show ?thesis using assms(1) that by (auto simp: window_def u)
  qed
  have "blk l t = (schedule (be_words B) t, l[t mod 16 := schedule (be_words B) t])"
    using old [of 13] old [of 8] old [of 2] old [of 0]
    unfolding blk_def Let_def u [THEN arg_cong, of "schedule (be_words B)"] schedule_16 by simp
  moreover have "window B (Suc t) (l[t mod 16 := schedule (be_words B) t])"
    unfolding window_def
  proof (intro conjI allI impI)
    fix j assume j: "j < Suc t \<and> Suc t \<le> j + 16"
    show "l[t mod 16 := schedule (be_words B) t] ! (j mod 16) = schedule (be_words B) j"
    proof (cases "j = t")
      case False
      with j have "\<not> 16 dvd t - j" by (intro nat_dvd_not_less) auto
      with j have "j mod 16 \<noteq> t mod 16" by (metis less_Suc_eq_le mod_eq_dvd_iff_nat)
      with j False assms(1) show ?thesis by (auto simp: window_def)
    qed (use assms in \<open>simp add: window_def\<close>)
  qed (use assms False in \<open>auto simp: window_def\<close>)
  ultimately show thesis using False by (intro that) auto
qed

lemma rounds_fips:
  assumes "length B = 64"
  shows "\<exists>l. rounds t (s, load_words B) = (fips_rounds (be_words B) t s, l) \<and> window B t l"
proof (induction t)
  case 0
  then show ?case using assms by (simp add: window_def)
next
  case (Suc t)
  then obtain l where l: "rounds t (s, load_words B) = (fips_rounds (be_words B) t s, l)" "window B t l" by auto
  obtain a b c d e where v: "fips_rounds (be_words B) t s = Vars a b c d e" by (cases "fips_rounds (be_words B) t s")
  obtain l' where l': "(if t < 16 then blk0 l t else blk l t) = (schedule (be_words B) t, l')" "window B (Suc t) l'"
    using window_step [OF l(2) assms] .
  show ?case using l' by (simp add: l v round_fun_fips ac_simps del: if_split_asm split del: if_split)
qed

theorem SHA1Transform_compress:
  "64 \<le> length B \<Longrightarrow> SHA1Transform st B = compress st (take 64 B)"
  using rounds_fips [of "take 64 B" 80 "Vars (st ! 0) (st ! 1) (st ! 2) (st ! 3) (st ! 4)"]
  by (auto simp: SHA1Transform_def compress_def add.commute split: vars.splits)

section \<open>The message in pieces\<close>

lemma compress_all_append:
  "64 dvd length xs \<Longrightarrow> compress_all H (xs @ ys) = compress_all (compress_all H xs) ys"
proof (induction H xs rule: compress_all.induct)
  case (1 H xs)
  show ?case
  proof (cases "length xs < 64")
    case True
    with "1.prems" have "xs = []" by (auto dest: dvd_imp_le)
    then show ?thesis by (simp add: compress_all.simps [of _ "[]"])
  next
    case False
    with "1.prems" have "64 dvd length (drop 64 xs)" by simp
    with False "1.IH" show ?thesis by (simp add: compress_all.simps [of _ "xs @ ys"] compress_all.simps [of _ xs])
  qed
qed

lemma compress_all_short: "length xs < 64 \<Longrightarrow> compress_all H xs = H"
  by (simp add: compress_all.simps)

lemma compress_all_block: "length xs = 64 \<Longrightarrow> compress_all H xs = compress H xs"
  by (simp add: compress_all.simps [of _ xs] compress_all_short)

lemma update_blocks_compress:
  "i \<le> length data \<Longrightarrow> \<exists>whole rest. drop i data = whole @ rest \<and> 64 dvd length whole \<and> length rest < 64 \<and>
     update_blocks st data i = (compress_all st whole, length data - length rest)"
proof (induction st data i rule: update_blocks.induct)
  case (1 st data i)
  show ?case
  proof (cases "i + 63 < length data")
    case True
    with "1.IH" obtain whole rest where w: "drop (i + 64) data = whole @ rest" "64 dvd length whole" "length rest < 64"
      "update_blocks (SHA1Transform st (drop i data)) data (i + 64) =
         (compress_all (SHA1Transform st (drop i data)) whole, length data - length rest)"
      by auto
    have "drop i data = take 64 (drop i data) @ whole @ rest"
      using w(1) append_take_drop_id [of 64 "drop i data"] by (simp add: add.commute)
    moreover have "compress_all st (take 64 (drop i data) @ whole) = compress_all (SHA1Transform st (drop i data)) whole"
      using True by (simp add: compress_all_append compress_all_block SHA1Transform_compress)
    ultimately show ?thesis
      using True w by (intro exI [of _ "take 64 (drop i data) @ whole"] exI [of _ rest])
        (simp add: update_blocks.simps [of st])
  next
    case False
    with "1.prems" show ?thesis
      by (intro exI [of _ "[]"] exI [of _ "drop i data"])
        (simp add: update_blocks.simps [of st] compress_all_short)
  qed
qed

text \<open>
  What the context holds once the bytes \<open>m\<close> have gone in: their number in bits in 64 bits, the
  hash of the whole blocks, and the rest at the front of the buffer.
\<close>

definition absorbed :: "bytes \<Rightarrow> SHA1_CTX \<Rightarrow> bool" where
  "absorbed m ctx \<longleftrightarrow>
     count0 ctx = of_nat (8 * length m) \<and> count1 ctx = of_nat (8 * length m div 2 ^ 32) \<and>
     length (sha_buffer ctx) = 64 \<and>
     (\<exists>whole rest. m = whole @ rest \<and> 64 dvd length whole \<and> length rest < 64 \<and>
        sha_state ctx = compress_all IV whole \<and> take (length rest) (sha_buffer ctx) = rest)"

lemma absorbed_Init: "length buf = 64 \<Longrightarrow> absorbed [] (SHA1Init buf)"
  by (simp add: absorbed_def SHA1Init_def IV_def compress_all_short)

lemma absorbed_state: "absorbed m ctx \<Longrightarrow> sha_state ctx = compress_all IV m"
  by (auto simp: absorbed_def compress_all_append compress_all_short)

lemma div_add_carry:
  fixes A B N :: nat
  assumes "0 < N"
  shows "(A + B) div N = A div N + B div N + (if (A + B) mod N < A mod N then 1 else 0)"
proof -
  define x y where "x = A mod N" and "y = B mod N"
  have lt: "x < N" "y < N" using assms by (simp_all add: x_def y_def)
  have m: "(A + B) mod N = (x + y) mod N" unfolding x_def y_def by (rule mod_add_eq [symmetric])
  have d: "(A + B) div N = A div N + B div N + (x + y) div N" unfolding x_def y_def by (rule div_add1_eq)
  show ?thesis
  proof (cases "x + y < N")
    case False
    with lt have "(x + y) mod N = x + y - N" "(x + y) div N = 1"
      by (simp_all add: le_mod_geq le_div_geq)
    with lt False show ?thesis by (simp add: d m flip: x_def)
  qed (simp add: d m flip: x_def)
qed

lemma absorbed_counts:
  assumes "length data < 2 ^ 32" "c0 = of_nat (8 * length m)" "c1 = of_nat (8 * length m div 2 ^ 32)"
  shows "c0 + push_bit 3 (of_nat (length data)) = (of_nat (8 * length (m @ data)) :: word32)"
    and "(if c0 + push_bit 3 (of_nat (length data)) < c0 then c1 + 1 else c1) + drop_bit 29 (of_nat (length data)) =
      (of_nat (8 * length (m @ data) div 2 ^ 32) :: word32)"
proof -
  show s: "c0 + push_bit 3 (of_nat (length data)) = (of_nat (8 * length (m @ data)) :: word32)"
    by (simp add: assms push_bit_eq_mult)
  have carry: "c0 + push_bit 3 (of_nat (length data)) < c0 \<longleftrightarrow>
      (8 * length m + 8 * length data) mod 2 ^ 32 < 8 * length m mod 2 ^ 32"
    unfolding s by (simp add: assms(2) word_less_nat_alt unat_of_nat distrib_left del: of_nat_mult of_nat_add)
  have "drop_bit 29 (of_nat (length data)) = (of_nat (8 * length data div 2 ^ 32) :: word32)"
  proof (rule word_unat_eq_iff [THEN iffD2])
    have "length data div 2 ^ 29 = 8 * length data div 2 ^ 32"
      using div_mult_mult1 [of 8 "length data" "2 ^ 29"] by simp
    then show "unat (drop_bit 29 (of_nat (length data) :: word32)) = unat (of_nat (8 * length data div 2 ^ 32) :: word32)"
      using assms(1) unfolding unat_drop_bit_eq by (simp add: drop_bit_eq_div unat_of_nat del: of_nat_mult)
  qed
  then show "(if c0 + push_bit 3 (of_nat (length data)) < c0 then c1 + 1 else c1) + drop_bit 29 (of_nat (length data)) =
      (of_nat (8 * length (m @ data) div 2 ^ 32) :: word32)"
    unfolding carry using div_add_carry [of "2 ^ 32" "8 * length m" "8 * length data"]
    by (simp add: assms(3) distrib_left del: of_nat_mult)
qed

lemma buffer_fill: "unat (drop_bit 3 (of_nat (8 * n) :: word32) AND 63) = n mod 64"
proof -
  have "8 * n mod 2 ^ 32 div 8 = n mod 2 ^ 29"
    using mult_mod_right [of 8 n "2 ^ 29"] by simp
  then have "unat (drop_bit 3 (of_nat (8 * n) :: word32)) = n mod 2 ^ 29"
    unfolding unat_drop_bit_eq by (simp add: drop_bit_eq_div unat_of_nat del: of_nat_mult)
  then have "unat (take_bit 6 (drop_bit 3 (of_nat (8 * n) :: word32))) = n mod 2 ^ 29 mod 64"
    unfolding unsigned_take_bit_eq by (simp add: take_bit_eq_mod)
  moreover have "n mod 2 ^ 29 mod 64 = n mod 64"
    by (rule mod_mod_cancel) simp
  ultimately show ?thesis by (simp add: take_bit_eq_mask mask_eq_exp_minus_1 del: of_nat_mult)
qed

lemma absorbed_Update:
  assumes "absorbed m ctx" "length data < 2 ^ 32"
  shows "absorbed (m @ data) (SHA1Update ctx data)"
proof -
  obtain whole rest where w: "m = whole @ rest" "64 dvd length whole" "length rest < 64"
      "sha_state ctx = compress_all IV whole" "take (length rest) (sha_buffer ctx) = rest"
    and buf: "length (sha_buffer ctx) = 64"
    and counts: "count0 ctx = of_nat (8 * length m)" "count1 ctx = of_nat (8 * length m div 2 ^ 32)"
    using assms(1) unfolding absorbed_def by blast
  note counts' = absorbed_counts [OF assms(2) counts]
  have "length m mod 64 = length rest" using w(1-3) by (auto elim!: dvdE)
  then have j: "unat (drop_bit 3 (count0 ctx) AND 63) = length rest" unfolding counts(1) buffer_fill .
  show ?thesis
  proof (cases "length rest + length data > 63")
    case False
    then have u: "SHA1Update ctx data = ctx\<lparr>count0 := of_nat (8 * length (m @ data)),
        count1 := of_nat (8 * length (m @ data) div 2 ^ 32),
        sha_buffer := memcpy_at (sha_buffer ctx) (length rest) data\<rparr>"
      unfolding SHA1Update_def Let_def j unfolding counts'(2) unfolding counts'(1) by simp
    show ?thesis unfolding absorbed_def u
      using w buf False by (intro conjI exI [of _ whole] exI [of _ "rest @ data"]) (simp_all add: memcpy_at_def)
  next
    case True
    define i where "i = 64 - length rest"
    have i: "i \<le> length data" using True by (simp add: i_def)
    have block: "memcpy_at (sha_buffer ctx) (length rest) (take i data) = rest @ take i data"
      using w(3,5) buf i by (simp add: memcpy_at_def i_def)
    define block where "block = rest @ take i data"
    have len: "length block = 64" using i w(3) by (simp add: block_def i_def)
    obtain whole' rest' where w': "drop i data = whole' @ rest'" "64 dvd length whole'" "length rest' < 64"
      "update_blocks (SHA1Transform (sha_state ctx) block) data i =
         (compress_all (SHA1Transform (sha_state ctx) block) whole', length data - length rest')"
      using update_blocks_compress [OF i] by blast
    have "length data = i + length whole' + length rest'"
      using arg_cong [OF w'(1), of length] i by simp
    then have d: "drop (length data - length rest') data = rest'"
      using arg_cong [OF w'(1), of "drop (length whole')"] by (simp add: add.commute)
    have u: "SHA1Update ctx data = ctx\<lparr>count0 := of_nat (8 * length (m @ data)),
        count1 := of_nat (8 * length (m @ data) div 2 ^ 32),
        sha_state := compress_all (SHA1Transform (sha_state ctx) block) whole',
        sha_buffer := memcpy_at block 0 rest'\<rparr>"
      using True w'(4) d unfolding SHA1Update_def Let_def j block_def unfolding counts'(2) unfolding counts'(1)
      by (simp add: block flip: i_def)
    have m: "m @ data = (whole @ block @ whole') @ rest'"
      using w(1) w'(1) append_take_drop_id [of i data] by (simp add: block_def)
    have st: "compress_all (SHA1Transform (sha_state ctx) block) whole' = compress_all IV (whole @ block @ whole')"
      using w(2,4) len by (simp add: compress_all_append compress_all_block SHA1Transform_compress)
    show ?thesis unfolding absorbed_def u
      using w(2) w'(2,3) len m st
      by (intro conjI exI [of _ "whole @ block @ whole'"] exI [of _ rest']) (simp_all add: memcpy_at_def)
  qed
qed

lemma absorbed_pieces:
  assumes "absorbed m ctx" "\<forall>p \<in> set pieces. length p < 2 ^ 32"
  shows "absorbed (m @ concat pieces) (foldl SHA1Update ctx pieces)"
  using assms
proof (induction pieces arbitrary: m ctx)
  case (Cons p pieces)
  from Cons.IH [OF absorbed_Update [OF Cons.prems(1)], of p] Cons.prems(2) show ?case by simp
qed simp

section \<open>The padding\<close>

lemma pad_test: "of_nat (8 * n) AND (504 :: word32) \<noteq> 448 \<longleftrightarrow> n mod 64 \<noteq> 56"
proof -
  have "of_nat (8 * n) AND (504 :: word32) = push_bit 3 (drop_bit 3 (of_nat (8 * n)) AND 63)"
  proof (rule bit_word_eqI)
    fix k
    have "bit (504 :: word32) k \<Longrightarrow> 3 \<le> k"
      using bit_push_bit_iff [of 3 "63 :: word32" k] by simp
    then show "bit (of_nat (8 * n) AND (504 :: word32)) k =
        bit (push_bit 3 (drop_bit 3 (of_nat (8 * n)) AND 63) :: word32) k"
      using bit_push_bit_iff [of 3 "63 :: word32" k] by (auto simp: bit_simps)
  qed
  also have "drop_bit 3 (of_nat (8 * n)) AND (63 :: word32) = of_nat (n mod 64)"
    unfolding word_unat_eq_iff buffer_fill by (simp add: unat_of_nat)
  also have "push_bit 3 (of_nat (n mod 64)) = (of_nat (8 * (n mod 64)) :: word32)"
    by (simp add: push_bit_eq_mult)
  also have "\<dots> = 448 \<longleftrightarrow> 8 * (n mod 64) = 448"
    unfolding word_unat_eq_iff by (simp add: unat_of_nat del: of_nat_mult of_nat_mod)
  finally show ?thesis by simp
qed

lemma zeros_needed:
  fixes r :: nat
  assumes "r < 64"
  shows "(120 - r) mod 64 = (if r \<le> 56 then 56 - r else 120 - r)"
proof (cases "r \<le> 56")
  case True
  then have "120 - r = (56 - r) + 64" by simp
  then have "(120 - r) mod 64 = (56 - r) mod 64" by (metis mod_add_self2)
  with True show ?thesis by simp
qed (use assms in simp)

lemma pad_zeros_absorbed:
  "absorbed m ctx \<Longrightarrow> (120 - length m mod 64) mod 64 \<le> k \<Longrightarrow>
     \<exists>ctx'. pad_zeros k ctx = Inr ctx' \<and> absorbed (m @ replicate ((120 - length m mod 64) mod 64) 0) ctx'"
proof (induction k arbitrary: m ctx)
  case k: 0
  show ?case
  proof (cases "length m mod 64 = 56")
    case True
    with k.prems(1) pad_test [of "length m"] show ?thesis by (simp add: pad_zeros.simps absorbed_def)
  next
    case False
    have "length m mod 64 < 64" by simp
    with False k.prems(2) show ?thesis by (simp add: zeros_needed split: if_splits)
  qed
next
  case (Suc k)
  show ?case
  proof (cases "length m mod 64 = 56")
    case True
    with Suc.prems(1) pad_test [of "length m"] show ?thesis by (simp add: pad_zeros.simps absorbed_def)
  next
    case False
    define z where "z = (120 - length m mod 64) mod 64"
    define z' where "z' = (120 - length (m @ [0 :: 8 word]) mod 64) mod 64"
    define r where "r = length m mod 64"
    define r' where "r' = length (m @ [0 :: 8 word]) mod 64"
    have "r < 64" "r' < 64" unfolding r_def r'_def by (rule mod_less_divisor, simp)+
    moreover have "r \<noteq> 56" "r' = (if r = 63 then 0 else Suc r)"
      using False by (simp_all add: r_def r'_def mod_Suc)
    ultimately have "z = Suc z'"
      using zeros_needed [of r] zeros_needed [of r'] unfolding z_def z'_def r_def [symmetric] r'_def [symmetric]
      by (simp split: if_splits)
    have "absorbed (m @ [0]) (SHA1Update ctx [0])" using absorbed_Update [OF Suc.prems(1), of "[0]"] by simp
    moreover have "z' \<le> k" using Suc.prems(2) \<open>z = Suc z'\<close> by (simp flip: z_def)
    ultimately obtain ctx' where "pad_zeros k (SHA1Update ctx [0]) = Inr ctx'" "absorbed ((m @ [0]) @ replicate z' 0) ctx'"
      using Suc.IH unfolding z'_def by blast
    moreover have "pad_zeros (Suc k) ctx = pad_zeros k (SHA1Update ctx [0])"
      using Suc.prems(1) pad_test [of "length m"] False by (subst pad_zeros.simps) (simp add: absorbed_def)
    ultimately show ?thesis unfolding z_def [symmetric] \<open>z = Suc z'\<close> by simp
  qed
qed

lemma finalcount_be64: "absorbed m ctx \<Longrightarrow> finalcount ctx = be64_bytes (8 * length m)"
proof -
  have *: "ucast (drop_bit ((3 - i mod 4) * 8) (if i \<ge> 4 then of_nat n else of_nat (n div 2 ^ 32) :: word32)) =
      (of_nat (n div 256 ^ (7 - i)) :: 8 word)" if "i \<in> set [0..<8]" for i n
  proof (rule bit_word_eqI)
    fix k assume k: "k < LENGTH(8)"
    have "(256 :: nat) ^ (7 - i) = 2 ^ (8 * (7 - i))" by (simp add: power_mult)
    then have d: "n div 256 ^ (7 - i) = drop_bit (8 * (7 - i)) n" by (simp add: drop_bit_eq_div)
    have d32: "n div 2 ^ 32 = drop_bit 32 n" by (simp add: drop_bit_eq_div)
    have "i = 0 \<or> i = 1 \<or> i = 2 \<or> i = 3 \<or> i = 4 \<or> i = 5 \<or> i = 6 \<or> i = 7" using that by auto
    then show "bit (ucast (drop_bit ((3 - i mod 4) * 8) (if i \<ge> 4 then of_nat n else of_nat (n div 2 ^ 32) :: word32)) :: 8 word) k =
        bit (of_nat (n div 256 ^ (7 - i)) :: 8 word) k"
      unfolding d d32 using k by (elim disjE) (simp_all add: bit_simps add.commute)
  qed
  assume "absorbed m ctx"
  then have c: "count0 ctx = of_nat (8 * length m)" "count1 ctx = of_nat (8 * length m div 2 ^ 32)"
    unfolding absorbed_def by blast+
  show ?thesis unfolding finalcount_def be64_bytes_def c by (rule map_cong [OF refl *])
qed

text \<open>
  C23: the hash of a message handed over in any pieces is the hash of FIPS 180-4 of the message:
  neither the boundaries of the pieces nor what the uninitialised buffer held at the start matter,
  and the padding loop ends.
\<close>

theorem sha1_streaming:
  assumes "length buf = 64" "\<forall>p \<in> set pieces. length p < 2 ^ 32 - 64"
  shows "rmap fst (SHA1Final (foldl SHA1Update (SHA1Init buf) pieces)) = Inr (sha1 (concat pieces))"
proof -
  define m where "m = concat pieces"
  define ctx where "ctx = foldl SHA1Update (SHA1Init buf) pieces"
  have "\<forall>p \<in> set pieces. length p < 2 ^ 32" using assms(2) by fastforce
  then have a: "absorbed m ctx"
    using absorbed_pieces [OF absorbed_Init [OF assms(1)], of pieces] by (simp add: m_def ctx_def)
  then have a1: "absorbed (m @ [0x80]) (SHA1Update ctx [0x80])" by (rule absorbed_Update) simp
  define z where "z = (120 - length (m @ [0x80 :: 8 word]) mod 64) mod 64"
  have "z = (119 - length m mod 64) mod 64" unfolding z_def by (simp add: mod_Suc)
  moreover obtain ctx' where c: "pad_zeros 64 (SHA1Update ctx [0x80]) = Inr ctx'"
      "absorbed ((m @ [0x80]) @ replicate z 0) ctx'"
    using pad_zeros_absorbed [OF a1, of 64] unfolding z_def by (auto simp: less_imp_le)
  ultimately have "(((m @ [0x80]) @ replicate z 0) @ finalcount ctx) = pad m"
    by (simp add: pad_def finalcount_be64 [OF a])
  moreover have "absorbed (((m @ [0x80]) @ replicate z 0) @ finalcount ctx) (SHA1Update ctx' (finalcount ctx))"
    by (rule absorbed_Update [OF c(2)]) (simp add: finalcount_def)
  ultimately have "sha_state (SHA1Update ctx' (finalcount ctx)) = compress_all IV (pad m)"
    using absorbed_state by metis
  then show ?thesis by (simp add: SHA1Final_def c(1) sha1_def flip: ctx_def m_def)
qed

theorem sha1_streaming_witness:
  "rmap fst (SHA1Final (foldl SHA1Update (SHA1Init (replicate 64 0xAA)) [[0x61, 0x62], [], [0x63]])) =
     Inr (sha1 [0x61, 0x62, 0x63])"
  using sha1_streaming [of "replicate 64 0xAA" "[[0x61, 0x62], [], [0x63]]"] by simp

end
