(* ===== verification/WS_Timer.thy ===== *)
theory WS_Timer
  imports WS_Prelude "HOL-Library.Product_Lexorder"
begin

text \<open>
  Timers: \<^verbatim>\<open>Timestamp.h\<close>, \<^verbatim>\<open>Timer.h\<close>, \<^verbatim>\<open>Timer.cc\<close> and \<^verbatim>\<open>TimerQueue.cc\<close>.  The queue keeps its timers twice, ordered by expiration
  and by address, frees them by hand, and lets the callbacks of expired timers add and cancel timers while it
  holds the expired ones aside.  Shown: no assertion fails and no freed timer is used, whatever the callbacks do; an alarm
  runs exactly the timers that are due, in order; and the timer descriptor is always armed early enough.

  Timers are reached by address: \<open>tq_heap\<close> maps the address of a live timer to its fields.  \<open>alloc\<close> is operator \<^verbatim>\<open>new\<close>, of
  which only is used that it returns an address not in use.  Instants are microseconds.
\<close>

section \<open>The code\<close>

definition kMicroSecondsPerSecond :: int where
  "kMicroSecondsPerSecond = 1000 * 1000"

definition Timestamp_valid :: "timestamp \<Rightarrow> bool" where
  "Timestamp_valid t \<longleftrightarrow> t > 0"

definition Timestamp_invalid :: timestamp where
  "Timestamp_invalid = 0"

text \<open>\<open>delta\<close> is the interval in microseconds, \<^verbatim>\<open>static_cast<int64_t>(seconds * 1000000)\<close>.\<close>

definition addTime :: "timestamp \<Rightarrow> int \<Rightarrow> timestamp" where
  "addTime t delta = t + delta"

record Timer =
  t_expiration :: timestamp
  t_delta :: int
  t_repeat :: bool
  t_sequence :: int

definition restart :: "timestamp \<Rightarrow> Timer \<Rightarrow> Timer" where
  "restart now t = t\<lparr>t_expiration := if t_repeat t then addTime now (t_delta t) else Timestamp_invalid\<rparr>"

text \<open>
  \<open>tq_armed\<close> is the instant at which the timer descriptor becomes readable, \<open>tq_set\<close> the instant of the last
  \<^verbatim>\<open>timerfd_settime\<close>, \<open>tq_now\<close> the clock, \<open>tq_ran\<close> the sequence numbers of the timers whose callbacks have run.
\<close>

record TimerQueue =
  tq_heap :: "nat \<Rightarrow> Timer option"
  tq_timers :: "(timestamp \<times> nat) list"
  tq_active :: "(nat \<times> int) list"
  tq_calling :: bool
  tq_canceling :: "(nat \<times> int) list"
  tq_created :: int
  tq_armed :: "timestamp option"
  tq_set :: timestamp
  tq_now :: timestamp
  tq_ran :: "int list"

definition TimerQueue_ctor :: "timestamp \<Rightarrow> TimerQueue" where
  "TimerQueue_ctor now = \<lparr>tq_heap = (\<lambda>a. None), tq_timers = [], tq_active = [], tq_calling = False,
     tq_canceling = [], tq_created = 0, tq_armed = None, tq_set = now, tq_now = now, tq_ran = []\<rparr>"

definition howMuchTimeFromNow :: "timestamp \<Rightarrow> timestamp \<Rightarrow> int \<times> int" where
  "howMuchTimeFromNow now when =
     (let microseconds = (if when - now < 100 then 100 else when - now)
      in (microseconds div kMicroSecondsPerSecond, microseconds mod kMicroSecondsPerSecond * 1000))"

definition resetTimerfd :: "timestamp \<Rightarrow> TimerQueue \<Rightarrow> TimerQueue" where
  "resetTimerfd expiration s =
     (let (tv_sec, tv_nsec) = howMuchTimeFromNow (tq_now s) expiration
      in s\<lparr>tq_armed := Some (tq_now s + tv_sec * kMicroSecondsPerSecond + tv_nsec div 1000), tq_set := tq_now s\<rparr>)"

definition readTimerfd :: "TimerQueue \<Rightarrow> TimerQueue" where
  "readTimerfd s = s\<lparr>tq_armed := None\<rparr>"

definition deref :: "nat \<Rightarrow> nat \<Rightarrow> TimerQueue \<Rightarrow> Timer res" where
  "deref line timer s = (case tq_heap s timer of None \<Rightarrow> Inl (Undefined TimerQueue_cc line) | Some t \<Rightarrow> Inr t)"

definition delete_timer :: "nat \<Rightarrow> TimerQueue \<Rightarrow> TimerQueue" where
  "delete_timer timer s = s\<lparr>tq_heap := (tq_heap s)(timer := None)\<rparr>"

definition same_size :: "TimerQueue \<Rightarrow> bool" where
  "same_size s \<longleftrightarrow> length (tq_timers s) = length (tq_active s)"

definition insert_timer :: "nat \<Rightarrow> TimerQueue \<Rightarrow> (bool \<times> TimerQueue) res" where
  "insert_timer timer s =
     require TimerQueue_cc 238 (same_size s)
     (rbind (deref 240 timer s) (\<lambda>t.
      let when = t_expiration t;
          earliestChanged = (case tq_timers s of [] \<Rightarrow> True | it # _ \<Rightarrow> when < fst it)
      in require TimerQueue_cc 249 ((when, timer) \<notin> set (tq_timers s))
        (require TimerQueue_cc 254 ((timer, t_sequence t) \<notin> set (tq_active s))
          (let s1 = s\<lparr>tq_timers := insort (when, timer) (tq_timers s), tq_active := insort (timer, t_sequence t) (tq_active s)\<rparr>
           in require TimerQueue_cc 257 (same_size s1) (Inr (earliestChanged, s1))))))"

definition addTimerInLoop :: "nat \<Rightarrow> TimerQueue \<Rightarrow> TimerQueue res" where
  "addTimerInLoop timer s =
     rbind (insert_timer timer s) (\<lambda>(earliestChanged, s1).
     if earliestChanged then rbind (deref 139 timer s1) (\<lambda>t. Inr (resetTimerfd (t_expiration t) s1)) else Inr s1)"

text \<open>On the thread of the loop \<^verbatim>\<open>RunInLoop\<close> calls at once; the result is the \<^verbatim>\<open>TimerId\<close>.\<close>

definition addTimer :: "((nat \<Rightarrow> Timer option) \<Rightarrow> nat) \<Rightarrow> timestamp \<Rightarrow> bool \<Rightarrow> int \<Rightarrow> TimerQueue \<Rightarrow> ((nat \<times> int) \<times> TimerQueue) res" where
  "addTimer alloc when rep delta s =
     (let timer = alloc (tq_heap s); sequence = tq_created s + 1;
          t = \<lparr>t_expiration = when, t_delta = delta, t_repeat = rep, t_sequence = sequence\<rparr>;
          s1 = s\<lparr>tq_heap := (tq_heap s)(timer := Some t), tq_created := sequence\<rparr>
      in rmap (\<lambda>s2. ((timer, sequence), s2)) (addTimerInLoop timer s1))"

definition cancelInLoop :: "nat \<times> int \<Rightarrow> TimerQueue \<Rightarrow> TimerQueue res" where
  "cancelInLoop timerId s =
     require TimerQueue_cc 146 (same_size s)
     (rbind (if timerId \<in> set (tq_active s)
             then rbind (deref 151 (fst timerId) s) (\<lambda>t.
               require TimerQueue_cc 152 ((t_expiration t, fst timerId) \<in> set (tq_timers s))
                 (Inr (delete_timer (fst timerId)
                   (s\<lparr>tq_timers := remove1 (t_expiration t, fst timerId) (tq_timers s),
                      tq_active := remove1 timerId (tq_active s)\<rparr>))))
             else if tq_calling s then Inr (s\<lparr>tq_canceling := List.insert timerId (tq_canceling s)\<rparr>)
             else Inr s)
       (\<lambda>s1. require TimerQueue_cc 160 (same_size s1) (Inr s1)))"

text \<open>
  The sentinel \<^verbatim>\<open>Entry(now, UINTPTR_MAX)\<close> is above every timer that expires at \<open>now\<close>, so the entries before it are those that
  expire at \<open>now\<close> or earlier.
\<close>

fun erase_active :: "(timestamp \<times> nat) list \<Rightarrow> TimerQueue \<Rightarrow> TimerQueue res" where
  "erase_active [] s = Inr s"
| "erase_active ((when, timer) # expired) s =
     rbind (deref 195 timer s) (\<lambda>t.
     require TimerQueue_cc 197 ((timer, t_sequence t) \<in> set (tq_active s))
       (erase_active expired (s\<lparr>tq_active := remove1 (timer, t_sequence t) (tq_active s)\<rparr>)))"

definition getExpired :: "timestamp \<Rightarrow> TimerQueue \<Rightarrow> ((timestamp \<times> nat) list \<times> TimerQueue) res" where
  "getExpired now s =
     require TimerQueue_cc 185 (same_size s)
     (let expired = takeWhile (\<lambda>e. fst e \<le> now) (tq_timers s); rest = dropWhile (\<lambda>e. fst e \<le> now) (tq_timers s)
      in require TimerQueue_cc 189 (rest = [] \<or> now < fst (hd rest))
        (rbind (erase_active expired (s\<lparr>tq_timers := rest\<rparr>)) (\<lambda>s1.
          require TimerQueue_cc 200 (same_size s1) (Inr (expired, s1)))))"

fun reset_expired :: "timestamp \<Rightarrow> (timestamp \<times> nat) list \<Rightarrow> TimerQueue \<Rightarrow> TimerQueue res" where
  "reset_expired now [] s = Inr s"
| "reset_expired now ((when, timer) # expired) s =
     rbind (deref 210 timer s) (\<lambda>t.
     if t_repeat t \<and> (timer, t_sequence t) \<notin> set (tq_canceling s)
     then rbind (insert_timer timer (s\<lparr>tq_heap := (tq_heap s)(timer := Some (restart now t))\<rparr>)) (\<lambda>(_, s1).
       reset_expired now expired s1)
     else reset_expired now expired (delete_timer timer s))"

definition TimerQueue_reset :: "timestamp \<Rightarrow> (timestamp \<times> nat) list \<Rightarrow> TimerQueue \<Rightarrow> TimerQueue res" where
  "TimerQueue_reset now expired s =
     rbind (reset_expired now expired s) (\<lambda>s1.
     rbind (case tq_timers s1 of [] \<Rightarrow> Inr Timestamp_invalid
            | e # _ \<Rightarrow> rbind (deref 226 (snd e) s1) (\<lambda>t. Inr (t_expiration t))) (\<lambda>nextExpire.
     if Timestamp_valid nextExpire then Inr (resetTimerfd nextExpire s1) else Inr s1))"

text \<open>
  What a callback may do with the queue, and time passing meanwhile; \<open>script q\<close> is what the callback of the timer with
  sequence number \<open>q\<close> does.
\<close>

datatype timer_action = AddTimer timestamp bool int | CancelTimer nat int | Tick nat

fun perform :: "((nat \<Rightarrow> Timer option) \<Rightarrow> nat) \<Rightarrow> timer_action \<Rightarrow> TimerQueue \<Rightarrow> TimerQueue res" where
  "perform alloc (AddTimer when rep delta) s = rmap snd (addTimer alloc when rep delta s)"
| "perform alloc (CancelTimer timer sequence) s = cancelInLoop (timer, sequence) s"
| "perform alloc (Tick d) s = Inr (s\<lparr>tq_now := tq_now s + int d\<rparr>)"

fun performs :: "((nat \<Rightarrow> Timer option) \<Rightarrow> nat) \<Rightarrow> timer_action list \<Rightarrow> TimerQueue \<Rightarrow> TimerQueue res" where
  "performs alloc [] s = Inr s"
| "performs alloc (a # as) s = rbind (perform alloc a s) (performs alloc as)"

fun run_expired :: "((nat \<Rightarrow> Timer option) \<Rightarrow> nat) \<Rightarrow> (int \<Rightarrow> timer_action list) \<Rightarrow> (timestamp \<times> nat) list \<Rightarrow> TimerQueue \<Rightarrow> TimerQueue res" where
  "run_expired alloc script [] s = Inr s"
| "run_expired alloc script ((when, timer) # expired) s =
     rbind (deref 176 timer s) (\<lambda>t.
     rbind (performs alloc (script (t_sequence t)) (s\<lparr>tq_ran := tq_ran s @ [t_sequence t]\<rparr>)) (run_expired alloc script expired))"

definition TimerQueue_handleRead :: "((nat \<Rightarrow> Timer option) \<Rightarrow> nat) \<Rightarrow> (int \<Rightarrow> timer_action list) \<Rightarrow> TimerQueue \<Rightarrow> TimerQueue res" where
  "TimerQueue_handleRead alloc script s =
     (let now = tq_now s in
      rbind (getExpired now (readTimerfd s)) (\<lambda>(expired, s1).
      rbind (run_expired alloc script expired (s1\<lparr>tq_calling := True, tq_canceling := []\<rparr>)) (\<lambda>s2.
      TimerQueue_reset now expired (s2\<lparr>tq_calling := False\<rparr>))))"

section \<open>Invariant\<close>

text \<open>
  \<open>held\<close> are the expired entries that \<^verbatim>\<open>handleRead\<close> has taken out and not yet put back or freed.  Every other live timer is in both sets,
  under its current expiration and its sequence number, and nothing else is.
\<close>

definition tq_ok :: "(timestamp \<times> nat) list \<Rightarrow> TimerQueue \<Rightarrow> bool" where
  "tq_ok held s \<longleftrightarrow>
     sorted (tq_timers s) \<and> distinct (tq_timers s) \<and> distinct (tq_active s) \<and> same_size s \<and>
     finite (dom (tq_heap s)) \<and> distinct (map snd held) \<and>
     (\<forall>w a. (w, a) \<in> set (tq_timers s) \<longleftrightarrow> (\<exists>t. tq_heap s a = Some t \<and> t_expiration t = w) \<and> a \<notin> snd ` set held) \<and>
     (\<forall>a q. (a, q) \<in> set (tq_active s) \<longleftrightarrow> (\<exists>t. tq_heap s a = Some t \<and> t_sequence t = q) \<and> a \<notin> snd ` set held) \<and>
     (\<forall>e \<in> set held. tq_heap s (snd e) \<noteq> None)"

lemma tq_okD:
  assumes "tq_ok held s"
  shows "sorted (tq_timers s)" "distinct (tq_timers s)" "distinct (tq_active s)" "same_size s" "finite (dom (tq_heap s))"
    "distinct (map snd held)"
    "(w, a) \<in> set (tq_timers s) \<longleftrightarrow> (\<exists>t. tq_heap s a = Some t \<and> t_expiration t = w) \<and> a \<notin> snd ` set held"
    "(a, q) \<in> set (tq_active s) \<longleftrightarrow> (\<exists>t. tq_heap s a = Some t \<and> t_sequence t = q) \<and> a \<notin> snd ` set held"
    "e \<in> set held \<Longrightarrow> tq_heap s (snd e) \<noteq> None"
  using assms unfolding tq_ok_def by blast+

lemma tq_ok_frame:
  assumes "tq_ok held s" "tq_heap s' = tq_heap s" "tq_timers s' = tq_timers s" "tq_active s' = tq_active s"
  shows "tq_ok held s'"
  using assms unfolding tq_ok_def same_size_def by simp

lemma tq_ok_ctor: "tq_ok [] (TimerQueue_ctor now)"
  by (simp add: tq_ok_def TimerQueue_ctor_def same_size_def)

text \<open>Putting a held timer into the sets.\<close>

definition put :: "nat \<Rightarrow> Timer \<Rightarrow> TimerQueue \<Rightarrow> TimerQueue" where
  "put a t s = s\<lparr>tq_timers := insort (t_expiration t, a) (tq_timers s), tq_active := insort (a, t_sequence t) (tq_active s)\<rparr>"

lemma insert_ok:
  assumes s: "tq_ok ((w, a) # held) s" and t: "tq_heap s a = Some t"
  shows "insert_timer a s = Inr ((case tq_timers s of [] \<Rightarrow> True | it # _ \<Rightarrow> t_expiration t < fst it), put a t s)"
    and "tq_ok held (put a t s)"
proof -
  note sD = tq_okD [OF s]
  have new: "(t_expiration t, a) \<notin> set (tq_timers s)" "(a, t_sequence t) \<notin> set (tq_active s)"
    using sD(7) [of "t_expiration t" a] sD(8) [of a "t_sequence t"] by simp_all
  have size: "same_size (put a t s)" using sD(4) by (simp add: same_size_def put_def)
  then show "insert_timer a s = Inr ((case tq_timers s of [] \<Rightarrow> True | it # _ \<Rightarrow> t_expiration t < fst it), put a t s)"
    using new sD(4) t by (simp add: insert_timer_def deref_def Let_def put_def)
  have a: "a \<notin> snd ` set held" "distinct (map snd held)" using sD(6) by simp_all
  show "tq_ok held (put a t s)"
    unfolding tq_ok_def
  proof (intro conjI allI ballI)
    fix w' a' show "(w', a') \<in> set (tq_timers (put a t s)) \<longleftrightarrow>
        (\<exists>u. tq_heap (put a t s) a' = Some u \<and> t_expiration u = w') \<and> a' \<notin> snd ` set held"
      using sD(7) [of w' a'] a(1) t by (cases "a' = a") (auto simp: put_def set_insort_key)
  next
    fix a' q show "(a', q) \<in> set (tq_active (put a t s)) \<longleftrightarrow>
        (\<exists>u. tq_heap (put a t s) a' = Some u \<and> t_sequence u = q) \<and> a' \<notin> snd ` set held"
      using sD(8) [of a' q] a(1) t by (cases "a' = a") (auto simp: put_def set_insort_key)
  qed (use sD size new a in \<open>auto simp: put_def sorted_insort distinct_insort\<close>)
qed

text \<open>Freeing a held timer.\<close>

lemma delete_ok:
  assumes s: "tq_ok ((w, a) # held) s"
  shows "tq_ok held (delete_timer a s)"
proof -
  note sD = tq_okD [OF s]
  have a: "a \<notin> snd ` set held" "distinct (map snd held)" using sD(6) by simp_all
  show ?thesis
    unfolding tq_ok_def
  proof (intro conjI allI ballI)
    fix w' a' show "(w', a') \<in> set (tq_timers (delete_timer a s)) \<longleftrightarrow>
        (\<exists>t. tq_heap (delete_timer a s) a' = Some t \<and> t_expiration t = w') \<and> a' \<notin> snd ` set held"
      using sD(7) [of w' a'] by (cases "a' = a") (auto simp: delete_timer_def)
  next
    fix a' q show "(a', q) \<in> set (tq_active (delete_timer a s)) \<longleftrightarrow>
        (\<exists>t. tq_heap (delete_timer a s) a' = Some t \<and> t_sequence t = q) \<and> a' \<notin> snd ` set held"
      using sD(8) [of a' q] by (cases "a' = a") (auto simp: delete_timer_def)
  next
    fix e assume "e \<in> set held"
    then show "tq_heap (delete_timer a s) (snd e) \<noteq> None" using sD(9) [of e] a(1) by (auto simp: delete_timer_def)
  qed (use sD a in \<open>auto simp: delete_timer_def same_size_def\<close>)
qed

text \<open>Taking a timer out of the sets.\<close>

definition take_out :: "nat \<Rightarrow> Timer \<Rightarrow> TimerQueue \<Rightarrow> TimerQueue" where
  "take_out a t s = s\<lparr>tq_timers := remove1 (t_expiration t, a) (tq_timers s), tq_active := remove1 (a, t_sequence t) (tq_active s)\<rparr>"

lemma take_out_ok:
  assumes s: "tq_ok held s" and t: "tq_heap s a = Some t" "a \<notin> snd ` set held"
  shows "tq_ok ((w, a) # held) (take_out a t s)"
    "(t_expiration t, a) \<in> set (tq_timers s)" "(a, t_sequence t) \<in> set (tq_active s)"
proof -
  note sD = tq_okD [OF s]
  show mem: "(t_expiration t, a) \<in> set (tq_timers s)" "(a, t_sequence t) \<in> set (tq_active s)"
    using sD(7,8) t by blast+
  show "tq_ok ((w, a) # held) (take_out a t s)"
    unfolding tq_ok_def
  proof (intro conjI allI ballI)
    fix w' a' show "(w', a') \<in> set (tq_timers (take_out a t s)) \<longleftrightarrow>
        (\<exists>u. tq_heap (take_out a t s) a' = Some u \<and> t_expiration u = w') \<and> a' \<notin> snd ` set ((w, a) # held)"
      using sD(7) [of w' a'] sD(2) t by (cases "a' = a") (auto simp: take_out_def)
  next
    fix a' q show "(a', q) \<in> set (tq_active (take_out a t s)) \<longleftrightarrow>
        (\<exists>u. tq_heap (take_out a t s) a' = Some u \<and> t_sequence u = q) \<and> a' \<notin> snd ` set ((w, a) # held)"
      using sD(8) [of a' q] sD(3) t by (cases "a' = a") (auto simp: take_out_def)
  next
    fix e assume "e \<in> set ((w, a) # held)"
    then show "tq_heap (take_out a t s) (snd e) \<noteq> None" using sD(9) [of e] t by (auto simp: take_out_def)
  next
    show "same_size (take_out a t s)" using sD(4) mem by (simp add: same_size_def take_out_def length_remove1)
    show "distinct (map snd ((w, a) # held))" using sD(6) t(2) by simp
  qed (use sD in \<open>auto simp: take_out_def sorted_remove1\<close>)
qed

section \<open>What the operations keep\<close>

definition fresh_alloc :: "((nat \<Rightarrow> Timer option) \<Rightarrow> nat) \<Rightarrow> bool" where
  "fresh_alloc alloc \<longleftrightarrow> (\<forall>h. finite (dom h) \<longrightarrow> h (alloc h) = None)"

text \<open>The descriptor is armed for the first timer, or to fire within the smallest delay after it was last set.\<close>

definition armed_ok :: "TimerQueue \<Rightarrow> bool" where
  "armed_ok s \<longleftrightarrow> tq_set s \<le> tq_now s \<and>
     (tq_timers s \<noteq> [] \<longrightarrow> (\<exists>t. tq_armed s = Some t \<and> t \<le> max (fst (hd (tq_timers s))) (tq_set s + 100)))"

definition positive :: "TimerQueue \<Rightarrow> bool" where
  "positive s \<longleftrightarrow> (\<forall>a t. tq_heap s a = Some t \<longrightarrow> 0 < t_expiration t \<and> 0 \<le> t_delta t)"

lemma positive_frame: "tq_heap s' = tq_heap s \<Longrightarrow> positive s' = positive s"
  by (simp only: positive_def)

fun good_action :: "timer_action \<Rightarrow> bool" where
  "good_action (AddTimer when rep delta) \<longleftrightarrow> 0 < when \<and> 0 \<le> delta"
| "good_action _ \<longleftrightarrow> True"

lemma resetTimerfd_simps [simp]:
  "tq_armed (resetTimerfd e s) = Some (max e (tq_now s + 100))" "tq_set (resetTimerfd e s) = tq_now s"
  "tq_heap (resetTimerfd e s) = tq_heap s" "tq_timers (resetTimerfd e s) = tq_timers s"
  "tq_active (resetTimerfd e s) = tq_active s" "tq_calling (resetTimerfd e s) = tq_calling s"
  "tq_canceling (resetTimerfd e s) = tq_canceling s" "tq_now (resetTimerfd e s) = tq_now s" "tq_ran (resetTimerfd e s) = tq_ran s"
proof -
  define m where "m = (if e - tq_now s < 100 then 100 else e - tq_now s)"
  have "m div kMicroSecondsPerSecond * kMicroSecondsPerSecond + m mod kMicroSecondsPerSecond * 1000 div 1000 = m"
    by simp
  then have "tq_now s + m div kMicroSecondsPerSecond * kMicroSecondsPerSecond + m mod kMicroSecondsPerSecond * 1000 div 1000 =
      tq_now s + m" by linarith
  also have "\<dots> = max e (tq_now s + 100)" by (simp add: m_def max_def)
  finally show "tq_armed (resetTimerfd e s) = Some (max e (tq_now s + 100))"
    by (simp add: resetTimerfd_def howMuchTimeFromNow_def Let_def m_def)
qed (simp_all add: resetTimerfd_def howMuchTimeFromNow_def Let_def)

definition kept :: "(timestamp \<times> nat) list \<Rightarrow> timer_action list \<Rightarrow> TimerQueue \<Rightarrow> TimerQueue \<Rightarrow> bool" where
  "kept held acts s s' \<longleftrightarrow> tq_ok held s' \<and> (\<forall>a \<in> snd ` set held. tq_heap s' a = tq_heap s a) \<and>
     tq_calling s' = tq_calling s \<and> tq_ran s' = tq_ran s \<and> tq_now s \<le> tq_now s' \<and> (armed_ok s \<longrightarrow> armed_ok s') \<and>
     (tq_set s \<le> tq_now s \<longrightarrow> tq_set s' \<le> tq_now s') \<and>
     (positive s \<and> list_all good_action acts \<longrightarrow> positive s') \<and>
     (tq_calling s \<longrightarrow> (\<forall>a q. a \<in> snd ` set held \<longrightarrow>
        ((a, q) \<in> set (tq_canceling s') \<longleftrightarrow> (a, q) \<in> set (tq_canceling s) \<or> CancelTimer a q \<in> set acts)))"

lemma keptI:
  assumes "tq_ok held s'" "\<And>a. a \<in> snd ` set held \<Longrightarrow> tq_heap s' a = tq_heap s a" "tq_calling s' = tq_calling s"
    "tq_ran s' = tq_ran s" "tq_now s \<le> tq_now s'" "armed_ok s \<Longrightarrow> armed_ok s'"
    "tq_set s \<le> tq_now s \<Longrightarrow> tq_set s' \<le> tq_now s'"
    "positive s \<Longrightarrow> list_all good_action acts \<Longrightarrow> positive s'"
    "\<And>a q. tq_calling s \<Longrightarrow> a \<in> snd ` set held \<Longrightarrow>
       (a, q) \<in> set (tq_canceling s') \<longleftrightarrow> (a, q) \<in> set (tq_canceling s) \<or> CancelTimer a q \<in> set acts"
  shows "kept held acts s s'"
  using assms unfolding kept_def by blast

lemma kept_refl: "tq_ok held s \<Longrightarrow> kept held [] s s"
  by (simp add: kept_def)

lemma kept_trans: "kept held acts s s' \<Longrightarrow> kept held acts' s' s'' \<Longrightarrow> kept held (acts @ acts') s s''"
  unfolding kept_def by auto

lemma insort_hd:
  assumes "sorted xs"
  shows "hd (insort x xs) = (if xs = [] \<or> x \<le> hd xs then x else hd xs)"
  by (cases xs) auto

lemma kept_ok: "kept held acts s s' \<Longrightarrow> tq_ok held s'"
  unfolding kept_def by (elim conjE)

lemma kept_clock: "kept held acts s s' \<Longrightarrow> tq_now s \<le> tq_now s' \<and> (tq_set s \<le> tq_now s \<longrightarrow> tq_set s' \<le> tq_now s') \<and>
    (positive s \<and> list_all good_action acts \<longrightarrow> positive s')"
  unfolding kept_def by (elim conjE) (intro conjI)

lemma kept_heap: "kept held acts s s' \<Longrightarrow> a \<in> snd ` set held \<Longrightarrow> tq_heap s' a = tq_heap s a"
  unfolding kept_def by (elim conjE) (rule bspec)

lemma kept_canceling: "kept held acts s s' \<Longrightarrow> tq_calling s \<Longrightarrow> a \<in> snd ` set held \<Longrightarrow>
    (a, q) \<in> set (tq_canceling s') \<longleftrightarrow> (a, q) \<in> set (tq_canceling s) \<or> CancelTimer a q \<in> set acts"
  unfolding kept_def by (elim conjE) metis

lemma kept_ran:
  assumes "kept held acts s s'"
  shows "kept held acts (s\<lparr>tq_ran := r\<rparr>) (s'\<lparr>tq_ran := r\<rparr>)"
proof -
  have "tq_ok held (u\<lparr>tq_ran := r\<rparr>) = tq_ok held u" "armed_ok (u\<lparr>tq_ran := r\<rparr>) = armed_ok u" "positive (u\<lparr>tq_ran := r\<rparr>) = positive u" for u
    by (simp_all add: tq_ok_def same_size_def armed_ok_def positive_def)
  then show ?thesis using assms unfolding kept_def by simp
qed

lemma add_kept:
  assumes s: "tq_ok held s" and alloc: "fresh_alloc alloc"
  shows "\<exists>s'. perform alloc (AddTimer w r d) s = Inr s' \<and> kept held [AddTimer w r d] s s'"
proof -
  define a where "a = alloc (tq_heap s)"
  define t where "t = \<lparr>t_expiration = w, t_delta = d, t_repeat = r, t_sequence = tq_created s + 1\<rparr>"
  define s1 where "s1 = s\<lparr>tq_heap := (tq_heap s)(a := Some t), tq_created := tq_created s + 1\<rparr>"
  define first where "first = (case tq_timers s1 of [] \<Rightarrow> True | it # _ \<Rightarrow> t_expiration t < fst it)"
  define s2 where "s2 = (if first then resetTimerfd w (put a t s1) else put a t s1)"
  note sD = tq_okD [OF s]
  have a: "tq_heap s a = None" using alloc sD(5) by (simp add: fresh_alloc_def a_def)
  then have held: "a \<notin> snd ` set held" using sD(9) by fastforce
  have "tq_ok ((w, a) # held) s1"
    unfolding tq_ok_def
  proof (intro conjI allI ballI)
    fix w' a' show "(w', a') \<in> set (tq_timers s1) \<longleftrightarrow>
        (\<exists>u. tq_heap s1 a' = Some u \<and> t_expiration u = w') \<and> a' \<notin> snd ` set ((w, a) # held)"
      using sD(7) [of w' a'] a by (cases "a' = a") (auto simp: s1_def)
    fix q show "(a', q) \<in> set (tq_active s1) \<longleftrightarrow>
        (\<exists>u. tq_heap s1 a' = Some u \<and> t_sequence u = q) \<and> a' \<notin> snd ` set ((w, a) # held)"
      using sD(8) [of a' q] a by (cases "a' = a") (auto simp: s1_def)
    fix e assume "e \<in> set ((w, a) # held)" then show "tq_heap s1 (snd e) \<noteq> None"
      using sD(9) [of e] by (auto simp: s1_def)
  qed (use sD held in \<open>auto simp: s1_def same_size_def\<close>)
  note ins = insert_ok [OF this, of t]
  have t: "tq_heap s1 a = Some t" "t_expiration t = w" by (simp_all add: s1_def t_def)
  have add: "addTimerInLoop a s1 = Inr s2"
    using t by (simp add: addTimerInLoop_def ins(1) deref_def put_def s2_def first_def [symmetric])
  then have "perform alloc (AddTimer w r d) s = Inr s2"
    by (simp add: addTimer_def Let_def flip: a_def t_def) (simp add: s1_def [symmetric] rmap_rmap t_def [symmetric])
  moreover have "tq_ok held s2"
    using ins(2) [OF t(1)] by (auto simp: s2_def intro: tq_ok_frame)
  moreover have "armed_ok s2" if "armed_ok s"
  proof (cases first)
    case True
    then have "fst (hd (tq_timers s2)) = w"
      using sD(1) by (auto simp: s2_def put_def insort_hd s1_def first_def t_def less_eq_prod_def split: list.splits)
    then show ?thesis using True that by (auto simp: armed_ok_def s2_def put_def s1_def)
  next
    case False
    then obtain it its where it: "tq_timers s = it # its" "fst it \<le> w"
      by (auto simp: first_def s1_def t_def split: list.splits)
    then have "fst (hd (tq_timers s2)) = fst it"
      using sD(1) False by (auto simp: s2_def put_def insort_hd s1_def t_def less_eq_prod_def)
    then show ?thesis using False that it by (simp add: armed_ok_def s2_def put_def s1_def)
  qed
  moreover have "positive s2" if "positive s" "0 < w" "0 \<le> d"
    using that by (auto simp: positive_def s2_def put_def s1_def t_def split: if_splits)
  moreover have "tq_heap s2 b = tq_heap s b" if "b \<in> snd ` set held" for b
    using that held by (auto simp: s2_def put_def s1_def)
  ultimately show ?thesis
    by (intro exI [of _ s2] conjI, simp) (simp add: kept_def, simp add: s2_def put_def s1_def)
qed

lemma remove1_hd_le:
  fixes xs :: "'a :: linorder list"
  assumes "sorted xs" "remove1 x xs \<noteq> []"
  shows "hd xs \<le> hd (remove1 x xs)"
proof -
  have "hd (remove1 x xs) \<in> set xs" using assms(2) by (meson hd_in_set notin_set_remove1)
  then show ?thesis using assms(1) by (cases xs) auto
qed

lemma armed_take_out:
  assumes "armed_ok s" "sorted (tq_timers s)"
  shows "armed_ok (take_out a t s)"
proof (cases "remove1 (t_expiration t, a) (tq_timers s) = []")
  case True
  then show ?thesis using assms(1) by (simp add: armed_ok_def take_out_def)
next
  case False
  from remove1_hd_le [OF assms(2) False]
  have "fst (hd (tq_timers s)) \<le> fst (hd (remove1 (t_expiration t, a) (tq_timers s)))"
    by (auto simp: less_eq_prod_def)
  moreover have "tq_timers s \<noteq> []" using False by auto
  ultimately show ?thesis using assms(1) False by (auto simp: armed_ok_def take_out_def)
qed

lemma cancel_kept:
  assumes s: "tq_ok held s"
  shows "\<exists>s'. perform alloc (CancelTimer a q) s = Inr s' \<and> kept held [CancelTimer a q] s s'"
proof -
  note sD = tq_okD [OF s]
  show ?thesis
  proof (cases "(a, q) \<in> set (tq_active s)")
    case True
    then obtain t where t: "tq_heap s a = Some t" "t_sequence t = q" "a \<notin> snd ` set held"
      using sD(8) [of a q] by auto
    note out = take_out_ok [OF s t(1,3)]
    define s' where "s' = delete_timer a (take_out a t s)"
    have ok: "tq_ok held s'" unfolding s'_def by (rule delete_ok [OF out(1)])
    have cancel: "cancelInLoop (a, q) s = Inr s'"
      using True t out(2) sD(4) tq_okD(4) [OF ok]
      by (simp add: cancelInLoop_def deref_def s'_def take_out_def delete_timer_def)
    have "armed_ok s'" if "armed_ok s"
      using armed_take_out [OF that sD(1), of a t] by (simp add: s'_def armed_ok_def delete_timer_def)
    moreover have "positive s'" if "positive s"
      using that by (simp add: positive_def s'_def delete_timer_def take_out_def)
    moreover have "tq_heap s' b = tq_heap s b" if "b \<in> snd ` set held" for b
      using that t(3) by (auto simp: s'_def delete_timer_def take_out_def)
    moreover have "tq_calling s' = tq_calling s" "tq_ran s' = tq_ran s" "tq_now s' = tq_now s" "tq_canceling s' = tq_canceling s"
        "tq_set s' = tq_set s"
      by (simp_all add: s'_def delete_timer_def take_out_def)
    ultimately have "kept held [CancelTimer a q] s s'" using ok t(3) by (intro keptI) auto
    then show ?thesis using cancel by (intro exI [of _ s']) simp
  next
    case False
    define s' where "s' = (if tq_calling s then s\<lparr>tq_canceling := List.insert (a, q) (tq_canceling s)\<rparr> else s)"
    have cancel: "cancelInLoop (a, q) s = Inr s'"
      using False sD(4) by (simp add: cancelInLoop_def s'_def same_size_def)
    have "tq_ok held s'" by (rule tq_ok_frame [OF s]) (simp_all add: s'_def)
    moreover have "armed_ok s' = armed_ok s" "positive s' = positive s" "tq_heap s' = tq_heap s" "tq_calling s' = tq_calling s"
        "tq_ran s' = tq_ran s" "tq_now s' = tq_now s" "tq_set s' = tq_set s"
      by (simp_all add: s'_def armed_ok_def positive_def)
    moreover have "(b, p) \<in> set (tq_canceling s') \<longleftrightarrow> (b, p) \<in> set (tq_canceling s) \<or> CancelTimer b p = CancelTimer a q"
      if "tq_calling s" for b p
      using that by (auto simp: s'_def)
    ultimately have "kept held [CancelTimer a q] s s'" by (intro keptI) simp_all
    then show ?thesis using cancel by (intro exI [of _ s']) simp
  qed
qed

lemma perform_kept:
  assumes "tq_ok held s" "fresh_alloc alloc"
  shows "\<exists>s'. perform alloc act s = Inr s' \<and> kept held [act] s s'"
proof (cases act)
  case (Tick d)
  then show ?thesis
    using assms(1) by (auto simp: kept_def armed_ok_def positive_def intro: tq_ok_frame)
qed (use add_kept [OF assms] cancel_kept [OF assms(1)] in blast)+

lemma performs_kept:
  assumes "tq_ok held s" "fresh_alloc alloc"
  shows "\<exists>s'. performs alloc acts s = Inr s' \<and> kept held acts s s'"
  using assms(1)
proof (induction acts arbitrary: s)
  case (Cons act acts)
  obtain s1 where s1: "perform alloc act s = Inr s1" "kept held [act] s s1"
    using perform_kept [OF Cons.prems assms(2)] by blast
  then have "tq_ok held s1" by (simp add: kept_def)
  with Cons.IH obtain s2 where "performs alloc acts s1 = Inr s2" "kept held acts s1 s2" by blast
  with s1 kept_trans [OF s1(2)] show ?case by fastforce
qed (simp add: kept_refl)

section \<open>The alarm\<close>

abbreviation seq_of :: "TimerQueue \<Rightarrow> timestamp \<times> nat \<Rightarrow> int" where
  "seq_of s e \<equiv> t_sequence (the (tq_heap s (snd e)))"

lemma take_out_frame [simp]:
  "tq_heap (take_out a t s) = tq_heap s" "tq_calling (take_out a t s) = tq_calling s" "tq_ran (take_out a t s) = tq_ran s"
  "tq_now (take_out a t s) = tq_now s" "tq_set (take_out a t s) = tq_set s" "tq_armed (take_out a t s) = tq_armed s"
  "tq_canceling (take_out a t s) = tq_canceling s"
  by (simp_all add: take_out_def)

text \<open>Taking the first entries out one by one is what \<^verbatim>\<open>getExpired\<close> does to the two sets.\<close>

lemma erase_active_ok:
  assumes "tq_ok held s" "tq_timers s = expired @ rest"
  shows "\<exists>act. erase_active expired (s\<lparr>tq_timers := rest\<rparr>) = Inr (s\<lparr>tq_timers := rest, tq_active := act\<rparr>) \<and>
     tq_ok (rev expired @ held) (s\<lparr>tq_timers := rest, tq_active := act\<rparr>)"
  using assms
proof (induction expired arbitrary: held s)
  case Nil
  have "tq_ok held (s\<lparr>tq_timers := rest, tq_active := tq_active s\<rparr>)"
    using Nil by (intro tq_ok_frame [OF Nil(1)]) simp_all
  then show ?case by (intro exI [of _ "tq_active s"]) simp
next
  case (Cons e expired)
  obtain w a where e: "e = (w, a)" by (cases e)
  have "(w, a) \<in> set (tq_timers s)" using Cons.prems(2) e by simp
  then obtain t where t: "tq_heap s a = Some t" "t_expiration t = w" "a \<notin> snd ` set held"
    using tq_okD(7) [OF Cons.prems(1), of w a] by auto
  note out = take_out_ok(1) [OF Cons.prems(1) t(1,3), of w] take_out_ok(2,3) [OF Cons.prems(1) t(1,3)]
  have timers: "tq_timers (take_out a t s) = expired @ rest" using Cons.prems(2) e t(2) by (simp add: take_out_def)
  obtain act where act: "erase_active expired ((take_out a t s)\<lparr>tq_timers := rest\<rparr>) = Inr ((take_out a t s)\<lparr>tq_timers := rest, tq_active := act\<rparr>)"
      "tq_ok (rev expired @ (w, a) # held) ((take_out a t s)\<lparr>tq_timers := rest, tq_active := act\<rparr>)"
    using Cons.IH [OF out(1) timers] by blast
  have eq: "(take_out a t s)\<lparr>tq_timers := rest, tq_active := act\<rparr> = s\<lparr>tq_timers := rest, tq_active := act\<rparr>"
      "(take_out a t s)\<lparr>tq_timers := rest\<rparr> = s\<lparr>tq_timers := rest, tq_active := remove1 (a, t_sequence t) (tq_active s)\<rparr>"
    by (simp_all add: take_out_def)
  have "erase_active (e # expired) (s\<lparr>tq_timers := rest\<rparr>) = Inr (s\<lparr>tq_timers := rest, tq_active := act\<rparr>)"
    using act(1) t(1) out(3) unfolding eq by (simp add: e deref_def)
  then show ?case using act(2) unfolding eq by (intro exI [of _ act]) (simp add: e)
qed

lemma sorted_split_due:
  assumes "sorted (xs :: (timestamp \<times> nat) list)"
  shows "dropWhile (\<lambda>e. fst e \<le> now) xs = [] \<or> now < fst (hd (dropWhile (\<lambda>e. fst e \<le> now) xs))"
    and "takeWhile (\<lambda>e. fst e \<le> now) xs = filter (\<lambda>e. fst e \<le> now) xs"
proof -
  show "dropWhile (\<lambda>e. fst e \<le> now) xs = [] \<or> now < fst (hd (dropWhile (\<lambda>e. fst e \<le> now) xs))"
    by (metis (mono_tags, lifting) hd_dropWhile not_le)
  show "takeWhile (\<lambda>e. fst e \<le> now) xs = filter (\<lambda>e. fst e \<le> now) xs"
    using assms
  proof (induction xs)
    case (Cons x xs)
    show ?case
    proof (cases "fst x \<le> now")
      case False
      then have "\<not> fst y \<le> now" if "y \<in> set xs" for y
        using Cons.prems that by (fastforce simp: less_eq_prod_def)
      then have "filter (\<lambda>e. fst e \<le> now) xs = []" by (simp add: filter_empty_conv)
      with False show ?thesis by simp
    qed (use Cons in simp)
  qed simp
qed

definition due :: "TimerQueue \<Rightarrow> (timestamp \<times> nat) list" where
  "due s = filter (\<lambda>e. fst e \<le> tq_now s) (tq_timers s)"

lemma getExpired_ok:
  assumes "tq_ok [] s"
  shows "\<exists>s'. getExpired (tq_now s) s = Inr (due s, s') \<and> tq_ok (rev (due s)) s' \<and> tq_heap s' = tq_heap s \<and>
     tq_ran s' = tq_ran s \<and> tq_now s' = tq_now s \<and> tq_set s' = tq_set s \<and> tq_calling s' = tq_calling s"
proof -
  let ?P = "\<lambda>e. fst e \<le> tq_now s"
  note sD = tq_okD [OF assms]
  obtain act where act: "erase_active (takeWhile ?P (tq_timers s)) (s\<lparr>tq_timers := dropWhile ?P (tq_timers s)\<rparr>) =
        Inr (s\<lparr>tq_timers := dropWhile ?P (tq_timers s), tq_active := act\<rparr>)"
      "tq_ok (rev (takeWhile ?P (tq_timers s)) @ []) (s\<lparr>tq_timers := dropWhile ?P (tq_timers s), tq_active := act\<rparr>)"
    using erase_active_ok [OF assms, of "takeWhile ?P (tq_timers s)" "dropWhile ?P (tq_timers s)"] by auto
  have d: "takeWhile ?P (tq_timers s) = due s" using sorted_split_due(2) [OF sD(1)] by (simp add: due_def)
  have "getExpired (tq_now s) s = Inr (due s, s\<lparr>tq_timers := dropWhile ?P (tq_timers s), tq_active := act\<rparr>)"
    using act sD(4) sorted_split_due(1) [OF sD(1), of "tq_now s"] tq_okD(4) [OF act(2)] d by (simp add: getExpired_def Let_def)
  then show ?thesis using act(2) d by (intro exI [of _ "s\<lparr>tq_timers := dropWhile ?P (tq_timers s), tq_active := act\<rparr>"]) simp
qed

text \<open>While the callbacks run, the due timers are held aside: nothing the callbacks do reaches them.\<close>

lemma run_expired_ok:
  assumes "tq_ok held s" "fresh_alloc alloc" "tq_calling s" "set todo \<subseteq> set held"
  shows "\<exists>s'. run_expired alloc script todo s = Inr s' \<and> tq_ran s' = tq_ran s @ map (seq_of s) todo \<and>
     kept held (concat (map (\<lambda>e. script (seq_of s e)) todo)) (s\<lparr>tq_ran := []\<rparr>) (s'\<lparr>tq_ran := []\<rparr>)"
  using assms(1,3,4)
proof (induction todo arbitrary: s)
  case Nil
  then show ?case by (auto intro!: kept_refl intro: tq_ok_frame)
next
  case (Cons e todo)
  obtain w a where e: "e = (w, a)" by (cases e)
  have "a \<in> snd ` set held" using Cons.prems(3) e by force
  then obtain t where t: "tq_heap s a = Some t" using tq_okD(9) [OF Cons.prems(1), of e] Cons.prems(3) e by auto
  define s1 where "s1 = s\<lparr>tq_ran := tq_ran s @ [t_sequence t]\<rparr>"
  have "tq_ok held s1" by (rule tq_ok_frame [OF Cons.prems(1)]) (simp_all add: s1_def)
  from performs_kept [OF this assms(2), of "script (t_sequence t)"]
  obtain s2 where s2: "performs alloc (script (t_sequence t)) s1 = Inr s2" "kept held (script (t_sequence t)) s1 s2" by blast
  have k: "tq_ok held s2" "tq_calling s2" "tq_ran s2 = tq_ran s1"
    using Cons.prems(2) s2(2) by (simp_all add: kept_def s1_def)
  have k4: "tq_heap s2 b = tq_heap s b" if "b \<in> snd ` set held" for b
    using kept_heap [OF s2(2) that] by (simp add: s1_def)
  obtain s3 where s3: "run_expired alloc script todo s2 = Inr s3" "tq_ran s3 = tq_ran s2 @ map (seq_of s2) todo"
      "kept held (concat (map (\<lambda>e. script (seq_of s2 e)) todo)) (s2\<lparr>tq_ran := []\<rparr>) (s3\<lparr>tq_ran := []\<rparr>)"
    using Cons.IH [OF k(1,2)] Cons.prems(3) by auto
  have seqs: "seq_of s2 x = seq_of s x" if "x \<in> set todo" for x
    using k4 [of "snd x"] Cons.prems(3) that by auto
  have maps: "map (\<lambda>e. script (seq_of s2 e)) todo = map (\<lambda>e. script (seq_of s e)) todo"
    using seqs by (intro map_cong) simp_all
  have script1: "script (seq_of s e) = script (t_sequence t)" using t by (simp add: e)
  have run: "run_expired alloc script (e # todo) s = Inr s3"
    using s2(1) s3(1) t by (simp add: e deref_def s1_def)
  have ran: "tq_ran s3 = tq_ran s @ map (seq_of s) (e # todo)"
    using s3(2) k(3) seqs t by (simp add: s1_def e)
  have "kept held (script (t_sequence t)) (s\<lparr>tq_ran := []\<rparr>) (s2\<lparr>tq_ran := []\<rparr>)"
    using kept_ran [OF s2(2)] by (simp add: s1_def)
  from kept_trans [OF this s3(3)] have "kept held (concat (map (\<lambda>e. script (seq_of s e)) (e # todo))) (s\<lparr>tq_ran := []\<rparr>) (s3\<lparr>tq_ran := []\<rparr>)"
    by (simp only: maps list.map concat.simps script1)
  with run ran show ?case by blast
qed

text \<open>Afterwards each of them is put back with its next expiration, or freed.\<close>

definition renew :: "timestamp \<Rightarrow> (nat \<times> int) list \<Rightarrow> nat \<Rightarrow> Timer \<Rightarrow> Timer option" where
  "renew now canceled a t = (if t_repeat t \<and> (a, t_sequence t) \<notin> set canceled then Some (restart now t) else None)"

lemma reset_expired_ok:
  assumes "tq_ok expired s"
  shows "\<exists>s'. reset_expired now expired s = Inr s' \<and> tq_ok [] s' \<and>
     (\<forall>a. tq_heap s' a = (if a \<in> snd ` set expired then Option.bind (tq_heap s a) (renew now (tq_canceling s) a) else tq_heap s a)) \<and>
     tq_calling s' = tq_calling s \<and> tq_canceling s' = tq_canceling s \<and> tq_ran s' = tq_ran s \<and> tq_now s' = tq_now s \<and>
     tq_armed s' = tq_armed s \<and> tq_set s' = tq_set s"
  using assms
proof (induction expired arbitrary: s)
  case (Cons e expired)
  obtain w a where e: "e = (w, a)" by (cases e)
  obtain t where t: "tq_heap s a = Some t" using tq_okD(9) [OF Cons.prems, of e] e by auto
  have fresh: "a \<notin> snd ` set expired" using tq_okD(6) [OF Cons.prems] e by simp
  show ?case
  proof (cases "t_repeat t \<and> (a, t_sequence t) \<notin> set (tq_canceling s)")
    case True
    define s1 where "s1 = s\<lparr>tq_heap := (tq_heap s)(a := Some (restart now t))\<rparr>"
    have "tq_ok ((w, a) # expired) s1"
    proof -
      note sD = tq_okD [OF Cons.prems [unfolded e]]
      show ?thesis
        unfolding tq_ok_def
      proof (intro conjI allI ballI)
        fix w' a' show "(w', a') \<in> set (tq_timers s1) \<longleftrightarrow>
            (\<exists>u. tq_heap s1 a' = Some u \<and> t_expiration u = w') \<and> a' \<notin> snd ` set ((w, a) # expired)"
          using sD(7) [of w' a'] by (cases "a' = a") (simp_all add: s1_def)
        fix q show "(a', q) \<in> set (tq_active s1) \<longleftrightarrow>
            (\<exists>u. tq_heap s1 a' = Some u \<and> t_sequence u = q) \<and> a' \<notin> snd ` set ((w, a) # expired)"
          using sD(8) [of a' q] by (cases "a' = a") (simp_all add: s1_def)
        fix x assume "x \<in> set ((w, a) # expired)" then show "tq_heap s1 (snd x) \<noteq> None"
          using sD(9) [of x] by (simp add: s1_def)
      qed (use sD in \<open>simp_all add: s1_def same_size_def\<close>)
    qed
    note ins = insert_ok [OF this, of "restart now t"]
    define s2 where "s2 = put a (restart now t) s1"
    have s2: "tq_ok expired s2" "insert_timer a s1 = Inr ((case tq_timers s1 of [] \<Rightarrow> True | it # _ \<Rightarrow> t_expiration (restart now t) < fst it), s2)"
      using ins by (simp_all add: s1_def s2_def)
    have frame: "tq_heap s2 = (tq_heap s)(a := Some (restart now t))" "tq_calling s2 = tq_calling s" "tq_canceling s2 = tq_canceling s"
        "tq_ran s2 = tq_ran s" "tq_now s2 = tq_now s" "tq_armed s2 = tq_armed s" "tq_set s2 = tq_set s"
      by (simp_all add: s2_def put_def s1_def)
    obtain s' where s': "reset_expired now expired s2 = Inr s'" "tq_ok [] s'"
        "\<forall>a. tq_heap s' a = (if a \<in> snd ` set expired then Option.bind (tq_heap s2 a) (renew now (tq_canceling s2) a) else tq_heap s2 a)"
        "tq_calling s' = tq_calling s2" "tq_canceling s' = tq_canceling s2" "tq_ran s' = tq_ran s2" "tq_now s' = tq_now s2"
        "tq_armed s' = tq_armed s2" "tq_set s' = tq_set s2"
      using Cons.IH [OF s2(1)] by blast
    have "reset_expired now (e # expired) s = Inr s'"
      using s'(1) s2(2) True t by (simp add: e deref_def s1_def)
    then show ?thesis using s' frame fresh True t
      by (intro exI [of _ s']) (auto simp: e renew_def)
  next
    case False
    define s2 where "s2 = delete_timer a s"
    have s2: "tq_ok expired s2" unfolding s2_def by (rule delete_ok) (use Cons.prems e in simp)
    have frame: "tq_heap s2 = (tq_heap s)(a := None)" "tq_calling s2 = tq_calling s" "tq_canceling s2 = tq_canceling s"
        "tq_ran s2 = tq_ran s" "tq_now s2 = tq_now s" "tq_armed s2 = tq_armed s" "tq_set s2 = tq_set s"
      by (simp_all add: s2_def delete_timer_def)
    obtain s' where s': "reset_expired now expired s2 = Inr s'" "tq_ok [] s'"
        "\<forall>a. tq_heap s' a = (if a \<in> snd ` set expired then Option.bind (tq_heap s2 a) (renew now (tq_canceling s2) a) else tq_heap s2 a)"
        "tq_calling s' = tq_calling s2" "tq_canceling s' = tq_canceling s2" "tq_ran s' = tq_ran s2" "tq_now s' = tq_now s2"
        "tq_armed s' = tq_armed s2" "tq_set s' = tq_set s2"
      using Cons.IH [OF s2] by blast
    have "reset_expired now (e # expired) s = Inr s'"
      using s'(1) False t by (auto simp: e deref_def s2_def)
    then show ?thesis using s' frame fresh False t
      by (intro exI [of _ s']) (auto simp: e renew_def)
  qed
qed simp

lemma tq_ok_perm:
  assumes "tq_ok held s" "set held' = set held" "distinct (map snd held')"
  shows "tq_ok held' s"
  using assms unfolding tq_ok_def by simp

lemma TimerQueue_reset_ok:
  assumes "tq_ok expired s"
  shows "\<exists>s'. TimerQueue_reset now expired s = Inr s' \<and> tq_ok [] s' \<and>
     (\<forall>a. tq_heap s' a = (if a \<in> snd ` set expired then Option.bind (tq_heap s a) (renew now (tq_canceling s) a) else tq_heap s a)) \<and>
     tq_ran s' = tq_ran s \<and> tq_calling s' = tq_calling s \<and> tq_now s' = tq_now s \<and>
     (tq_set s \<le> tq_now s \<and> positive s' \<longrightarrow> armed_ok s')"
proof -
  obtain s1 where s1: "reset_expired now expired s = Inr s1" "tq_ok [] s1"
      "\<forall>a. tq_heap s1 a = (if a \<in> snd ` set expired then Option.bind (tq_heap s a) (renew now (tq_canceling s) a) else tq_heap s a)"
      "tq_calling s1 = tq_calling s" "tq_ran s1 = tq_ran s" "tq_now s1 = tq_now s" "tq_set s1 = tq_set s"
    using reset_expired_ok [OF assms, of now] by blast
  show ?thesis
  proof (cases "tq_timers s1")
    case Nil
    then have "TimerQueue_reset now expired s = Inr s1"
      using s1(1) by (simp add: TimerQueue_reset_def Timestamp_valid_def Timestamp_invalid_def)
    then show ?thesis using s1 Nil by (intro exI [of _ s1]) (simp add: armed_ok_def)
  next
    case (Cons e es)
    obtain w a where e: "e = (w, a)" by (cases e)
    obtain t where t: "tq_heap s1 a = Some t" "t_expiration t = w"
      using tq_okD(7) [OF s1(2), of w a] Cons e by auto
    define s2 where "s2 = (if Timestamp_valid w then resetTimerfd w s1 else s1)"
    have "TimerQueue_reset now expired s = Inr s2"
      using s1(1) Cons t by (simp add: TimerQueue_reset_def deref_def e s2_def)
    moreover have "tq_ok [] s2" by (rule tq_ok_frame [OF s1(2)]) (simp_all add: s2_def)
    moreover have "armed_ok s2" if "positive s2"
    proof -
      have "0 < w" using that t by (auto simp: positive_def s2_def split: if_splits)
      then show ?thesis using Cons by (auto simp: s2_def Timestamp_valid_def armed_ok_def e)
    qed
    ultimately show ?thesis using s1 by (intro exI [of _ s2]) (simp add: s2_def)
  qed
qed

lemma handleRead_ok:
  fixes script :: "int \<Rightarrow> timer_action list"
  assumes s: "tq_ok [] s" and alloc: "fresh_alloc alloc"
  defines "acts \<equiv> concat (map (\<lambda>e. script (seq_of s e)) (due s))"
  shows "\<exists>s'. TimerQueue_handleRead alloc script s = Inr s' \<and> tq_ok [] s' \<and> tq_ran s' = tq_ran s @ map (seq_of s) (due s) \<and>
     \<not> tq_calling s' \<and> tq_now s \<le> tq_now s' \<and>
     (\<forall>w a t. (w, a) \<in> set (due s) \<and> tq_heap s a = Some t \<longrightarrow>
        tq_heap s' a = (if t_repeat t \<and> CancelTimer a (t_sequence t) \<notin> set acts then Some (restart (tq_now s) t) else None)) \<and>
     (tq_set s \<le> tq_now s \<and> 0 < tq_now s \<and> positive s \<and> list_all good_action acts \<longrightarrow> positive s' \<and> armed_ok s')"
proof -
  have "tq_ok [] (readTimerfd s)" by (rule tq_ok_frame [OF s]) (simp_all add: readTimerfd_def)
  from getExpired_ok [OF this] have "\<exists>s1. getExpired (tq_now s) (readTimerfd s) = Inr (due s, s1) \<and> tq_ok (rev (due s)) s1 \<and>
      tq_heap s1 = tq_heap s \<and> tq_ran s1 = tq_ran s \<and> tq_now s1 = tq_now s \<and> tq_set s1 = tq_set s"
    by (auto simp: readTimerfd_def due_def)
  then obtain s1 where s1: "getExpired (tq_now s) (readTimerfd s) = Inr (due s, s1)" "tq_ok (rev (due s)) s1"
      "tq_heap s1 = tq_heap s" "tq_ran s1 = tq_ran s" "tq_now s1 = tq_now s" "tq_set s1 = tq_set s" by blast
  define s2 where "s2 = s1\<lparr>tq_calling := True, tq_canceling := []\<rparr>"
  have s2: "tq_ok (rev (due s)) s2" "tq_calling s2" by (rule tq_ok_frame [OF s1(2)], simp_all add: s2_def)
  have seqs: "seq_of s2 e = seq_of s e" for e by (simp add: s2_def s1(3))
  obtain s3 where s3: "run_expired alloc script (due s) s2 = Inr s3" "tq_ran s3 = tq_ran s2 @ map (seq_of s2) (due s)"
      "kept (rev (due s)) acts (s2\<lparr>tq_ran := []\<rparr>) (s3\<lparr>tq_ran := []\<rparr>)"
    using run_expired_ok [OF s2(1) alloc s2(2), of "due s" script] unfolding acts_def seqs by auto
  define s4 where "s4 = s3\<lparr>tq_calling := False\<rparr>"
  have ok3: "tq_ok (rev (due s)) s4"
    by (rule tq_ok_frame [of "rev (due s)" "s3\<lparr>tq_ran := []\<rparr>"]) (simp_all add: kept_ok [OF s3(3)] s4_def)
  have dist: "distinct (map snd (due s))" using tq_okD(6) [OF s2(1)] by (simp add: rev_map [symmetric])
  have "tq_ok (due s) s4" by (rule tq_ok_perm [OF ok3]) (simp_all add: dist)
  from TimerQueue_reset_ok [OF this, of "tq_now s"]
  obtain s5 where s5: "TimerQueue_reset (tq_now s) (due s) s4 = Inr s5" "tq_ok [] s5"
      "\<forall>a. tq_heap s5 a = (if a \<in> snd ` set (due s) then Option.bind (tq_heap s4 a) (renew (tq_now s) (tq_canceling s4) a) else tq_heap s4 a)"
      "tq_ran s5 = tq_ran s4" "tq_calling s5 = tq_calling s4" "tq_now s5 = tq_now s4"
      "tq_set s4 \<le> tq_now s4 \<and> positive s5 \<longrightarrow> armed_ok s5"
    by blast
  have kept: "tq_heap s4 a = tq_heap s a" "(a, q) \<in> set (tq_canceling s4) \<longleftrightarrow> CancelTimer a q \<in> set acts"
    if a: "a \<in> snd ` set (due s)" for a q
    using kept_heap [OF s3(3), of a] kept_canceling [OF s3(3), of a q] a by (simp_all add: s4_def s2_def s1(3))
  have pos: "positive (s1\<lparr>tq_calling := True, tq_canceling := [], tq_ran := []\<rparr>) = positive s"
      "positive (s3\<lparr>tq_calling := False\<rparr>) = positive s3" "positive (s3\<lparr>tq_ran := []\<rparr>) = positive s3"
    by (rule positive_frame, simp add: s1(3))+
  have clock: "tq_now s \<le> tq_now s4" "tq_set s \<le> tq_now s \<longrightarrow> tq_set s4 \<le> tq_now s4"
    "positive s \<and> list_all good_action acts \<longrightarrow> positive s4"
    using kept_clock [OF s3(3)] pos by (simp_all add: s4_def s2_def s1(5,6))
  have run: "TimerQueue_handleRead alloc script s = Inr s5"
    using s1(1) s3(1) s5(1) by (simp add: TimerQueue_handleRead_def Let_def s2_def s4_def)
  have heap: "tq_heap s5 a = (if t_repeat t \<and> CancelTimer a (t_sequence t) \<notin> set acts then Some (restart (tq_now s) t) else None)"
    if "(w, a) \<in> set (due s)" "tq_heap s a = Some t" for w a t
  proof -
    have a: "a \<in> snd ` set (due s)" using that(1) by force
    then show ?thesis using s5(3) kept(1) [OF a] kept(2) [OF a, of "t_sequence t"] that(2) by (simp add: renew_def)
  qed
  have "positive s5" if "positive s4" "0 < tq_now s"
  proof -
    have "0 < t_expiration u \<and> 0 \<le> t_delta u" if u: "tq_heap s5 a = Some u" for a u
    proof (cases "tq_heap s4 a")
      case None
      then show ?thesis using s5(3) u by (simp split: if_splits)
    next
      case (Some t)
      then have t: "0 < t_expiration t" "0 \<le> t_delta t" using \<open>positive s4\<close> by (auto simp: positive_def)
      show ?thesis
      proof (cases "a \<in> snd ` set (due s)")
        case True
        then have "u = restart (tq_now s) t" "t_repeat t" using s5(3) u Some by (auto simp: renew_def split: if_splits)
        then show ?thesis using t \<open>0 < tq_now s\<close> by (simp add: restart_def addTime_def)
      next
        case False
        then show ?thesis using s5(3) u Some t by simp
      qed
    qed
    then show ?thesis by (simp add: positive_def)
  qed
  then have "tq_set s \<le> tq_now s \<and> 0 < tq_now s \<and> positive s \<and> list_all good_action acts \<longrightarrow> positive s5 \<and> armed_ok s5"
    using clock s5(7) by blast
  moreover have "tq_ran s5 = tq_ran s @ map (seq_of s) (due s)" using s3(2) s5(4) seqs by (simp add: s4_def s2_def s1(4))
  moreover have "tq_now s \<le> tq_now s5" "\<not> tq_calling s5" using clock(1) s5(5,6) by (simp_all add: s4_def)
  ultimately show ?thesis using run s5(2) heap by blast
qed

section \<open>Histories\<close>

text \<open>What happens to a queue: calls on the thread of the loop, time passing, and the loop finding the descriptor readable.\<close>

datatype tq_event = Act timer_action | Alarm

fun tq_history :: "((nat \<Rightarrow> Timer option) \<Rightarrow> nat) \<Rightarrow> (int \<Rightarrow> timer_action list) \<Rightarrow> tq_event list \<Rightarrow> TimerQueue \<Rightarrow> TimerQueue res" where
  "tq_history alloc script [] s = Inr s"
| "tq_history alloc script (Act a # es) s = rbind (perform alloc a s) (tq_history alloc script es)"
| "tq_history alloc script (Alarm # es) s = rbind (TimerQueue_handleRead alloc script s) (tq_history alloc script es)"

fun good_event :: "tq_event \<Rightarrow> bool" where
  "good_event (Act a) \<longleftrightarrow> good_action a"
| "good_event Alarm \<longleftrightarrow> True"

definition settled :: "TimerQueue \<Rightarrow> bool" where
  "settled s \<longleftrightarrow> 0 < tq_now s \<and> positive s \<and> armed_ok s"

lemma settled_ctor: "0 < now \<Longrightarrow> settled (TimerQueue_ctor now)"
  by (simp add: settled_def positive_def armed_ok_def TimerQueue_ctor_def)

lemma handleRead_settled:
  assumes "tq_ok [] s" "fresh_alloc alloc" "settled s" "\<forall>q. list_all good_action (script q)"
  shows "\<exists>s'. TimerQueue_handleRead alloc script s = Inr s' \<and> tq_ok [] s' \<and> settled s'"
proof -
  have "list_all good_action (concat (map (\<lambda>e. script (seq_of s e)) (due s)))"
    using assms(4) by (auto simp: list_all_iff)
  then show ?thesis
    using handleRead_ok [OF assms(1,2), of script] assms(3) by (auto simp: settled_def armed_ok_def)
qed

lemma perform_settled:
  assumes "tq_ok [] s" "fresh_alloc alloc" "perform alloc a s = Inr s'"
  shows "tq_ok [] s'" "settled s \<Longrightarrow> good_action a \<Longrightarrow> settled s'"
proof -
  have k: "kept [] [a] s s'" using perform_kept [OF assms(1,2), of a] assms(3) by auto
  show "tq_ok [] s'" by (rule kept_ok [OF k])
  show "settled s'" if "settled s" "good_action a"
    using that kept_clock [OF k] k by (auto simp: settled_def kept_def)
qed

lemma history_ok:
  assumes "tq_ok [] s" "fresh_alloc alloc"
  shows "\<exists>s'. tq_history alloc script es s = Inr s' \<and> tq_ok [] s' \<and>
     (settled s \<and> list_all good_event es \<and> (\<forall>q. list_all good_action (script q)) \<longrightarrow> settled s')"
  using assms(1)
proof (induction es arbitrary: s)
  case (Cons e es)
  show ?case
  proof (cases e)
    case (Act a)
    obtain s1 where s1: "perform alloc a s = Inr s1" using perform_kept [OF Cons.prems assms(2), of a] by auto
    note s1_ok = perform_settled [OF Cons.prems assms(2) s1]
    then show ?thesis using Cons.IH [OF s1_ok(1)] s1 Act by auto
  next
    case Alarm
    obtain s1 where s1: "TimerQueue_handleRead alloc script s = Inr s1" "tq_ok [] s1"
      using handleRead_ok [OF Cons.prems assms(2), of script] by blast
    have "settled s1" if "settled s" "\<forall>q. list_all good_action (script q)"
      using handleRead_settled [OF Cons.prems assms(2) that] s1(1) by auto
    then show ?thesis using Cons.IH [OF s1(2)] s1(1) Alarm by auto
  qed
qed simp

section \<open>The first timer fires\<close>

text \<open>Waiting for the descriptor: the clock reaches the armed instant and the loop calls \<^verbatim>\<open>handleRead\<close>.\<close>

definition wait_alarm :: "((nat \<Rightarrow> Timer option) \<Rightarrow> nat) \<Rightarrow> (int \<Rightarrow> timer_action list) \<Rightarrow> TimerQueue \<Rightarrow> TimerQueue res option" where
  "wait_alarm alloc script s =
     (case tq_armed s of None \<Rightarrow> None
      | Some t \<Rightarrow> Some (TimerQueue_handleRead alloc script (s\<lparr>tq_now := max (tq_now s) t\<rparr>)))"

lemma handleRead_early:
  assumes "tq_ok [] s" "tq_timers s = (w, a) # rest" "tq_now s < w" "0 < w"
  shows "TimerQueue_handleRead alloc script s =
     Inr (resetTimerfd w (s\<lparr>tq_armed := None, tq_timers := (w, a) # rest, tq_canceling := [], tq_calling := False\<rparr>))"
proof -
  obtain t where "tq_heap s a = Some t" "t_expiration t = w" using tq_okD(7) [OF assms(1), of w a] assms(2) by auto
  then show ?thesis using assms tq_okD(4) [OF assms(1)]
    by (simp add: TimerQueue_handleRead_def getExpired_def readTimerfd_def same_size_def TimerQueue_reset_def deref_def
        Timestamp_valid_def Let_def)
qed

lemma wait_alarm_due:
  assumes "tq_ok [] s" "fresh_alloc alloc" "tq_timers s = (w, a) # rest" "tq_armed s = Some t" "w \<le> max (tq_now s) t"
  shows "\<exists>s'. wait_alarm alloc script s = Some (Inr s') \<and> (\<exists>r. tq_ran s' = tq_ran s @ r \<and> seq_of s (w, a) \<in> set r)"
proof -
  define u where "u = s\<lparr>tq_now := max (tq_now s) t\<rparr>"
  have u: "tq_ok [] u" by (rule tq_ok_frame [OF assms(1)]) (simp_all add: u_def)
  have "(w, a) \<in> set (due u)" using assms(3,5) by (simp add: due_def u_def)
  then have "seq_of s (w, a) \<in> set (map (seq_of u) (due u))" by (force simp: u_def)
  moreover obtain s' where "TimerQueue_handleRead alloc script u = Inr s'" "tq_ran s' = tq_ran u @ map (seq_of u) (due u)"
    using handleRead_ok [OF u assms(2), of script] by blast
  ultimately show ?thesis using assms(4) by (intro exI [of _ s']) (simp add: wait_alarm_def u_def)
qed

lemma wait_alarm_early:
  assumes "tq_ok [] s" "tq_timers s = (w, a) # rest" "tq_armed s = Some t" "max (tq_now s) t < w" "0 < w"
  shows "\<exists>s'. wait_alarm alloc script s = Some (Inr s') \<and> tq_ok [] s' \<and> tq_timers s' = (w, a) # rest \<and> tq_heap s' = tq_heap s \<and>
     tq_ran s' = tq_ran s \<and> (\<exists>t'. tq_armed s' = Some t' \<and> w \<le> t')"
proof -
  define u where "u = s\<lparr>tq_now := max (tq_now s) t\<rparr>"
  have u: "tq_ok [] u" by (rule tq_ok_frame [OF assms(1)]) (simp_all add: u_def)
  define v where "v = resetTimerfd w (u\<lparr>tq_armed := None, tq_timers := (w, a) # rest, tq_canceling := [], tq_calling := False\<rparr>)"
  have "tq_ok [] v" by (rule tq_ok_frame [OF u]) (simp_all add: v_def u_def assms(2))
  moreover have "wait_alarm alloc script s = Some (Inr v)"
    using handleRead_early [OF u, of w a rest alloc script] assms by (simp add: wait_alarm_def u_def v_def)
  ultimately show ?thesis using assms(2) by (simp add: v_def u_def)
qed

lemma first_timer_fires:
  assumes "tq_ok [] s" "fresh_alloc alloc" "settled s" "tq_timers s = (w, a) # rest"
  shows "\<exists>s1. wait_alarm alloc script s = Some (Inr s1) \<and>
     ((\<exists>r. tq_ran s1 = tq_ran s @ r \<and> seq_of s (w, a) \<in> set r) \<or>
      (\<exists>s2 r. wait_alarm alloc script s1 = Some (Inr s2) \<and> tq_ran s2 = tq_ran s @ r \<and> seq_of s (w, a) \<in> set r))"
proof -
  obtain t where t: "tq_armed s = Some t" using assms(3,4) by (auto simp: settled_def armed_ok_def)
  show ?thesis
  proof (cases "w \<le> max (tq_now s) t")
    case True
    then show ?thesis using wait_alarm_due [OF assms(1,2,4) t True, of script] by blast
  next
    case False
    have w: "0 < w" using tq_okD(7) [OF assms(1), of w a] assms(3,4) by (auto simp: settled_def positive_def)
    obtain s1 t' where s1: "wait_alarm alloc script s = Some (Inr s1)" "tq_ok [] s1" "tq_timers s1 = (w, a) # rest"
        "tq_heap s1 = tq_heap s" "tq_ran s1 = tq_ran s" "tq_armed s1 = Some t'" "w \<le> t'"
      using wait_alarm_early [OF assms(1,4) t _ w, of alloc script] False by (auto simp: not_le simp del: max_less_iff_conj)
    have "w \<le> max (tq_now s1) t'" using s1(7) by simp
    from wait_alarm_due [OF s1(2) assms(2) s1(3,6) this, of script] show ?thesis
      using s1 by auto
  qed
qed

section \<open>Properties\<close>

text \<open>
  C26.  Whatever is added, cancelled and run, in whatever order and also from inside the callbacks, no assertion of the queue fails,
  no freed timer is read, and the two sets stay the same set of live timers: sorted by expiration, each live timer in both exactly
  once, no freed timer in either, and none leaked.
\<close>

theorem timer_queue_invariant:
  assumes "fresh_alloc alloc"
  shows "\<exists>s. tq_history alloc script es (TimerQueue_ctor now) = Inr s \<and> tq_ok [] s"
  using history_ok [OF tq_ok_ctor assms, of script es now] by blast

lemma fresh_alloc_least: "fresh_alloc (\<lambda>h. LEAST a. h a = None)"
proof -
  have "h (LEAST a. h a = None) = None" if fin: "finite (dom h)" for h :: "nat \<Rightarrow> Timer option"
  proof -
    obtain a where "a \<notin> dom h" using fin ex_new_if_finite [of "dom h"] infinite_UNIV_nat by blast
    then have "h a = None" by (simp add: dom_def)
    then show ?thesis by (rule LeastI)
  qed
  then show ?thesis by (simp add: fresh_alloc_def)
qed

theorem timer_queue_invariant_witness:
  "\<exists>s. tq_history (\<lambda>h. LEAST a. h a = None) (\<lambda>q. [CancelTimer 0 q, AddTimer 9 False 0])
     [Act (AddTimer 5 True 7), Act (Tick 10), Alarm] (TimerQueue_ctor 1) = Inr s \<and> tq_ok [] s"
  by (rule timer_queue_invariant [OF fresh_alloc_least])

text \<open>
  C27.  After every history the earliest timer does fire: the descriptor is armed whenever a timer waits, and at the latest at the
  second time the loop finds it readable the callback of the timer that was earliest runs.  The first readiness can come too early, when
  the timer it was armed for has been cancelled; \<^verbatim>\<open>handleRead\<close> then arms the descriptor again.
\<close>

theorem earliest_timer_fires:
  assumes "fresh_alloc alloc" "0 < now" "list_all good_event es" "\<forall>q. list_all good_action (script q)"
    and "tq_history alloc script es (TimerQueue_ctor now) = Inr s" "tq_timers s = (w, a) # rest"
  shows "\<exists>s1. wait_alarm alloc script s = Some (Inr s1) \<and>
     ((\<exists>r. tq_ran s1 = tq_ran s @ r \<and> seq_of s (w, a) \<in> set r) \<or>
      (\<exists>s2 r. wait_alarm alloc script s1 = Some (Inr s2) \<and> tq_ran s2 = tq_ran s @ r \<and> seq_of s (w, a) \<in> set r))"
proof -
  have "tq_ok [] s" "settled s"
    using history_ok [OF tq_ok_ctor assms(1), of script es now] settled_ctor [OF assms(2)] assms(3-5) by auto
  then show ?thesis using first_timer_fires [OF _ assms(1) _ assms(6)] by blast
qed

definition one_timer :: TimerQueue where
  "one_timer = \<lparr>tq_heap = [0 \<mapsto> \<lparr>t_expiration = 500, t_delta = 7, t_repeat = True, t_sequence = 1\<rparr>],
     tq_timers = [(500, 0)], tq_active = [(0, 1)], tq_calling = False, tq_canceling = [], tq_created = 1, tq_armed = Some 500,
     tq_set = 10, tq_now = 10, tq_ran = []\<rparr>"

lemma one_timer_added: "perform (\<lambda>h. LEAST a. h a = None) (AddTimer 500 True 7) (TimerQueue_ctor 10) = Inr one_timer"
  by (simp add: TimerQueue_ctor_def addTimer_def addTimerInLoop_def insert_timer_def same_size_def deref_def Let_def one_timer_def
      resetTimerfd_def howMuchTimeFromNow_def fun_eq_iff)

lemma one_timer_history:
  "tq_history (\<lambda>h. LEAST a. h a = None) (\<lambda>q. []) [Act (AddTimer 500 True 7)] (TimerQueue_ctor 10) = Inr one_timer"
  by (simp add: one_timer_added del: perform.simps)

theorem earliest_timer_fires_witness:
  "\<exists>s1. wait_alarm (\<lambda>h. LEAST a. h a = None) (\<lambda>q. []) one_timer = Some (Inr s1) \<and>
     ((\<exists>r. tq_ran s1 = tq_ran one_timer @ r \<and> seq_of one_timer (500, 0) \<in> set r) \<or>
      (\<exists>s2 r. wait_alarm (\<lambda>h. LEAST a. h a = None) (\<lambda>q. []) s1 = Some (Inr s2) \<and> tq_ran s2 = tq_ran one_timer @ r \<and>
         seq_of one_timer (500, 0) \<in> set r))"
  by (rule earliest_timer_fires [OF fresh_alloc_least _ _ _ one_timer_history, of 500 0 "[]"]) (simp_all add: one_timer_def)

text \<open>
  C28.  When the loop finds the descriptor readable, the callbacks of exactly the timers that have expired run, once each, earliest first.
  Afterwards a repeating timer that no callback cancelled waits again, one interval after the wake-up; every other one is freed: also
  a repeating timer that cancelled itself from its own callback, or that another callback of the same round cancelled.
\<close>

theorem alarm_runs_the_due:
  assumes "fresh_alloc alloc" "tq_history alloc script es (TimerQueue_ctor now) = Inr s"
  shows "\<exists>s'. TimerQueue_handleRead alloc script s = Inr s' \<and> tq_ran s' = tq_ran s @ map (seq_of s) (due s) \<and>
     sorted (due s) \<and> distinct (due s) \<and>
     (\<forall>w a. (w, a) \<in> set (due s) \<longleftrightarrow> (\<exists>t. tq_heap s a = Some t \<and> t_expiration t = w \<and> w \<le> tq_now s)) \<and>
     (\<forall>w a t. (w, a) \<in> set (due s) \<and> tq_heap s a = Some t \<longrightarrow>
        tq_heap s' a = (if t_repeat t \<and> CancelTimer a (t_sequence t) \<notin> set (concat (map (\<lambda>e. script (seq_of s e)) (due s)))
                        then Some (restart (tq_now s) t) else None))"
proof -
  have s: "tq_ok [] s" using history_ok [OF tq_ok_ctor assms(1), of script es now] assms(2) by auto
  note sD = tq_okD [OF s]
  have "due s = filter (\<lambda>e. fst e \<le> tq_now s) (tq_timers s)"
    by (simp add: due_def)
  then have "sorted (due s)" "distinct (due s)"
      "\<And>w a. (w, a) \<in> set (due s) \<longleftrightarrow> (\<exists>t. tq_heap s a = Some t \<and> t_expiration t = w \<and> w \<le> tq_now s)"
    using sD(1,2,7) sorted_filter [of "\<lambda>x. x"] by auto
  then show ?thesis using handleRead_ok [OF s assms(1), of script] by blast
qed

lemma late_timer_history:
  "tq_history (\<lambda>h. LEAST a. h a = None) (\<lambda>q. []) [Act (AddTimer 500 True 7), Act (Tick 1000)] (TimerQueue_ctor 10) =
     Inr (one_timer\<lparr>tq_now := 1010\<rparr>)"
  by (simp add: one_timer_added del: perform.simps(1)) (simp add: one_timer_def)

theorem alarm_runs_the_due_witness:
  "\<exists>s'. TimerQueue_handleRead (\<lambda>h. LEAST a. h a = None) (\<lambda>q. []) (one_timer\<lparr>tq_now := 1010\<rparr>) = Inr s' \<and> tq_ran s' = [1] \<and>
     tq_heap s' 0 = Some \<lparr>t_expiration = 1017, t_delta = 7, t_repeat = True, t_sequence = 1\<rparr>"
  using alarm_runs_the_due [OF fresh_alloc_least late_timer_history]
  by (auto simp: one_timer_def due_def restart_def addTime_def)

end
