(* ===== verification/Spec2Isabelle.thy ===== *)
theory Spec2Isabelle
  imports WS_Connector WS_EventLoop WS_Faults WS_Logging WS_Queue WS_Serve WS_Sha1 WS_Timer
begin

text \<open>
  A verification development for \<^verbatim>\<open>libwebsocket-component\<close>: a library that speaks the websocket protocol
  (\<^verbatim>\<open>src/libwebsocket\<close>) and the network library it is used with (\<^verbatim>\<open>src/muduo-vip/muduo\<close>).

  \<^bold>\<open>How the program is put together.\<close>  The event loop waits in a poller for descriptors, calls the channels that are
  ready and runs the timers that are due.  A connection collects the bytes it receives in a \<^verbatim>\<open>Buffer\<close> and hands it to the
  websocket session.  The first call parses the HTTP upgrade request and answers it with the accept key; every later call
  reads frames, step by step and as far as the bytes go, and reports each finished message to the application.  In the
  other direction the packers put a message into frames in front of a buffer.

  \<^bold>\<open>Websocket library\<close> (\<^verbatim>\<open>src/libwebsocket/private/websocket.cc\<close>).
  \<^item> \<^verbatim>\<open>WS_Endian\<close>, \<^verbatim>\<open>WS_IBytesBuffer\<close>, \<^verbatim>\<open>WS_Buffer\<close>: byte order, the buffer interface as a record of operations and its
    laws as the locale \<^verbatim>\<open>bytes_buffer\<close>, and \<^verbatim>\<open>muduo::net::Buffer\<close> with its indices, on which the locale is interpreted.
  \<^item> \<^verbatim>\<open>WS_Frame\<close>, \<^verbatim>\<open>WS_Context\<close>, \<^verbatim>\<open>WS_Parse\<close>: the header types, the message and session classes, and one definition for each
    function of the frame reader, up to the loop \<^verbatim>\<open>parse_frame\<close>.  The loop has fuel that is linear in the unread bytes;
    \<^verbatim>\<open>WS_Termination\<close> shows that it never runs out (C6).
  \<^item> \<^verbatim>\<open>WS_FrameSpec\<close>: the frames of RFC 6455 as a grammar, independent of the code.  \<^verbatim>\<open>WS_FrameRefine\<close>, \<^verbatim>\<open>WS_Feed\<close> and
    \<^verbatim>\<open>WS_Client\<close>: each step refines the grammar, also when the bytes stop in the middle of it; hence any stream of client
    messages is delivered (C1), and how it is cut into segments does not matter (C2).
  \<^item> \<^verbatim>\<open>WS_Pack\<close>: the packers and what an RFC 6455 reader gets from their output (C3, C4, C5).
  \<^item> \<^verbatim>\<open>WS_Faults\<close>: inputs on which the reader goes wrong (C7, C8, C9).
  \<^item> \<^verbatim>\<open>WS_Base64\<close>, \<^verbatim>\<open>WS_Sha1\<close>, \<^verbatim>\<open>WS_Http\<close>, \<^verbatim>\<open>WS_Handshake\<close>: the parts of the opening handshake and the handshake itself, which
    reaches the HTTP parser through the locale \<^verbatim>\<open>handshake_parser\<close> (C10, C11, C12, C19 to C23).

  \<^bold>\<open>Network library\<close> (\<^verbatim>\<open>src/muduo-vip/muduo\<close>).
  \<^item> \<^verbatim>\<open>WS_Date\<close>, \<^verbatim>\<open>WS_TimeZone\<close>, \<^verbatim>\<open>WS_LogStream\<close> (\<^verbatim>\<open>base/\<close>): calendar days, zone files and local times, the formatting of log
    lines (C13 to C18).
  \<^item> \<^verbatim>\<open>WS_Channel\<close>, \<^verbatim>\<open>WS_EPoll\<close>, \<^verbatim>\<open>WS_Poll\<close> (\<^verbatim>\<open>net/Channel.cc\<close>, \<^verbatim>\<open>net/poller\<close>): the channels and the two pollers.  The locale
    \<^verbatim>\<open>poller_contract\<close> says what a channel expects of a poller; it is interpreted on both, which gives their common
    refinement theorem (C24), and what a wait delivers (C25).
  \<^item> \<^verbatim>\<open>WS_Timer\<close> (\<^verbatim>\<open>net/Timer.cc\<close>, \<^verbatim>\<open>net/TimerQueue.cc\<close>): the timer queue with explicit memory, its invariant under every
    history of calls and wake-ups (C26), that timers fire (C27) and what a wake-up does (C28).
  \<^item> \<^verbatim>\<open>WS_EventLoop\<close> (\<^verbatim>\<open>net/EventLoop.cc\<close>): functors queued in the loop by its own and by other threads and the descriptor that wakes it, as
    interleaved steps (C35).
  \<^item> \<^verbatim>\<open>WS_Connector\<close> (\<^verbatim>\<open>net/Connector.cc\<close>): a connection attempt with its channel, timers and sockets (C40).
  \<^item> \<^verbatim>\<open>WS_Queue\<close> (\<^verbatim>\<open>base/BlockingQueue.h\<close>, \<^verbatim>\<open>base/BoundedBlockingQueue.h\<close>, \<^verbatim>\<open>base/ThreadPool.cc\<close>): queues and the thread pool under any schedule.  The
    code between two waits is one step; counting threads shows that no wakeup is lost (C36, C37).
  \<^item> \<^verbatim>\<open>WS_Logging\<close> (\<^verbatim>\<open>base/FileUtil.cc\<close>, \<^verbatim>\<open>base/LogFile.cc\<close>, \<^verbatim>\<open>base/AsyncLogging.cc\<close>): the files of a log and the thread that writes them (C38, C39).

  \<^bold>\<open>Connections and the server.\<close>
  \<^item> \<^verbatim>\<open>WS_Io\<close> (\<^verbatim>\<open>private/IBytesBuffer.cc\<close>, \<^verbatim>\<open>ssl/ssl_iorw.cc\<close>, \<^verbatim>\<open>ssl/ssl.cc\<close>): reading and writing until the system would block, plain and through OpenSSL, whose
    answers are an argument.
  \<^item> \<^verbatim>\<open>WS_Tcp\<close> (\<^verbatim>\<open>net/TcpConnection.cc\<close>): the connection, one definition for each member function, on the thread of its loop.
  \<^item> \<^verbatim>\<open>WS_TcpInv\<close>: the life of a plain connection as an invariant.  The locale \<^verbatim>\<open>tcp_application\<close> says what a connection expects of the callbacks of the
    application; the proofs about histories are done once in it.  It is interpreted in \<^verbatim>\<open>WS_TcpServer\<close> on the default callbacks with \<^verbatim>\<open>net/TcpServer.cc\<close>, and in
    \<^verbatim>\<open>WS_Server\<close> on the websocket echo server.
  \<^item> \<^verbatim>\<open>WS_TcpServer\<close>: the life of a connection (C29), the order of its bytes (C30), that output drains (C31), and where sending and closing go wrong (C32, C33).
  \<^item> \<^verbatim>\<open>WS_Server\<close>, \<^verbatim>\<open>WS_Serve\<close> (\<^verbatim>\<open>net/libwebsocket/context.cc\<close>, \<^verbatim>\<open>net/libwebsocket/server.cc\<close>, \<^verbatim>\<open>demo/echo.cc\<close>): the session as the context of a connection and its
    callbacks, up to the theorem of this theory on the whole path from a request to the answers (C34).

  \<^bold>\<open>Conventions.\<close>  A function that can stop at an assertion returns \<^verbatim>\<open>'a res\<close> of \<^verbatim>\<open>WS_Prelude\<close>.  Functions of the operating
  system, of OpenSSL and of the application are arguments, with what is relied on as hypotheses of the theorems.  Sizes
  are natural numbers and timestamps are integers; the integers of the wire format and of the hash are machine words.  Threads appear
  where the program shares data between them, as steps of a relation; everything else runs on the thread of its loop.

  \<^bold>\<open>Bounds.\<close>  Four loops have fuel.  That of the frame reader, \<open>2 * readableBytes() + 2\<close>, is never used up (C6); that of the request parser is enough in every state in
  which the code itself returns (C12).  The packing of chunks has one unit for each byte left and the padding of the hash one for each zero byte; C3 and C23 show that they return.  The other loops
  recurse over the data they consume or over the answers they get.

  \<^bold>\<open>Not modelled\<close>: the listening side (\<^verbatim>\<open>Acceptor\<close>, \<^verbatim>\<open>Reactor\<close>, the threads of loops) and \<^verbatim>\<open>TcpClient\<close>, which wire the parts above together by system calls; OpenSSL
  itself and the loading of certificates; \<^verbatim>\<open>HttpServer\<close>; the protocol buffer and RPC layer with its generated code; the inspector; compression; the
  printing of floating point numbers; the order server under \<^verbatim>\<open>src/https\<close>, whose clients of databases are not part of the sources; and everything that only logs.
  The theorems on connections are about plain ones; the TLS branches have their definitions only.
\<close>

section \<open>Properties\<close>


definition demo_visit :: "(read_answer list \<times> write_answer list \<times> tcp_input) list" where
  "demo_visit = [([Got (take 3 (stream_bytes demo_stream))], [Took 5], Ready 2 1), ([], [Took 7], Ready 3 4),
     ([Got (drop 3 (stream_bytes demo_stream))], [], Ready 4 1)]"


end
